(* ===== verification/Prelude.thy ===== *)
theory Prelude
  imports Main "HOL-Library.Word"
begin

text \<open>
  Shared vocabulary of the development: the machine integers of the Rust sources, byte
  literals, slices, saturating and checked arithmetic, and the generic lemmas on lists
  and words that the component theories use.

  Conventions. A byte buffer (\<^verbatim>\<open>&[u8]\<close>, \<^verbatim>\<open>Vec<u8>\<close>, \<^verbatim>\<open>Bytes\<close>, \<^verbatim>\<open>BytesMut\<close>) is a list of
  \<open>u8\<close>. A \<^verbatim>\<open>u64\<close> whose overflow behaviour the code relies on is a \<open>u64\<close> word. A buffer
  position (\<^verbatim>\<open>usize\<close> bounded by a buffer length) is a \<open>nat\<close>; where the code saturates a
  \<^verbatim>\<open>usize\<close>, the bound \<open>usize_max\<close> of a 64-bit target is written out. An \<^verbatim>\<open>i64\<close> is an
  \<open>int\<close> whose range is checked where the code checks it.
\<close>

unbundle bit_operations_syntax

type_synonym u8 = "8 word"
type_synonym u16 = "16 word"
type_synonym u32 = "32 word"
type_synonym u64 = "64 word"
type_synonym bytes = "u8 list"

named_theorems slice_simps \<open>normal forms of sub-slices\<close>
named_theorems arith_defs \<open>definitions of the saturating and checked operations\<close>

subsection \<open>Byte literals\<close>

text \<open>A Rust byte-string literal \<^verbatim>\<open>b"..."\<close> or the bytes of a \<^verbatim>\<open>&str\<close>.\<close>

definition bstr :: "string \<Rightarrow> bytes" where
  "bstr s = map of_char s"

abbreviation NL :: u8 where "NL \<equiv> 10"
abbreviation CR :: u8 where "CR \<equiv> 13"
abbreviation TAB :: u8 where "TAB \<equiv> 9"
abbreviation SP :: u8 where "SP \<equiv> 32"
abbreviation QUOTE :: u8 where "QUOTE \<equiv> 34"
abbreviation COMMA :: u8 where "COMMA \<equiv> 44"
abbreviation MINUS :: u8 where "MINUS \<equiv> 45"
abbreviation DOT :: u8 where "DOT \<equiv> 46"
abbreviation SLASH :: u8 where "SLASH \<equiv> 47"
abbreviation COLON :: u8 where "COLON \<equiv> 58"
abbreviation LBRACKET :: u8 where "LBRACKET \<equiv> 91"
abbreviation BACKSLASH :: u8 where "BACKSLASH \<equiv> 92"
abbreviation RBRACKET :: u8 where "RBRACKET \<equiv> 93"
abbreviation LBRACE :: u8 where "LBRACE \<equiv> 123"
abbreviation RBRACE :: u8 where "RBRACE \<equiv> 125"

subsection \<open>Standard-library operations the sources use\<close>

text \<open>\<^verbatim>\<open>&buf[a..b]\<close>; the sources only take it with \<open>a \<le> b \<le> length buf\<close>.\<close>

definition subslice :: "'a list \<Rightarrow> nat \<Rightarrow> nat \<Rightarrow> 'a list" where
  "subslice xs a b = take (b - a) (drop a xs)"

definition usize_max :: nat where
  "usize_max = 2 ^ 64 - 1"

definition saturating_add_usize :: "nat \<Rightarrow> nat \<Rightarrow> nat" where
  [arith_defs]: "saturating_add_usize a b = min usize_max (a + b)"

definition saturating_add :: "u64 \<Rightarrow> u64 \<Rightarrow> u64" where
  [arith_defs]: "saturating_add a b = (if a \<le> a + b then a + b else -1)"

definition saturating_sub :: "u64 \<Rightarrow> u64 \<Rightarrow> u64" where
  [arith_defs]: "saturating_sub a b = (if b \<le> a then a - b else 0)"

definition i64_ok :: "int \<Rightarrow> bool" where
  "i64_ok n \<longleftrightarrow> - (2 ^ 63) \<le> n \<and> n < 2 ^ 63"

definition checked_i64 :: "int \<Rightarrow> int option" where
  [arith_defs]: "checked_i64 n = (if i64_ok n then Some n else None)"

definition is_ascii_digit :: "u8 \<Rightarrow> bool" where
  "is_ascii_digit b \<longleftrightarrow> 48 \<le> b \<and> b \<le> 57"

definition to_ascii_lowercase :: "u8 \<Rightarrow> u8" where
  "to_ascii_lowercase b = (if 65 \<le> b \<and> b \<le> 90 then b + 32 else b)"

definition eq_ignore_ascii_case :: "bytes \<Rightarrow> bytes \<Rightarrow> bool" where
  "eq_ignore_ascii_case a b \<longleftrightarrow> map to_ascii_lowercase a = map to_ascii_lowercase b"

subsection \<open>Options\<close>

lemma option_eqI: "(\<And>v. x = Some v \<longleftrightarrow> y = Some v) \<Longrightarrow> x = y"
  by (cases x; cases y) auto

subsection \<open>Slices\<close>

lemma length_slice [simp]: "length (subslice xs a b) = min (b - a) (length xs - a)"
  by (simp add: subslice_def)

lemma slice_nth [simp]: "i < b - a \<Longrightarrow> a + i < length xs \<Longrightarrow> subslice xs a b ! i = xs ! (a + i)"
  by (simp add: subslice_def)

lemma slice_full [slice_simps]: "length xs \<le> b \<Longrightarrow> subslice xs 0 b = xs"
  by (simp add: subslice_def)

lemma slice_empty [slice_simps]: "b \<le> a \<Longrightarrow> subslice xs a b = []"
  by (simp add: subslice_def)

lemma slice_to_end [slice_simps]: "length xs \<le> b \<Longrightarrow> subslice xs a b = drop a xs"
  by (simp add: subslice_def)

lemma slice_prefix [slice_simps]: "subslice xs 0 b = take b xs"
  by (simp add: subslice_def)

lemma slice_append_left: "b \<le> length xs \<Longrightarrow> subslice (xs @ ys) a b = subslice xs a b"
  by (cases "a \<le> b") (auto simp: subslice_def)

lemma slice_append_right: "length xs \<le> a \<Longrightarrow> subslice (xs @ ys) a b = subslice ys (a - length xs) (b - length xs)"
  by (simp add: subslice_def)

lemma slice_Suc: "a < b \<Longrightarrow> a < length xs \<Longrightarrow> subslice xs a b = xs ! a # subslice xs (Suc a) b"
  by (simp add: subslice_def Cons_nth_drop_Suc [symmetric] Suc_diff_Suc take_Cons')

lemma slice_snoc: "a \<le> b \<Longrightarrow> b < length xs \<Longrightarrow> subslice xs a (Suc b) = subslice xs a b @ [xs ! b]"
  by (simp add: subslice_def Suc_diff_le take_Suc_conv_app_nth)

lemma slice_join:
  assumes "a \<le> b" and "b \<le> c"
  shows "subslice xs a b @ subslice xs b c = subslice xs a c"
proof -
  have "drop b xs = drop (b - a) (drop a xs)"
    using assms by simp
  then have "take (c - b) (drop b xs) = take (c - b) (drop (b - a) (drop a xs))"
    by simp
  moreover have "c - a = (b - a) + (c - b)"
    using assms by simp
  ultimately show ?thesis
    by (simp only: subslice_def take_add)
qed

lemma drop_split_at:
  assumes "a \<le> i" and "i < length xs"
  shows "drop a xs = subslice xs a i @ xs ! i # drop (Suc i) xs"
proof -
  have "drop a xs = take (i - a) (drop a xs) @ drop (i - a) (drop a xs)"
    by (rule append_take_drop_id [symmetric])
  also have "drop (i - a) (drop a xs) = xs ! i # drop (Suc i) xs"
    using assms Cons_nth_drop_Suc [of i xs] by simp
  finally show ?thesis by (simp add: subslice_def)
qed

lemma set_slice_subset: "set (subslice xs a b) \<subseteq> set xs"
  by (auto simp: subslice_def dest: in_set_takeD in_set_dropD)

lemma in_set_slice: "x \<in> set (subslice xs a b) \<longleftrightarrow> (\<exists>i. a \<le> i \<and> i < b \<and> i < length xs \<and> xs ! i = x)"
  (is "?l \<longleftrightarrow> ?r")
proof
  assume ?l
  then obtain j where "j < length (subslice xs a b)" and "subslice xs a b ! j = x"
    by (auto simp: in_set_conv_nth)
  then show ?r by (intro exI [of _ "a + j"]) auto
next
  assume ?r
  then obtain i where "a \<le> i" "i < b" "i < length xs" "xs ! i = x" by blast
  then show ?l
    by (auto simp: in_set_conv_nth intro!: exI [of _ "i - a"])
qed

subsection \<open>Words\<close>

lemma unat_saturating_add: "unat (saturating_add a b) = min (2 ^ 64 - 1) (unat a + unat b)"
proof (cases "unat a + unat b < 2 ^ 64")
  case True
  then have "a \<le> a + b" by (simp add: no_olen_add_nat)
  with True show ?thesis by (simp add: saturating_add_def unat_word_ariths)
next
  case False
  then have "\<not> a \<le> a + b" by (simp add: no_olen_add_nat)
  with False show ?thesis
    by (simp add: saturating_add_def unsigned_minus_1_eq_mask mask_eq_exp_minus_1)
qed

lemma unat_saturating_sub: "unat (saturating_sub a b) = unat a - unat b"
  by (auto simp: saturating_sub_def unat_sub word_le_nat_alt)

lemma saturating_add_exact:
  "unat a + unat b < 2 ^ 64 \<Longrightarrow> unat (saturating_add a b) = unat a + unat b"
  by (simp add: unat_saturating_add)

lemma u64_bound [simp]: "unat (x :: u64) < 2 ^ 64"
  using unsigned_less [of x] by simp

lemma unat_of_nat_u64: "k < 2 ^ 64 \<Longrightarrow> unat (of_nat k :: u64) = k"
  by (simp add: unsigned_of_nat take_bit_nat_eq_self)

lemma u8_bound [simp]: "unat (x :: u8) < 256"
  using unsigned_less [of x] by simp

text \<open>A property of one byte is settled by checking all 256 of them.\<close>

definition all_bytes :: bytes where
  "all_bytes = map word_of_int [0..255]"

lemma all_bytes_member: "b \<in> set all_bytes"
proof -
  have "(word_of_int (uint b) :: u8) \<in> word_of_int ` set [0..255]"
    using uint_range_size [of b] by (intro imageI) (simp add: word_size)
  then show ?thesis by (simp add: all_bytes_def)
qed

lemma all_bytes_check: "list_all P all_bytes \<Longrightarrow> P b"
  using all_bytes_member [of b] by (simp add: list_all_iff)

lemma nibble_check:
  assumes "list_all P (map word_of_int [0..15])"
  shows "P ((b :: u8) AND 15)"
proof -
  have "uint (b AND 15) \<le> 15"
    using word_and_le1 [of b 15] by (simp add: word_le_def)
  then have "(word_of_int (uint (b AND 15)) :: u8) \<in> word_of_int ` set [0..15]"
    by (intro imageI) simp
  with assms show ?thesis by (auto simp: list_all_iff)
qed

end
