(* ===== verification/Byte_Search.thy ===== *)
theory Byte_Search
  imports Prelude
begin

text \<open>
  The byte search loops of \<^verbatim>\<open>ffwd-core/src/byte_search.rs\<close> and the interface of the
  \<^verbatim>\<open>memchr\<close> crate they replace.

  The repository calls \<^verbatim>\<open>memchr\<close> in other places, and that crate is not part of the
  repository. The record \<open>memchr_ops\<close> holds the functions the sources call, and the locale
  \<open>memchr_crate\<close> states their documented behaviour. The repository documents its own loops
  as equivalents of those functions; the interpretation \<open>own_search\<close> proves it.
\<close>

subsection \<open>The loops\<close>

function find_byte :: "bytes \<Rightarrow> u8 \<Rightarrow> nat \<Rightarrow> nat option" where
  "find_byte haystack needle i =
     (if i < length haystack
      then if haystack ! i = needle then Some i else find_byte haystack needle (i + 1)
      else None)"
  by pat_completeness auto
termination
  by (relation "measure (\<lambda>(haystack, needle, i). length haystack - i)") auto

declare find_byte.simps [simp del]

fun rfind_from :: "bytes \<Rightarrow> u8 \<Rightarrow> nat \<Rightarrow> nat option" where
  "rfind_from haystack needle 0 = None"
| "rfind_from haystack needle (Suc i) =
     (if haystack ! i = needle then Some i else rfind_from haystack needle i)"

definition rfind_byte :: "bytes \<Rightarrow> u8 \<Rightarrow> nat \<Rightarrow> nat option" where
  "rfind_byte haystack needle end' =
     (if end' = 0 \<or> haystack = [] then None
      else rfind_from haystack needle (min end' (length haystack)))"

record FindByteIter =
  iter_haystack :: bytes
  iter_needle :: u8
  iter_pos :: nat

definition find_byte_iter :: "bytes \<Rightarrow> u8 \<Rightarrow> FindByteIter" where
  "find_byte_iter haystack needle = \<lparr>iter_haystack = haystack, iter_needle = needle, iter_pos = 0\<rparr>"

definition iter_next :: "FindByteIter \<Rightarrow> nat option \<times> FindByteIter" where
  "iter_next it =
     (case find_byte (iter_haystack it) (iter_needle it) (iter_pos it) of
        Some pos \<Rightarrow> (Some pos, it\<lparr>iter_pos := pos + 1\<rparr>)
      | None \<Rightarrow> (None, it))"

text \<open>The first match at or after the start, and nothing when there is none.\<close>

lemma find_byte_step:
  "i < length h \<Longrightarrow> h ! i \<noteq> n \<Longrightarrow> find_byte h n i = find_byte h n (Suc i)"
  by (simp add: find_byte.simps [of h n i])

lemma all_ge_Suc: "P i \<Longrightarrow> (\<forall>k. Suc i \<le> k \<and> k < m \<longrightarrow> P k) \<longleftrightarrow> (\<forall>k. i \<le> k \<and> k < m \<longrightarrow> P k)"
  by (metis Suc_leD Suc_leI le_neq_implies_less)

lemma find_byte_Some_iff:
  "find_byte h n i = Some p \<longleftrightarrow>
     i \<le> p \<and> p < length h \<and> h ! p = n \<and> (\<forall>k. i \<le> k \<and> k < p \<longrightarrow> h ! k \<noteq> n)"
proof (induction h n i rule: find_byte.induct)
  case (1 h n i)
  show ?case
  proof (cases "i < length h \<and> h ! i \<noteq> n")
    case True
    with 1 have "find_byte h n i = Some p \<longleftrightarrow> Suc i \<le> p \<and> p < length h \<and> h ! p = n \<and>
        (\<forall>k. Suc i \<le> k \<and> k < p \<longrightarrow> h ! k \<noteq> n)"
      by (simp add: find_byte_step)
    with True show ?thesis
      using all_ge_Suc [of "\<lambda>k. h ! k \<noteq> n" i p] by (metis Suc_leI le_neq_implies_less Suc_leD)
  next
    case False
    then show ?thesis
      by (auto simp: find_byte.simps [of h n i] not_less)
  qed
qed

lemma find_byte_None_iff: "find_byte h n i = None \<longleftrightarrow> (\<forall>k. i \<le> k \<and> k < length h \<longrightarrow> h ! k \<noteq> n)"
proof (induction h n i rule: find_byte.induct)
  case (1 h n i)
  show ?case
  proof (cases "i < length h \<and> h ! i \<noteq> n")
    case True
    with 1 have "find_byte h n i = None \<longleftrightarrow> (\<forall>k. Suc i \<le> k \<and> k < length h \<longrightarrow> h ! k \<noteq> n)"
      by (simp add: find_byte_step)
    with True show ?thesis
      using all_ge_Suc [of "\<lambda>k. h ! k \<noteq> n" i "length h"] by simp
  next
    case False
    then show ?thesis by (auto simp: find_byte.simps [of h n i])
  qed
qed

text \<open>Draining the iterator, as \<^verbatim>\<open>collect\<close> and \<^verbatim>\<open>for\<close> loops do.\<close>

function collect_iter :: "FindByteIter \<Rightarrow> nat list" where
  "collect_iter it =
     (case iter_next it of (None, it') \<Rightarrow> [] | (Some p, it') \<Rightarrow> p # collect_iter it')"
  by pat_completeness auto
termination
  by (relation "measure (\<lambda>it. length (iter_haystack it) - iter_pos it)")
     (auto simp: iter_next_def find_byte_Some_iff split: option.splits)

declare collect_iter.simps [simp del]

subsection \<open>The interface of the memchr crate\<close>

record memchr_ops =
  memchr :: "u8 \<Rightarrow> bytes \<Rightarrow> nat option"
  memrchr :: "u8 \<Rightarrow> bytes \<Rightarrow> nat option"
  memchr_iter :: "u8 \<Rightarrow> bytes \<Rightarrow> nat list"

text \<open>All positions of a byte, in increasing order.\<close>

definition byte_positions :: "u8 \<Rightarrow> bytes \<Rightarrow> nat list" where
  "byte_positions n h = filter (\<lambda>i. h ! i = n) [0..<length h]"

text \<open>The functions of this module, packed as that interface.\<close>

definition own_search_ops :: memchr_ops where
  "own_search_ops =
     \<lparr>memchr = (\<lambda>n h. find_byte h n 0),
      memrchr = (\<lambda>n h. rfind_byte h n (length h)),
      memchr_iter = (\<lambda>n h. collect_iter (find_byte_iter h n))\<rparr>"

subsection \<open>What the loops compute\<close>

lemma rfind_from_Some_iff:
  "rfind_from h n e = Some p \<longleftrightarrow> p < e \<and> h ! p = n \<and> (\<forall>k. p < k \<and> k < e \<longrightarrow> h ! k \<noteq> n)"
  by (induction e) (auto simp: less_Suc_eq)

lemma rfind_from_None_iff: "rfind_from h n e = None \<longleftrightarrow> (\<forall>k<e. h ! k \<noteq> n)"
  by (induction e) (auto simp: less_Suc_eq)

lemma rfind_byte_eq: "rfind_byte h n e = rfind_from h n (min e (length h))"
  by (auto simp: rfind_byte_def)

lemma rfind_byte_Some_iff:
  "rfind_byte h n (length h) = Some p \<longleftrightarrow>
     p < length h \<and> h ! p = n \<and> (\<forall>k. p < k \<and> k < length h \<longrightarrow> h ! k \<noteq> n)"
  by (simp add: rfind_byte_eq rfind_from_Some_iff)

lemma rfind_byte_None_iff: "rfind_byte h n (length h) = None \<longleftrightarrow> n \<notin> set h"
  by (auto simp: rfind_byte_eq rfind_from_None_iff in_set_conv_nth)

lemma find_byte_None_set: "find_byte h n 0 = None \<longleftrightarrow> n \<notin> set h"
  by (auto simp: find_byte_None_iff in_set_conv_nth)

lemma filter_upt_none: "(\<forall>k. i \<le> k \<and> k < j \<longrightarrow> \<not> P k) \<Longrightarrow> filter P [i..<j] = []"
  by (simp add: filter_empty_conv)

lemma collect_from:
  "iter_pos it \<le> length (iter_haystack it) \<Longrightarrow>
   collect_iter it =
     filter (\<lambda>i. iter_haystack it ! i = iter_needle it) [iter_pos it..<length (iter_haystack it)]"
proof (induction it rule: collect_iter.induct)
  case (1 it)
  let ?h = "iter_haystack it" and ?n = "iter_needle it" and ?i = "iter_pos it"
  show ?case
  proof (cases "find_byte ?h ?n ?i")
    case None
    then have "filter (\<lambda>i. ?h ! i = ?n) [?i..<length ?h] = []"
      by (intro filter_upt_none) (simp add: find_byte_None_iff)
    with None show ?thesis
      by (simp add: collect_iter.simps [of it] iter_next_def)
  next
    case (Some p)
    then have p: "?i \<le> p" "p < length ?h" "?h ! p = ?n"
      and before: "\<forall>k. ?i \<le> k \<and> k < p \<longrightarrow> ?h ! k \<noteq> ?n"
      by (simp_all add: find_byte_Some_iff)
    have "[?i..<length ?h] = [?i..<p] @ p # [Suc p..<length ?h]"
      using p upt_add_eq_append [of ?i p "length ?h - p"] by (simp add: upt_conv_Cons)
    moreover have "filter (\<lambda>i. ?h ! i = ?n) [?i..<p] = []"
      using before by (intro filter_upt_none) simp
    moreover have "collect_iter (it\<lparr>iter_pos := p + 1\<rparr>) =
        filter (\<lambda>i. ?h ! i = ?n) [Suc p..<length ?h]"
      using "1.IH" [of "Some p" "it\<lparr>iter_pos := p + 1\<rparr>" p] p Some
      by (simp add: iter_next_def)
    ultimately show ?thesis
      using p Some by (simp add: collect_iter.simps [of it] iter_next_def)
  qed
qed

lemma collect_find_byte_iter: "collect_iter (find_byte_iter h n) = byte_positions n h"
  by (simp add: collect_from find_byte_iter_def byte_positions_def)

lemma byte_positions_Nil: "n \<notin> set xs \<Longrightarrow> byte_positions n xs = []"
  by (auto simp: byte_positions_def in_set_conv_nth)

lemma byte_positions_Cons:
  "byte_positions n (x # xs) = (if x = n then [0] else []) @ map Suc (byte_positions n xs)"
proof -
  have "[0..<length (x # xs)] = 0 # map Suc [0..<length xs]"
    by (simp add: map_Suc_upt upt_conv_Cons del: upt_Suc)
  then show ?thesis
    by (simp add: byte_positions_def filter_map comp_def del: upt_Suc)
qed

lemma byte_positions_line:
  "n \<notin> set l \<Longrightarrow> byte_positions n (l @ n # xs) = length l # map (\<lambda>i. Suc (length l) + i) (byte_positions n xs)"
  by (induction l) (auto simp: byte_positions_Cons comp_def)

subsection \<open>The memchr crate\<close>

locale memchr_crate =
  fixes mc :: memchr_ops
  assumes memchr_first: "memchr mc n h = Some p \<longleftrightarrow> p < length h \<and> h ! p = n \<and> (\<forall>k<p. h ! k \<noteq> n)"
    and memrchr_last: "memrchr mc n h = Some p \<longleftrightarrow>
      p < length h \<and> h ! p = n \<and> (\<forall>k. p < k \<and> k < length h \<longrightarrow> h ! k \<noteq> n)"
    and memchr_iter_all: "memchr_iter mc n h = byte_positions n h"
begin

lemma memchr_find_byte: "memchr mc n h = find_byte h n 0"
  by (rule option_eqI) (simp add: memchr_first find_byte_Some_iff)

lemma memrchr_rfind_byte: "memrchr mc n h = rfind_byte h n (length h)"
  by (rule option_eqI) (simp add: memrchr_last rfind_byte_Some_iff)

end

text \<open>The repository's own loops satisfy the crate's laws, so they can stand in for it.\<close>

interpretation own_search: memchr_crate own_search_ops
  by unfold_locales
     (simp_all add: own_search_ops_def find_byte_Some_iff rfind_byte_Some_iff collect_find_byte_iter)

end
