(* ===== verification/Checkpoint_Tracker.thy ===== *)
theory Checkpoint_Tracker
  imports Byte_Search
begin

text \<open>
  The checkpoint-remainder state machine of \<^verbatim>\<open>ffwd-core/src/checkpoint_tracker.rs\<close>.

  The four \<^verbatim>\<open>u64\<close> fields are 64-bit words and every operation keeps the saturating
  arithmetic of the source; a failed \<^verbatim>\<open>assert!\<close> is \<open>None\<close>. The step relation \<open>tracker_step\<close>
  drives the machine over the bytes of a file: reads take the next bytes of the file and
  report the last newline of the chunk, a checkpoint records the processed offset and a
  restart loses all in-memory state.
\<close>

subsection \<open>State and operations\<close>

record CheckpointTracker =
  read_offset :: u64
  processed_offset :: u64
  remainder_len :: u64
  checkpoint_offset :: u64

definition tracker_new :: "u64 \<Rightarrow> CheckpointTracker" where
  "tracker_new resume_offset =
     \<lparr>read_offset = resume_offset, processed_offset = resume_offset,
      remainder_len = 0, checkpoint_offset = resume_offset\<rparr>"

definition apply_read :: "CheckpointTracker \<Rightarrow> u64 \<Rightarrow> u64 option \<Rightarrow> CheckpointTracker option" where
  "apply_read t n_bytes last_newline_pos =
     (if \<not> 0 < n_bytes then None
      else if (case last_newline_pos of Some pos \<Rightarrow> \<not> pos < n_bytes | None \<Rightarrow> False) then None
      else
        (let old_read = read_offset t;
             t = t\<lparr>read_offset := saturating_add old_read n_bytes\<rparr>
         in case last_newline_pos of
              Some pos \<Rightarrow>
                (let newline_abs = saturating_add (saturating_add old_read pos) 1
                 in Some (t\<lparr>processed_offset := newline_abs,
                           remainder_len := saturating_sub (read_offset t) newline_abs\<rparr>))
            | None \<Rightarrow> Some (t\<lparr>remainder_len := saturating_add (remainder_len t) n_bytes\<rparr>)))"

definition apply_checkpoint :: "CheckpointTracker \<Rightarrow> CheckpointTracker" where
  "apply_checkpoint t = t\<lparr>checkpoint_offset := processed_offset t\<rparr>"

definition apply_restart :: "CheckpointTracker \<Rightarrow> CheckpointTracker" where
  "apply_restart t =
     t\<lparr>read_offset := checkpoint_offset t, processed_offset := checkpoint_offset t,
       remainder_len := 0\<rparr>"

definition apply_remainder_consumed :: "CheckpointTracker \<Rightarrow> CheckpointTracker" where
  "apply_remainder_consumed t = t\<lparr>processed_offset := read_offset t, remainder_len := 0\<rparr>"

definition checkpointable_offset :: "CheckpointTracker \<Rightarrow> u64" where
  "checkpointable_offset t = processed_offset t"

text \<open>The documented invariant of the four offsets.\<close>

definition tracker_inv :: "CheckpointTracker \<Rightarrow> bool" where
  "tracker_inv t \<longleftrightarrow>
     checkpoint_offset t \<le> processed_offset t \<and>
     unat (processed_offset t) + unat (remainder_len t) = unat (read_offset t)"

text \<open>One step over a file whose bytes are \<open>content\<close>.\<close>

inductive tracker_step :: "bytes \<Rightarrow> CheckpointTracker \<Rightarrow> CheckpointTracker \<Rightarrow> bool" for content where
  step_read: "0 < k \<Longrightarrow> unat (read_offset t) + k \<le> length content \<Longrightarrow>
     chunk = subslice content (unat (read_offset t)) (unat (read_offset t) + k) \<Longrightarrow>
     apply_read t (of_nat k) (map_option of_nat (rfind_byte chunk NL (length chunk))) = Some t' \<Longrightarrow>
     tracker_step content t t'"
| step_checkpoint: "tracker_step content t (apply_checkpoint t)"
| step_restart: "tracker_step content t (apply_restart t)"

inductive tracker_reachable :: "bytes \<Rightarrow> nat \<Rightarrow> CheckpointTracker \<Rightarrow> bool" for content resume where
  reach_new: "length content < 2 ^ 64 \<Longrightarrow> resume \<le> length content \<Longrightarrow>
     tracker_reachable content resume (tracker_new (of_nat resume))"
| reach_step: "tracker_reachable content resume t \<Longrightarrow> tracker_step content t t' \<Longrightarrow>
     tracker_reachable content resume t'"

text \<open>An offset at which a line of the file starts, counting the resume point as one.\<close>

definition line_boundary :: "bytes \<Rightarrow> nat \<Rightarrow> nat \<Rightarrow> bool" where
  "line_boundary content resume p \<longleftrightarrow> p = resume \<or> (0 < p \<and> p \<le> length content \<and> content ! (p - 1) = NL)"

text \<open>
  What every reachable state satisfies: the offsets agree, the unprocessed bytes hold no
  newline, and both the processed and the checkpointed offset are line boundaries.
\<close>

definition tracker_sound :: "bytes \<Rightarrow> nat \<Rightarrow> CheckpointTracker \<Rightarrow> bool" where
  "tracker_sound content resume t \<longleftrightarrow>
     tracker_inv t \<and> unat (read_offset t) \<le> length content \<and> length content < 2 ^ 64 \<and>
     NL \<notin> set (subslice content (unat (processed_offset t)) (unat (read_offset t))) \<and>
     line_boundary content resume (unat (processed_offset t)) \<and>
     line_boundary content resume (unat (checkpoint_offset t))"

subsection \<open>The offsets after one operation\<close>

lemmas tracker_ops = tracker_new_def apply_checkpoint_def apply_restart_def
  apply_remainder_consumed_def checkpointable_offset_def

lemma apply_read_newline:
  assumes "pos < n" and "unat (read_offset t) + unat n < 2 ^ 64"
  shows "\<exists>t'. apply_read t n (Some pos) = Some t' \<and>
    unat (read_offset t') = unat (read_offset t) + unat n \<and>
    unat (processed_offset t') = unat (read_offset t) + unat pos + 1 \<and>
    unat (remainder_len t') = unat n - (unat pos + 1) \<and>
    checkpoint_offset t' = checkpoint_offset t"
proof -
  have "unat pos < unat n"
    using assms(1) by (simp add: word_less_nat_alt)
  with assms show ?thesis
    by (auto simp: apply_read_def Let_def unat_saturating_add unat_saturating_sub word_less_nat_alt
        not_less)
qed

lemma apply_read_no_newline:
  assumes "0 < n" and "unat (read_offset t) + unat n < 2 ^ 64"
    and "unat (remainder_len t) \<le> unat (read_offset t)"
  shows "\<exists>t'. apply_read t n None = Some t' \<and>
    unat (read_offset t') = unat (read_offset t) + unat n \<and>
    processed_offset t' = processed_offset t \<and>
    unat (remainder_len t') = unat (remainder_len t) + unat n \<and>
    checkpoint_offset t' = checkpoint_offset t"
  using assms by (auto simp: apply_read_def Let_def unat_saturating_add)

lemma tracker_inv_offsets:
  "tracker_inv t \<Longrightarrow> unat (remainder_len t) \<le> unat (read_offset t) \<and>
     unat (checkpoint_offset t) \<le> unat (processed_offset t) \<and>
     unat (processed_offset t) \<le> unat (read_offset t)"
  by (auto simp: tracker_inv_def word_le_nat_alt)

lemma apply_read_inv:
  assumes inv: "tracker_inv t" and n: "0 < n" and pos: "\<forall>p. nl = Some p \<longrightarrow> p < n"
    and room: "unat (read_offset t) + unat n < 2 ^ 64"
  shows "\<exists>t'. apply_read t n nl = Some t' \<and> tracker_inv t' \<and>
    unat (read_offset t') = unat (read_offset t) + unat n \<and>
    checkpoint_offset t' = checkpoint_offset t \<and> processed_offset t \<le> processed_offset t'"
proof (cases nl)
  case None
  with apply_read_no_newline [OF n room] tracker_inv_offsets [OF inv] inv show ?thesis
    by (auto simp: tracker_inv_def)
next
  case (Some p)
  with pos have "p < n" by simp
  then have "unat p < unat n" by (simp add: word_less_nat_alt)
  with apply_read_newline [OF \<open>p < n\<close> room] tracker_inv_offsets [OF inv] inv Some show ?thesis
    by (auto simp: tracker_inv_def word_le_nat_alt)
qed

subsection \<open>Driving the tracker over a file\<close>

lemma chunk_newline:
  assumes "chunk = subslice content r (r + k)" and "r + k \<le> length content"
    and "rfind_byte chunk NL (length chunk) = Some p"
  shows "p < k" and "content ! (r + p) = NL" and "NL \<notin> set (subslice content (r + p + 1) (r + k))"
proof -
  have len: "length chunk = k" using assms(1,2) by simp
  from assms(3) have p: "p < k" "chunk ! p = NL" and after: "\<forall>j. p < j \<and> j < k \<longrightarrow> chunk ! j \<noteq> NL"
    using rfind_byte_Some_iff [of chunk NL p] by (simp_all add: len)
  show "p < k" by fact
  show "content ! (r + p) = NL" using p assms(1,2) by simp
  show "NL \<notin> set (subslice content (r + p + 1) (r + k))"
  proof
    assume "NL \<in> set (subslice content (r + p + 1) (r + k))"
    then obtain i where i: "r + p + 1 \<le> i" "i < r + k" "content ! i = NL"
      by (auto simp: in_set_slice)
    then have "chunk ! (i - r) = NL" using assms(1,2) by simp
    moreover have "p < i - r" "i - r < k" using i by linarith+
    ultimately show False using after by blast
  qed
qed

lemma tracker_sound_read:
  assumes sound: "tracker_sound content resume t" and k: "0 < k" and room: "unat (read_offset t) + k \<le> length content"
    and chunk: "chunk = subslice content (unat (read_offset t)) (unat (read_offset t) + k)"
    and read: "apply_read t (of_nat k) (map_option of_nat (rfind_byte chunk NL (length chunk))) = Some t'"
  shows "tracker_sound content resume t'"
proof -
  let ?r = "unat (read_offset t)" and ?k = "of_nat k :: u64"
  have inv: "tracker_inv t" and small: "length content < 2 ^ 64"
    using sound by (simp_all add: tracker_sound_def)
  have uk: "unat ?k = k" using room small by (intro unat_of_nat_u64) linarith
  have k0: "0 < ?k" using k uk by (metis unat_0 word_gt_0 less_not_refl)
  have fits: "?r + unat ?k < 2 ^ 64" using uk room small by linarith
  show ?thesis
  proof (cases "rfind_byte chunk NL (length chunk)")
    case None
    then have "NL \<notin> set (subslice content ?r (?r + k))"
      using rfind_byte_None_iff [of chunk NL] chunk by blast
    moreover from None read apply_read_no_newline [OF k0 fits] tracker_inv_offsets [OF inv]
    have t': "unat (read_offset t') = ?r + k" "processed_offset t' = processed_offset t"
      "unat (remainder_len t') = unat (remainder_len t) + k" "checkpoint_offset t' = checkpoint_offset t"
      by (auto simp: uk)
    moreover have "subslice content (unat (processed_offset t)) ?r @ subslice content ?r (?r + k) =
        subslice content (unat (processed_offset t)) (?r + k)"
      using tracker_inv_offsets [OF inv] by (intro slice_join) auto
    then have "set (subslice content (unat (processed_offset t)) (?r + k)) =
       set (subslice content (unat (processed_offset t)) ?r) \<union> set (subslice content ?r (?r + k))"
      by (metis set_append)
    ultimately show ?thesis
      using sound room by (auto simp: tracker_sound_def tracker_inv_def)
  next
    case (Some p)
    note nl = chunk_newline [OF chunk room Some]
    have up: "unat (of_nat p :: u64) = p"
      using nl(1) room small by (intro unat_of_nat_u64) linarith
    then have "(of_nat p :: u64) < ?k" using nl(1) uk by (simp add: word_less_nat_alt)
    from Some read apply_read_newline [OF this fits] 
    have t': "unat (read_offset t') = ?r + k" "unat (processed_offset t') = ?r + p + 1"
      "unat (remainder_len t') = k - (p + 1)" "checkpoint_offset t' = checkpoint_offset t"
      by (auto simp: uk up)
    with nl sound room tracker_inv_offsets [OF inv] show ?thesis
      by (auto simp: tracker_sound_def tracker_inv_def line_boundary_def word_le_nat_alt)
  qed
qed

lemma tracker_sound_step:
  "tracker_step content t t' \<Longrightarrow> tracker_sound content resume t \<Longrightarrow> tracker_sound content resume t'"
proof (induction rule: tracker_step.induct)
  case (step_read k t chunk t')
  then show ?case by (blast intro: tracker_sound_read)
next
  case (step_checkpoint t)
  then show ?case by (simp add: tracker_sound_def tracker_ops tracker_inv_def)
next
  case (step_restart t)
  then show ?case
    using tracker_inv_offsets [of t] by (auto simp: tracker_sound_def tracker_ops tracker_inv_def slice_simps)
qed

lemma tracker_reachable_sound: "tracker_reachable content resume t \<Longrightarrow> tracker_sound content resume t"
proof (induction rule: tracker_reachable.induct)
  case reach_new
  then show ?case
    by (simp add: tracker_sound_def tracker_ops tracker_inv_def unat_of_nat_u64 slice_simps line_boundary_def)
next
  case (reach_step t t')
  then show ?case by (blast intro: tracker_sound_step)
qed

subsection \<open>Properties\<close>

text \<open>
  Property C21. Along every run of reads, checkpoints and crashes over a file (resumed at any
  offset), the tracker's offsets satisfy their documented invariant, the buffered remainder
  is a single partial line (no newline between the processed and the read offset), and the
  checkpoint that a restart returns to is always the start of a line, so that a crash never
  resumes in the middle of one.
\<close>

theorem tracker_crash_safe:
  assumes "tracker_reachable content resume t"
  shows "tracker_inv t \<and>
    NL \<notin> set (subslice content (unat (processed_offset t)) (unat (read_offset t))) \<and>
    line_boundary content resume (unat (processed_offset t)) \<and>
    line_boundary content resume (unat (read_offset (apply_restart t))) \<and>
    tracker_inv (apply_restart t)"
  using tracker_reachable_sound [OF assms]
  by (simp add: tracker_sound_def apply_restart_def tracker_inv_def)

theorem tracker_crash_safe_witness:
  "line_boundary (bstr ''ab'' @ NL # bstr ''cd'') 0 3 \<and>
   NL \<notin> set (subslice (bstr ''ab'' @ NL # bstr ''cd'') 3 5)"
proof -
  let ?c = "bstr ''ab'' @ NL # bstr ''cd''"
  let ?t = "\<lparr>read_offset = 5, processed_offset = 3, remainder_len = 2, checkpoint_offset = 0\<rparr>"
  have "tracker_reachable ?c 0 (tracker_new (of_nat 0))"
    by (rule reach_new) (simp_all add: bstr_def)
  moreover have "tracker_step ?c (tracker_new (of_nat 0)) ?t"
    by (rule step_read [of 5 _ _ ?c]) code_simp+
  ultimately have "tracker_reachable ?c 0 ?t"
    by (rule reach_step)
  from tracker_crash_safe [OF this] show ?thesis
    by simp
qed

end
