(* ===== verification/Line_Split.thy ===== *)
theory Line_Split
  imports Byte_Search
begin

text \<open>
  The reference notion of line splitting that the framers are compared with. \<open>split_nl\<close> cuts a
  byte string into its newline-terminated lines (without the newline) and the bytes after the
  last newline. It models no code by itself.
\<close>

fun split_nl :: "bytes \<Rightarrow> bytes list \<times> bytes" where
  "split_nl [] = ([], [])"
| "split_nl (x # xs) =
     (case split_nl xs of (ls, r) \<Rightarrow>
        if x = NL then ([] # ls, r)
        else (case ls of [] \<Rightarrow> ([], x # r) | l # ls' \<Rightarrow> ((x # l) # ls', r)))"

definition complete_lines :: "bytes \<Rightarrow> bytes list" where
  "complete_lines xs = fst (split_nl xs)"

definition partial_line :: "bytes \<Rightarrow> bytes" where
  "partial_line xs = snd (split_nl xs)"

definition unlines_nl :: "bytes list \<Rightarrow> bytes" where
  "unlines_nl ls = concat (map (\<lambda>l. l @ [NL]) ls)"

named_theorems line_simps \<open>how the reference splitting computes\<close>

lemma split_nl_line: "NL \<notin> set l \<Longrightarrow> split_nl (l @ NL # xs) = (l # fst (split_nl xs), snd (split_nl xs))"
  by (induction l) (auto split: prod.splits)

lemma split_nl_partial: "NL \<notin> set r \<Longrightarrow> split_nl r = ([], r)"
  by (induction r) (auto split: prod.splits)

lemma complete_lines_line [line_simps]:
  "NL \<notin> set l \<Longrightarrow> complete_lines (l @ NL # xs) = l # complete_lines xs"
  by (simp add: complete_lines_def split_nl_line)

lemma partial_line_line [line_simps]: "NL \<notin> set l \<Longrightarrow> partial_line (l @ NL # xs) = partial_line xs"
  by (simp add: partial_line_def split_nl_line)

lemma complete_lines_partial [line_simps]: "NL \<notin> set r \<Longrightarrow> complete_lines r = []"
  by (simp add: complete_lines_def split_nl_partial)

lemma partial_line_partial [line_simps]: "NL \<notin> set r \<Longrightarrow> partial_line r = r"
  by (simp add: partial_line_def split_nl_partial)

lemma complete_lines_Nil [simp]: "complete_lines [] = []"
  by (simp add: complete_lines_def)

lemma partial_line_Nil [simp]: "partial_line [] = []"
  by (simp add: partial_line_def)

lemma unlines_nl_simps [simp]:
  "unlines_nl [] = []" "unlines_nl (l # ls) = l @ NL # unlines_nl ls"
  "unlines_nl (ls @ ls') = unlines_nl ls @ unlines_nl ls'"
  by (simp_all add: unlines_nl_def)

text \<open>Induction over a byte string one line at a time.\<close>

lemma line_induct [case_names partial_case line_case]:
  assumes partial_case: "\<And>r. NL \<notin> set r \<Longrightarrow> P r"
    and line_case: "\<And>l xs. NL \<notin> set l \<Longrightarrow> P xs \<Longrightarrow> P (l @ NL # xs)"
  shows "P xs"
proof (induction xs rule: length_induct)
  case (1 xs)
  show ?case
  proof (cases "NL \<in> set xs")
    case True
    then obtain l ys where "xs = l @ NL # ys" "NL \<notin> set l"
      by (meson split_list_first)
    then show ?thesis using 1 by (auto intro: line_case)
  next
    case False
    then show ?thesis by (rule partial_case)
  qed
qed

lemma split_join: "unlines_nl (complete_lines xs) @ partial_line xs = xs"
  by (induction xs rule: line_induct) (auto simp: line_simps)

lemma NL_notin_partial_line: "NL \<notin> set (partial_line xs)"
  by (induction xs rule: line_induct) (auto simp: line_simps)

lemma NL_notin_complete_lines: "l \<in> set (complete_lines xs) \<Longrightarrow> NL \<notin> set l"
  by (induction xs rule: line_induct) (auto simp: line_simps)

text \<open>Splitting a chunk in two: the first part's partial line is carried over to the second.\<close>

lemma split_append:
  "complete_lines (xs @ ys) = complete_lines xs @ complete_lines (partial_line xs @ ys)"
  "partial_line (xs @ ys) = partial_line (partial_line xs @ ys)"
  by (induction xs rule: line_induct) (auto simp: line_simps)

lemma split_unlines:
  "\<forall>l\<in>set ls. NL \<notin> set l \<Longrightarrow> complete_lines (unlines_nl ls @ xs) = ls @ complete_lines xs"
  "\<forall>l\<in>set ls. NL \<notin> set l \<Longrightarrow> partial_line (unlines_nl ls @ xs) = partial_line xs"
  by (induction ls) (auto simp: line_simps)

text \<open>The partial line is what follows the last newline.\<close>

lemma rfind_partial_line:
  "rfind_byte xs NL (length xs) = Some p \<Longrightarrow>
     partial_line xs = drop (Suc p) xs \<and> take (Suc p) xs = unlines_nl (complete_lines xs)"
proof -
  assume found: "rfind_byte xs NL (length xs) = Some p"
  then have p: "p < length xs" "xs ! p = NL" and after: "\<forall>k. p < k \<and> k < length xs \<longrightarrow> xs ! k \<noteq> NL"
    by (simp_all add: rfind_byte_Some_iff)
  have xs: "xs = take p xs @ NL # drop (Suc p) xs"
    using p by (metis id_take_nth_drop)
  have rest: "NL \<notin> set (drop (Suc p) xs)"
    using after by (auto simp: in_set_conv_nth)
  have "partial_line (take p xs @ NL # drop (Suc p) xs) = drop (Suc p) xs"
    by (simp only: split_append(2) [of "take p xs"]) (simp add: line_simps NL_notin_partial_line rest)
  then have part: "partial_line xs = drop (Suc p) xs"
    using xs by simp
  moreover have "unlines_nl (complete_lines xs) @ partial_line xs = take (Suc p) xs @ drop (Suc p) xs"
    by (simp add: split_join)
  ultimately show ?thesis by (metis append_same_eq)
qed

end
