(* ===== verification/Newline_Framer.thy ===== *)
theory Newline_Framer
  imports Line_Split
begin

text \<open>
  The newline framer of \<^verbatim>\<open>ffwd-core/src/framer.rs\<close>: the byte loop of \<^verbatim>\<open>NewlineFramer::frame\<close> with
  its bounded output array. The fixed array with its \<^verbatim>\<open>count\<close> is the list of its valid entries.
\<close>

definition MAX_LINES_PER_FRAME :: nat where
  "MAX_LINES_PER_FRAME = 4096"

record FrameOutput =
  line_ranges :: "(nat \<times> nat) list"
  remainder_offset :: nat

definition frame_len :: "FrameOutput \<Rightarrow> nat" where
  "frame_len out = length (line_ranges out)"

definition line_range :: "FrameOutput \<Rightarrow> nat \<Rightarrow> (nat \<times> nat) option" where
  "line_range out i = (if i < frame_len out then Some (line_ranges out ! i) else None)"

text \<open>The loop, with the array bound as a parameter.\<close>

function frame_loop :: "nat \<Rightarrow> bytes \<Rightarrow> nat \<Rightarrow> nat \<Rightarrow> (nat \<times> nat) list \<Rightarrow> FrameOutput" where
  "frame_loop max_lines input start i ranges =
     (if i < length input then
        if input ! i = NL then
          if max_lines \<le> length ranges
          then \<lparr>line_ranges = ranges, remainder_offset = start\<rparr>
          else frame_loop max_lines input (i + 1) (i + 1)
                 (if start < i then ranges @ [(start, i)] else ranges)
        else frame_loop max_lines input start (i + 1) ranges
      else \<lparr>line_ranges = ranges, remainder_offset = start\<rparr>)"
  by pat_completeness auto
termination
  by (relation "measure (\<lambda>(m, input, start, i, ranges). length input - i)") auto

declare frame_loop.simps [simp del]

definition frame :: "bytes \<Rightarrow> FrameOutput" where
  "frame input = frame_loop MAX_LINES_PER_FRAME input 0 0 []"

text \<open>The bytes of the lines a frame reports.\<close>

definition framed_lines :: "bytes \<Rightarrow> FrameOutput \<Rightarrow> bytes list" where
  "framed_lines input out = map (\<lambda>(s, e). subslice input s e) (line_ranges out)"

text \<open>The contract of a frame: it takes the non-empty lines from the front of the input.\<close>

definition frames :: "nat \<Rightarrow> bytes \<Rightarrow> nat \<Rightarrow> (nat \<times> nat) list \<Rightarrow> FrameOutput \<Rightarrow> bool" where
  "frames max_lines input start ranges out \<longleftrightarrow>
     (\<exists>new. line_ranges out = ranges @ new \<and>
        filter (\<lambda>l. l \<noteq> []) (complete_lines (drop start input)) =
          map (\<lambda>(s, e). subslice input s e) new @
          filter (\<lambda>l. l \<noteq> []) (complete_lines (drop (remainder_offset out) input))) \<and>
     start \<le> remainder_offset out \<and> remainder_offset out \<le> length input \<and>
     partial_line (drop (remainder_offset out) input) = partial_line (drop start input) \<and>
     (complete_lines (drop (remainder_offset out) input) \<noteq> [] \<longrightarrow>
        max_lines \<le> length (line_ranges out))"

lemma frame_loop_frames:
  "start \<le> i \<Longrightarrow> i \<le> length input \<Longrightarrow> NL \<notin> set (subslice input start i) \<Longrightarrow>
   frames max_lines input start ranges (frame_loop max_lines input start i ranges)"
proof (induction max_lines input start i ranges rule: frame_loop.induct)
  case (1 max_lines input start i ranges)
  let ?stop = "\<lparr>line_ranges = ranges, remainder_offset = start\<rparr>"
  let ?ranges = "if start < i then ranges @ [(start, i)] else ranges"
  consider (at_end) "length input \<le> i" | (full) "i < length input" "input ! i = NL" "max_lines \<le> length ranges"
    | (line) "i < length input" "input ! i = NL" "\<not> max_lines \<le> length ranges"
    | (byte) "i < length input" "input ! i \<noteq> NL"
    by linarith
  then show ?case
  proof cases
    case at_end
    then have "complete_lines (drop start input) = []"
      using "1.prems" by (simp add: slice_to_end line_simps)
    with at_end "1.prems" show ?thesis
      by (simp add: frame_loop.simps [of max_lines input start i] frames_def)
  next
    case full
    with "1.prems" show ?thesis
      by (simp add: frame_loop.simps [of max_lines input start i] frames_def)
  next
    case line
    let ?out = "frame_loop max_lines input (i + 1) (i + 1) ?ranges"
    have IH: "frames max_lines input (i + 1) ?ranges ?out"
      using line by (intro "1.IH"(1)) (simp_all add: slice_simps)
    have split: "drop start input = subslice input start i @ NL # drop (Suc i) input"
      using line "1.prems" drop_split_at [of start i input] by simp
    have cl: "complete_lines (drop start input) = subslice input start i # complete_lines (drop (Suc i) input)"
      and pl: "partial_line (drop start input) = partial_line (drop (Suc i) input)"
      unfolding split using "1.prems" by (simp_all add: line_simps)
    have "subslice input start i \<noteq> [] \<longleftrightarrow> start < i"
      using line "1.prems" by (auto simp flip: length_0_conv)
    with IH line "1.prems" show ?thesis
      by (auto simp: frame_loop.simps [of max_lines input start i] frames_def cl pl)
  next
    case byte
    have "NL \<notin> set (subslice input start (Suc i))"
      using byte "1.prems" by (simp add: slice_snoc)
    with byte "1.prems" have "frames max_lines input start ranges (frame_loop max_lines input start (i + 1) ranges)"
      by (intro "1.IH"(2)) simp_all
    with byte show ?thesis
      by (simp add: frame_loop.simps [of max_lines input start i])
  qed
qed

lemma frame_loop_bounded:
  "length ranges \<le> max_lines \<Longrightarrow> length (line_ranges (frame_loop max_lines input start i ranges)) \<le> max_lines"
proof (induction max_lines input start i ranges rule: frame_loop.induct)
  case (1 max_lines input start i ranges)
  then show ?case
    by (simp add: frame_loop.simps [of max_lines input start i])
qed

text \<open>
  Property C22. Framing loses nothing: the lines a frame reports, followed by the non-empty
  lines of the bytes from its remainder offset on, are exactly the non-empty lines of the
  input; the trailing partial line is unchanged; at most 4096 lines are reported, and a
  complete line is left in the remainder only when the output array is full.
\<close>

theorem frame_correct:
  "filter (\<lambda>l. l \<noteq> []) (complete_lines input) =
     framed_lines input (frame input) @
     filter (\<lambda>l. l \<noteq> []) (complete_lines (drop (remainder_offset (frame input)) input)) \<and>
   partial_line (drop (remainder_offset (frame input)) input) = partial_line input \<and>
   frame_len (frame input) \<le> MAX_LINES_PER_FRAME \<and>
   (frame_len (frame input) = MAX_LINES_PER_FRAME \<or>
    complete_lines (drop (remainder_offset (frame input)) input) = [])"
proof -
  have "frames MAX_LINES_PER_FRAME input 0 [] (frame input)"
    unfolding frame_def by (rule frame_loop_frames) (simp_all add: slice_simps)
  moreover have "length (line_ranges (frame input)) \<le> MAX_LINES_PER_FRAME"
    unfolding frame_def by (rule frame_loop_bounded) simp
  ultimately show ?thesis
    by (auto simp: frames_def framed_lines_def frame_len_def)
qed

end
