(* ===== verification/Cri_Reassembler.thy ===== *)
theory Cri_Reassembler
  imports Prelude
begin

text \<open>
  The partial-line reassembler of \<^verbatim>\<open>ffwd-core/src/reassembler.rs\<close>: P (partial) and F (full) CRI
  messages are merged under a size limit, and raw line fragments are carried over chunk
  boundaries under a second limit. Buffers are byte lists; the capacity kept by
  \<^verbatim>\<open>take_line_fragment\<close> is not part of the state.
\<close>

definition CRI_RAW_LINE_OVERHEAD :: nat where
  "CRI_RAW_LINE_OVERHEAD = 256"

record CriReassembler =
  pending :: bytes
  line_fragment :: bytes
  max_message_size :: nat
  truncated :: bool
  line_fragment_truncated :: bool

datatype AggregateResult = Complete bytes | Truncated bytes | Pending

definition reassembler_new :: "nat \<Rightarrow> CriReassembler" where
  "reassembler_new max_size =
     \<lparr>pending = [], line_fragment = [], max_message_size = max_size,
      truncated = False, line_fragment_truncated = False\<rparr>"

text \<open>The append shared by the P branch and the F branch after a P line.\<close>

definition append_pending :: "CriReassembler \<Rightarrow> bytes \<Rightarrow> CriReassembler" where
  "append_pending r message =
     (let remaining = max_message_size r - length (pending r);
          to_add = min (length message) remaining
      in r\<lparr>truncated := (truncated r \<or> to_add < length message),
           pending := pending r @ take to_add message\<rparr>)"

definition feed :: "CriReassembler \<Rightarrow> bytes \<Rightarrow> bool \<Rightarrow> AggregateResult \<times> CriReassembler" where
  "feed r message is_full =
     (if is_full then
        if pending r = [] then
          (let end' = min (length message) (max_message_size r)
           in (if end' < length message then Truncated (take end' message)
               else Complete (take end' message), r))
        else
          (let r = append_pending r message
           in (if truncated r then Truncated (pending r) else Complete (pending r), r))
      else (Pending, append_pending r message))"

definition reset :: "CriReassembler \<Rightarrow> CriReassembler" where
  "reset r = r\<lparr>pending := [], line_fragment := [], truncated := False,
               line_fragment_truncated := False\<rparr>"

definition has_pending :: "CriReassembler \<Rightarrow> bool" where
  "has_pending r \<longleftrightarrow> pending r \<noteq> []"

definition raw_line_fragment_limit :: "CriReassembler \<Rightarrow> nat" where
  "raw_line_fragment_limit r = saturating_add_usize (max_message_size r) CRI_RAW_LINE_OVERHEAD"

definition push_line_fragment :: "CriReassembler \<Rightarrow> bytes \<Rightarrow> CriReassembler" where
  "push_line_fragment r bs =
     (let remaining = raw_line_fragment_limit r - length (line_fragment r);
          to_add = min (length bs) remaining
      in r\<lparr>line_fragment_truncated := (line_fragment_truncated r \<or> to_add < length bs),
           line_fragment := line_fragment r @ take to_add bs\<rparr>)"

definition has_line_fragment :: "CriReassembler \<Rightarrow> bool" where
  "has_line_fragment r \<longleftrightarrow> line_fragment r \<noteq> []"

definition has_buffered_state :: "CriReassembler \<Rightarrow> bool" where
  "has_buffered_state r \<longleftrightarrow> has_pending r \<or> has_line_fragment r"

definition take_line_fragment :: "CriReassembler \<Rightarrow> bytes \<times> CriReassembler" where
  "take_line_fragment r =
     (line_fragment r, r\<lparr>line_fragment_truncated := False, line_fragment := []\<rparr>)"

text \<open>Feeding the chunks of one message: partial chunks, then the full one.\<close>

definition feed_partials :: "CriReassembler \<Rightarrow> bytes list \<Rightarrow> CriReassembler" where
  "feed_partials r ps = foldl (\<lambda>r p. snd (feed r p False)) r ps"

text \<open>The size invariant: neither buffer exceeds its limit.\<close>

definition reassembler_bounded :: "CriReassembler \<Rightarrow> bool" where
  "reassembler_bounded r \<longleftrightarrow>
     length (pending r) \<le> max_message_size r \<and>
     length (line_fragment r) \<le> raw_line_fragment_limit r"

subsection \<open>Bounds\<close>

lemmas reassembler_ops = reset_def push_line_fragment_def take_line_fragment_def
  append_pending_def feed_def Let_def

lemma max_message_size_kept [simp]:
  "max_message_size (snd (feed r m f)) = max_message_size r"
  "max_message_size (reset r) = max_message_size r"
  "max_message_size (push_line_fragment r bs) = max_message_size r"
  "max_message_size (snd (take_line_fragment r)) = max_message_size r"
  by (simp_all add: reassembler_ops)

text \<open>
  Property C24. Both buffers of the reassembler stay within their limits whatever is fed to it:
  no operation lets the pending message exceed \<^verbatim>\<open>max_message_size\<close> or the raw fragment exceed its
  own limit.
\<close>

theorem reassembler_bounds:
  assumes "reassembler_bounded r"
  shows "reassembler_bounded (snd (feed r message is_full)) \<and>
    reassembler_bounded (reset r) \<and>
    reassembler_bounded (push_line_fragment r bs) \<and>
    reassembler_bounded (snd (take_line_fragment r))"
  using assms by (auto simp: reassembler_bounded_def reassembler_ops raw_line_fragment_limit_def)

theorem reassembler_bounds_witness:
  "reassembler_bounded (snd (feed (reassembler_new 3) (bstr ''abcdef'') False))"
proof -
  have "reassembler_bounded (reassembler_new 3)"
    by (simp add: reassembler_bounded_def reassembler_new_def)
  from reassembler_bounds [OF this, of "bstr ''abcdef''" False] show ?thesis by blast
qed

subsection \<open>Reassembly\<close>

lemma append_pending_take:
  assumes "pending r = take (max_message_size r) xs"
    and "truncated r \<longleftrightarrow> max_message_size r < length xs"
  shows "pending (append_pending r m) = take (max_message_size r) (xs @ m) \<and>
    (truncated (append_pending r m) \<longleftrightarrow> max_message_size r < length (xs @ m))"
  using assms by (auto simp: append_pending_def Let_def min_def)

lemma feed_partials_take:
  assumes "pending r = take (max_message_size r) xs"
    and "truncated r \<longleftrightarrow> max_message_size r < length xs"
  shows "pending (feed_partials r ps) = take (max_message_size r) (xs @ concat ps) \<and>
    (truncated (feed_partials r ps) \<longleftrightarrow> max_message_size r < length (xs @ concat ps)) \<and>
    max_message_size (feed_partials r ps) = max_message_size r"
  using assms
proof (induction ps arbitrary: r xs)
  case Nil
  then show ?case by (simp add: feed_partials_def)
next
  case (Cons p ps)
  have step: "snd (feed r p False) = append_pending r p"
    by (simp add: feed_def)
  have size: "max_message_size (append_pending r p) = max_message_size r"
    by (simp add: append_pending_def Let_def)
  have "feed_partials r (p # ps) = feed_partials (append_pending r p) ps"
    by (simp add: feed_partials_def step)
  with Cons.IH [of "append_pending r p" "xs @ p"] append_pending_take [OF Cons.prems] size
  show ?case by simp
qed

text \<open>
  Property C23. Reassembly is concatenation under the size limit: feeding any partial chunks and
  then a full one to a fresh reassembler (with a positive limit) yields the first
  \<^verbatim>\<open>max_message_size\<close> bytes of the whole message, reported as truncated exactly when bytes were
  dropped, and after \<^verbatim>\<open>reset\<close> the reassembler is as new.
\<close>

theorem reassembly_correct:
  assumes "0 < max_size"
  shows "let r = feed_partials (reassembler_new max_size) ps;
             whole = concat ps @ final
         in fst (feed r final True) =
              (if max_size < length whole then Truncated (take max_size whole) else Complete whole) \<and>
            reset (snd (feed r final True)) = reassembler_new max_size"
proof -
  let ?r = "feed_partials (reassembler_new max_size) ps"
  define xs where "xs = concat ps"
  have r: "pending ?r = take max_size xs" "truncated ?r \<longleftrightarrow> max_size < length xs"
    "max_message_size ?r = max_size"
    using feed_partials_take [of "reassembler_new max_size" "[]" ps]
    by (simp_all add: reassembler_new_def xs_def)
  have result: "fst (feed ?r final True) =
      (if max_size < length (xs @ final) then Truncated (take max_size (xs @ final))
       else Complete (xs @ final))"
  proof (cases "xs = []")
    case True
    with r show ?thesis by (auto simp: feed_def Let_def min_def)
  next
    case False
    with r assms have "pending ?r \<noteq> []" by simp
    with append_pending_take [of ?r xs final] r show ?thesis
      by (auto simp: feed_def Let_def)
  qed
  have "reset (snd (feed ?r final True)) = reassembler_new max_size"
    using r by (intro CriReassembler.equality) (simp_all add: reset_def reassembler_new_def)
  with result show ?thesis
    by (simp only: Let_def xs_def)
qed

theorem reassembly_correct_witness:
  "fst (feed (feed_partials (reassembler_new 8) [bstr ''hello '', bstr ''wor'']) (bstr ''ld'') True) =
     Truncated (bstr ''hello wo'')"
  using reassembly_correct [of 8 "[bstr ''hello '', bstr ''wor'']" "bstr ''ld''"]
  by (simp add: Let_def bstr_def)

end
