(* ===== verification/Cri.thy ===== *)
theory Cri
  imports Cri_Reassembler Line_Split
begin

text \<open>
  The CRI (container runtime) log format of \<^verbatim>\<open>ffwd-core/src/cri.rs\<close>: parsing one line, walking a
  chunk line by line while raw fragments and partial messages are carried over, and writing
  each message as one NDJSON line.

  The closure passed to \<^verbatim>\<open>process_cri_chunk_lines\<close> captures an output sink; it is a function that
  takes and returns the sink. Newline search in a chunk is the \<^verbatim>\<open>memchr\<close> crate's, a parameter.
\<close>

subsection \<open>Parsing a line\<close>

record CriLine =
  timestamp :: bytes
  stream :: bytes
  is_full :: bool
  message :: bytes

definition parse_cri_line :: "bytes \<Rightarrow> CriLine option" where
  "parse_cri_line line =
     (case find_byte line SP 0 of None \<Rightarrow> None | Some sp1 \<Rightarrow>
      if sp1 = 0 \<or> length line \<le> sp1 + 1 then None else
      (case find_byte line SP (sp1 + 1) of None \<Rightarrow> None | Some sp2 \<Rightarrow>
       if sp2 = sp1 + 1 \<or> length line \<le> sp2 + 1 then None else
       (let (flags_end, msg_start) =
              (case find_byte line SP (sp2 + 1) of
                 Some sp3 \<Rightarrow> (sp3, sp3 + 1) | None \<Rightarrow> (length line, length line));
            stream = subslice line (sp1 + 1) sp2
        in if stream \<noteq> bstr ''stdout'' \<and> stream \<noteq> bstr ''stderr'' then None else
           (let flags = subslice line (sp2 + 1) flags_end;
                msg = (if msg_start < length line then drop msg_start line else [])
            in if flags = bstr ''F''
               then Some \<lparr>timestamp = take sp1 line, stream = stream, is_full = True, message = msg\<rparr>
               else if flags = bstr ''P''
               then Some \<lparr>timestamp = take sp1 line, stream = stream, is_full = False, message = msg\<rparr>
               else None))))"

subsection \<open>Escaping and writing messages\<close>

definition hex_digit_lower :: "u8 \<Rightarrow> u8" where
  "hex_digit_lower n = (if n < 10 then 48 + n else 97 + n - 10)"

definition json_escape_byte :: "u8 \<Rightarrow> bytes" where
  "json_escape_byte b =
     (if b = QUOTE then [BACKSLASH, QUOTE]
      else if b = BACKSLASH then [BACKSLASH, BACKSLASH]
      else if b = 8 then [BACKSLASH, 98]
      else if b = TAB then [BACKSLASH, 116]
      else if b = NL then [BACKSLASH, 110]
      else if b = 12 then [BACKSLASH, 102]
      else if b = CR then [BACKSLASH, 114]
      else if b \<le> 31 \<or> b = 127 then
        [BACKSLASH, 117, 48, 48] @
        [hex_digit_lower ((drop_bit 4 b) AND 15), hex_digit_lower (b AND 15)]
      else [b])"

fun json_escape_bytes :: "bytes \<Rightarrow> bytes \<Rightarrow> bytes" where
  "json_escape_bytes [] dst = dst"
| "json_escape_bytes (b # src) dst = json_escape_bytes src (dst @ json_escape_byte b)"

definition write_json_line_with_plain_text_field :: "bytes \<Rightarrow> bytes \<Rightarrow> bytes \<Rightarrow> bytes" where
  "write_json_line_with_plain_text_field msg plain_text_field_name out =
     (if msg \<noteq> [] \<and> hd msg = LBRACE then out @ msg
      else
        (let out = out @ [LBRACE, QUOTE];
             out = json_escape_bytes plain_text_field_name out;
             out = out @ [QUOTE, COLON, QUOTE];
             out = json_escape_bytes msg out
         in out @ [QUOTE, RBRACE])) @ [NL]"

definition write_json_line :: "bytes \<Rightarrow> bytes \<Rightarrow> bytes" where
  "write_json_line msg out = write_json_line_with_plain_text_field msg (bstr ''body'') out"

definition write_json_line_for_plain_text_field :: "bytes \<Rightarrow> bytes \<Rightarrow> bytes \<Rightarrow> bytes" where
  "write_json_line_for_plain_text_field msg plain_text_field_name out =
     (if plain_text_field_name = bstr ''body'' then write_json_line msg out
      else write_json_line_with_plain_text_field msg plain_text_field_name out)"

subsection \<open>Walking a chunk\<close>

type_synonym 'o line_processor = "bytes \<Rightarrow> CriReassembler \<Rightarrow> 'o \<Rightarrow> (nat \<times> nat) \<times> CriReassembler \<times> 'o"
type_synonym 'o cri_state = "CriReassembler \<times> 'o \<times> nat \<times> nat"

definition call_process_line :: "'o line_processor \<Rightarrow> bytes \<Rightarrow> 'o cri_state \<Rightarrow> 'o cri_state" where
  "call_process_line process_line line = (\<lambda>(r, out, count, errors).
     case process_line line r out of ((line_count, line_errors), r, out) \<Rightarrow>
       (r, out, count + line_count, errors + line_errors))"

definition cri_chunk_step :: "'o line_processor \<Rightarrow> bytes \<Rightarrow> 'o cri_state \<Rightarrow> 'o cri_state" where
  "cri_chunk_step process_line line = (\<lambda>(r, out, count, errors).
     if has_line_fragment r then
       (let r = push_line_fragment r line
        in if line_fragment_truncated r then (reset r, out, count, errors + 1)
           else (case take_line_fragment r of (complete_line, r) \<Rightarrow>
                   call_process_line process_line complete_line (r, out, count, errors)))
     else call_process_line process_line line (r, out, count, errors))"

fun cri_chunk_loop ::
  "'o line_processor \<Rightarrow> bytes \<Rightarrow> nat list \<Rightarrow> nat \<Rightarrow> 'o cri_state \<Rightarrow> nat \<times> 'o cri_state" where
  "cri_chunk_loop process_line chunk [] line_start st = (line_start, st)"
| "cri_chunk_loop process_line chunk (pos # ps) line_start st =
     cri_chunk_loop process_line chunk ps (pos + 1)
       (cri_chunk_step process_line (subslice chunk line_start pos) st)"

definition cri_push_trailing :: "bytes \<Rightarrow> 'o cri_state \<Rightarrow> 'o cri_state" where
  "cri_push_trailing trailing = (\<lambda>(r, out, count, errors).
     (if trailing \<noteq> [] then push_line_fragment r trailing else r, out, count, errors))"

definition process_cri_chunk_lines ::
  "memchr_ops \<Rightarrow> 'o line_processor \<Rightarrow> bytes \<Rightarrow> 'o cri_state \<Rightarrow> 'o cri_state" where
  "process_cri_chunk_lines mc process_line chunk st =
     (case cri_chunk_loop process_line chunk (memchr_iter mc NL chunk) 0 st of
        (line_start, st) \<Rightarrow> cri_push_trailing (drop line_start chunk) st)"

text \<open>The closure both entry points pass; they differ in how a message is emitted.\<close>

definition cri_message_line :: "('o \<Rightarrow> bytes \<Rightarrow> 'o) \<Rightarrow> 'o line_processor" where
  "cri_message_line emit line r out =
     (if line = [] then ((0, 0), r, out)
      else (case parse_cri_line line of
              Some cri \<Rightarrow>
                (case feed r (message cri) (is_full cri) of
                   (Complete msg, r) \<Rightarrow> ((1, 0), reset r, emit out msg)
                 | (Truncated msg, r) \<Rightarrow> ((1, 1), reset r, emit out msg)
                 | (Pending, r) \<Rightarrow> ((0, 0), r, out))
            | None \<Rightarrow> ((0, 1), r, out)))"

definition process_cri_chunk ::
  "memchr_ops \<Rightarrow> bytes \<Rightarrow> CriReassembler \<Rightarrow> ('o \<Rightarrow> bytes \<Rightarrow> 'o) \<Rightarrow> 'o \<Rightarrow> 'o cri_state" where
  "process_cri_chunk mc chunk r emit sink =
     process_cri_chunk_lines mc (cri_message_line emit) chunk (r, sink, 0, 0)"

definition process_cri_to_buf_with_plain_text_field ::
  "memchr_ops \<Rightarrow> bytes \<Rightarrow> CriReassembler \<Rightarrow> bytes \<Rightarrow> bytes \<Rightarrow> bytes cri_state" where
  "process_cri_to_buf_with_plain_text_field mc chunk r plain_text_field_name out =
     process_cri_chunk_lines mc
       (cri_message_line (\<lambda>out msg. write_json_line_for_plain_text_field msg plain_text_field_name out))
       chunk (r, out, 0, 0)"

definition process_cri_to_buf :: "memchr_ops \<Rightarrow> bytes \<Rightarrow> CriReassembler \<Rightarrow> bytes \<Rightarrow> bytes cri_state" where
  "process_cri_to_buf mc chunk r out =
     process_cri_to_buf_with_plain_text_field mc chunk r (bstr ''body'') out"

subsection \<open>The line format\<close>

lemma find_byte_first:
  assumes "c \<notin> set xs" and "i = length pre"
  shows "find_byte (pre @ xs @ c # ys) c i = Some (length pre + length xs)"
proof -
  have "xs ! k \<noteq> c" if "k < length xs" for k
    using assms(1) that by (metis nth_mem)
  then show ?thesis
    using assms(2) by (auto simp: find_byte_Some_iff nth_append)
qed

lemma find_byte_absent:
  assumes "c \<notin> set xs" and "i = length pre"
  shows "find_byte (pre @ xs) c i = None"
proof -
  have "xs ! k \<noteq> c" if "k < length xs" for k
    using assms(1) that by (metis nth_mem)
  then have "xs ! (k - length pre) \<noteq> c" if "length pre \<le> k" "k < length pre + length xs" for k
    using that by (simp add: less_diff_conv2)
  then show ?thesis
    using assms(2) by (auto simp: find_byte_None_iff nth_append)
qed

lemma find_byte_split:
  assumes "find_byte line c i = Some p"
  shows "drop i line = subslice line i p @ c # drop (Suc p) line \<and> c \<notin> set (subslice line i p)"
proof -
  from assms have p: "i \<le> p" "p < length line" "line ! p = c" and b: "\<forall>k. i \<le> k \<and> k < p \<longrightarrow> line ! k \<noteq> c"
    by (simp_all add: find_byte_Some_iff)
  then have "c \<notin> set (subslice line i p)" by (auto simp: in_set_slice)
  with p drop_split_at [of i p line] show ?thesis by simp
qed

definition cri_format :: "CriLine \<Rightarrow> bytes \<Rightarrow> bool" where
  "cri_format cri line \<longleftrightarrow>
     timestamp cri \<noteq> [] \<and> SP \<notin> set (timestamp cri) \<and>
     (stream cri = bstr ''stdout'' \<or> stream cri = bstr ''stderr'') \<and>
     (let header = timestamp cri @ SP # stream cri @ SP # (if is_full cri then bstr ''F'' else bstr ''P'')
      in line = header @ SP # message cri \<or> (line = header \<and> message cri = []))"

lemma SP_notin_tokens: "SP \<notin> set (bstr ''stdout'')" "SP \<notin> set (bstr ''stderr'')"
  "SP \<notin> set (bstr ''F'')" "SP \<notin> set (bstr ''P'')"
  by (simp_all add: bstr_def)

lemma bstr_tokens: "bstr ''stdout'' \<noteq> []" "bstr ''stderr'' \<noteq> []" "bstr ''P'' \<noteq> bstr ''F''" "length (bstr ''F'') = 1" "length (bstr ''P'') = 1"
  by (simp_all add: bstr_def)

lemma parse_cri_line_Some_iff:
  "parse_cri_line line = Some cri \<longleftrightarrow>
     (\<exists>sp1 sp2 fe ms.
        find_byte line SP 0 = Some sp1 \<and> sp1 \<noteq> 0 \<and> sp1 + 1 < length line \<and>
        find_byte line SP (sp1 + 1) = Some sp2 \<and> sp2 \<noteq> sp1 + 1 \<and> sp2 + 1 < length line \<and>
        (case find_byte line SP (sp2 + 1) of Some sp3 \<Rightarrow> (sp3, sp3 + 1) | None \<Rightarrow> (length line, length line)) = (fe, ms) \<and>
        (subslice line (sp1 + 1) sp2 = bstr ''stdout'' \<or> subslice line (sp1 + 1) sp2 = bstr ''stderr'') \<and>
        subslice line (sp2 + 1) fe = (if is_full cri then bstr ''F'' else bstr ''P'') \<and>
        timestamp cri = take sp1 line \<and> stream cri = subslice line (sp1 + 1) sp2 \<and> message cri = drop ms line)"
  (is "?l \<longleftrightarrow> ?r")
proof
  assume ?l
  then show ?r
    by (auto simp: parse_cri_line_def Let_def not_le bstr_tokens split: option.splits if_splits prod.splits)
next
  assume ?r
  then obtain sp1 sp2 fe ms where
    "find_byte line SP 0 = Some sp1" "sp1 \<noteq> 0" "sp1 + 1 < length line"
    "find_byte line SP (sp1 + 1) = Some sp2" "sp2 \<noteq> sp1 + 1" "sp2 + 1 < length line"
    "(case find_byte line SP (sp2 + 1) of Some sp3 \<Rightarrow> (sp3, sp3 + 1) | None \<Rightarrow> (length line, length line)) = (fe, ms)"
    "subslice line (sp1 + 1) sp2 = bstr ''stdout'' \<or> subslice line (sp1 + 1) sp2 = bstr ''stderr''"
    "subslice line (sp2 + 1) fe = (if is_full cri then bstr ''F'' else bstr ''P'')"
    "timestamp cri = take sp1 line" "stream cri = subslice line (sp1 + 1) sp2" "message cri = drop ms line"
    by blast
  then show ?l
    by (cases cri) (auto simp: parse_cri_line_def bstr_tokens)
qed


lemma cri_format_parse:
  assumes "cri_format cri line"
  shows "parse_cri_line line = Some cri"
proof -
  let ?ts = "timestamp cri" and ?st = "stream cri" and ?msg = "message cri"
  let ?fl = "if is_full cri then bstr ''F'' else bstr ''P''"
  have ts: "?ts \<noteq> []" "SP \<notin> set ?ts" and st: "?st = bstr ''stdout'' \<or> ?st = bstr ''stderr''"
    using assms by (simp_all add: cri_format_def)
  from assms obtain tail where line: "line = ?ts @ SP # ?st @ SP # ?fl @ tail"
    and tail: "tail = SP # ?msg \<or> (tail = [] \<and> ?msg = [])"
    by (auto simp: cri_format_def Let_def)
  have notin: "SP \<notin> set ?st" "SP \<notin> set ?fl" and len: "?st \<noteq> []" "length ?fl = 1"
    using st SP_notin_tokens bstr_tokens by auto
  let ?sp1 = "length ?ts" and ?sp2 = "length ?ts + 1 + length ?st"
  have 1: "find_byte line SP 0 = Some ?sp1"
    using find_byte_first [OF ts(2), of 0 "[]" "?st @ SP # ?fl @ tail"] by (simp add: line)
  have 2: "find_byte line SP (?sp1 + 1) = Some ?sp2"
    using find_byte_first [OF notin(1), of "?sp1 + 1" "?ts @ [SP]" "?fl @ tail"] by (simp add: line)
  have 3: "(case find_byte line SP (?sp2 + 1) of Some sp3 \<Rightarrow> (sp3, sp3 + 1) | None \<Rightarrow> (length line, length line)) =
      (?sp2 + 2, if tail = [] then length line else ?sp2 + 3)"
    using find_byte_first [OF notin(2), of "?sp2 + 1" "?ts @ SP # ?st @ [SP]" ?msg]
      find_byte_absent [OF notin(2), of "?sp2 + 1" "?ts @ SP # ?st @ [SP]"] tail len(2)
    by (cases "tail = []") (auto simp: line)
  have "subslice line (?sp1 + 1) ?sp2 = ?st" "subslice line (?sp2 + 1) (?sp2 + 2) = ?fl" "take ?sp1 line = ?ts"
    using len(2) by (simp_all add: subslice_def line)
  moreover have "drop (if tail = [] then length line else ?sp2 + 3) line = ?msg"
    using len(2) tail by (auto simp: numeral_eq_Suc line)
  moreover have "?sp1 + 1 < length line" "?sp2 + 1 < length line"
    using len(2) by (simp_all add: line)
  ultimately show ?thesis
    unfolding parse_cri_line_Some_iff using 1 2 3 ts(1) st len(1)
    by (intro exI [of _ ?sp1] exI [of _ ?sp2] exI [of _ "?sp2 + 2"] exI [of _ "if tail = [] then length line else ?sp2 + 3"])
      simp
qed

lemma parse_cri_format:
  assumes "parse_cri_line line = Some cri"
  shows "cri_format cri line"
proof -
  from assms obtain sp1 sp2 fe ms where
    1: "find_byte line SP 0 = Some sp1" "sp1 \<noteq> 0" "sp1 + 1 < length line" and
    2: "find_byte line SP (sp1 + 1) = Some sp2" and
    3: "(case find_byte line SP (sp2 + 1) of Some sp3 \<Rightarrow> (sp3, sp3 + 1) | None \<Rightarrow> (length line, length line)) = (fe, ms)" and
    4: "stream cri = bstr ''stdout'' \<or> stream cri = bstr ''stderr''"
      "subslice line (sp2 + 1) fe = (if is_full cri then bstr ''F'' else bstr ''P'')"
      "timestamp cri = take sp1 line" "stream cri = subslice line (sp1 + 1) sp2" "message cri = drop ms line"
    unfolding parse_cri_line_Some_iff by auto
  obtain rest1 rest2 where r: "rest1 = drop (sp1 + 1) line" "rest2 = drop (sp2 + 1) line" by blast
  have "line = timestamp cri @ SP # rest1" "SP \<notin> set (timestamp cri)"
    using find_byte_split [OF 1(1)] 4(3) by (simp_all add: slice_prefix r)
  moreover have "timestamp cri \<noteq> []"
    using 1(2,3) 4(3) by auto
  moreover have "rest1 = stream cri @ SP # rest2"
    using find_byte_split [OF 2] 4(4) by (simp add: r)
  moreover have "rest2 = subslice line (sp2 + 1) fe @ SP # message cri \<or>
      (rest2 = subslice line (sp2 + 1) fe \<and> message cri = [])"
    using 3 4(5) find_byte_split [of line SP "sp2 + 1"]
    by (auto simp: slice_to_end r split: option.splits)
  ultimately show ?thesis
    using 4(1,2) by (auto simp: cri_format_def)
qed

subsection \<open>Walking a chunk is a fold over its lines\<close>

lemma cri_chunk_loop_lines:
  "cri_chunk_loop pl (pre @ xs) (map (\<lambda>i. length pre + i) (byte_positions NL xs)) (length pre) st =
     (length (pre @ xs) - length (partial_line xs),
      foldl (\<lambda>st line. cri_chunk_step pl line st) st (complete_lines xs))"
proof (induction xs arbitrary: pre st rule: line_induct)
  case (partial_case r)
  then show ?case by (simp add: byte_positions_Nil line_simps)
next
  case (line_case l xs)
  have "subslice (pre @ l @ NL # xs) (length pre) (length pre + length l) = l"
    by (simp add: subslice_def)
  with line_case.IH [of "pre @ l @ [NL]"] line_case.hyps show ?case
    by (simp add: byte_positions_line line_simps comp_def add.assoc)
qed

definition with_fragment :: "bytes \<Rightarrow> 'o cri_state \<Rightarrow> 'o cri_state" where
  "with_fragment f = (\<lambda>(r, out, count, errors). (r\<lparr>line_fragment := f\<rparr>, out, count, errors))"

definition fragment_clear :: "'o cri_state \<Rightarrow> bool" where
  "fragment_clear st \<longleftrightarrow> line_fragment (fst st) = [] \<and> \<not> line_fragment_truncated (fst st)"

abbreviation fragment_limit :: "'o cri_state \<Rightarrow> nat" where
  "fragment_limit st \<equiv> raw_line_fragment_limit (fst st)"

lemma fragment_limit_eq: "max_message_size r = max_message_size r' \<Longrightarrow> raw_line_fragment_limit r = raw_line_fragment_limit r'"
  by (simp add: raw_line_fragment_limit_def)

lemma fragment_update_simps [simp]:
  "raw_line_fragment_limit (r\<lparr>line_fragment := f\<rparr>) = raw_line_fragment_limit r"
  "line_fragment r = f \<Longrightarrow> r\<lparr>line_fragment := f\<rparr> = r"
  "\<not> line_fragment_truncated r \<Longrightarrow> r\<lparr>line_fragment_truncated := False\<rparr> = r"
  by (simp_all add: raw_line_fragment_limit_def)

lemma with_fragment_clear: "fragment_clear st \<Longrightarrow> with_fragment [] st = st"
  by (cases st) (simp add: with_fragment_def fragment_clear_def)

lemma partial_line_prefix_short:
  assumes "NL \<notin> set p"
  shows "length p \<le> length (partial_line (p @ xs)) \<or> (\<exists>l\<in>set (complete_lines (p @ xs)). length p \<le> length l)"
proof (cases "NL \<in> set xs")
  case True
  then obtain l ys where "xs = l @ NL # ys" "NL \<notin> set l" by (meson split_list_first)
  with assms complete_lines_line [of "p @ l" ys] show ?thesis by simp
next
  case False
  with assms show ?thesis by (simp add: line_simps)
qed

locale cri_line_processor =
  fixes pl :: "'o line_processor"
  assumes keeps_fragment: "line_fragment r = [] \<Longrightarrow> \<not> line_fragment_truncated r \<Longrightarrow>
    pl line r out = (counts, r', out') \<Longrightarrow>
    line_fragment r' = [] \<and> \<not> line_fragment_truncated r' \<and> max_message_size r' = max_message_size r"
begin

lemma call_keeps:
  assumes "fragment_clear st"
  shows "fragment_clear (call_process_line pl line st)"
    and "fragment_limit (call_process_line pl line st) = fragment_limit st"
proof -
  obtain r out count errors where st: "st = (r, out, count, errors)" by (cases st)
  obtain c e r' out' where pl: "pl line r out = ((c, e), r', out')" by (metis prod.exhaust)
  have "line_fragment r' = [] \<and> \<not> line_fragment_truncated r' \<and> max_message_size r' = max_message_size r"
    using keeps_fragment [OF _ _ pl] assms by (simp add: fragment_clear_def st)
  then show "fragment_clear (call_process_line pl line st)"
    and "fragment_limit (call_process_line pl line st) = fragment_limit st"
    by (simp_all add: call_process_line_def fragment_clear_def raw_line_fragment_limit_def st pl)
qed

lemma calls_keep:
  assumes "fragment_clear st"
  shows "fragment_clear (foldl (\<lambda>st line. call_process_line pl line st) st ls)"
    and "fragment_limit (foldl (\<lambda>st line. call_process_line pl line st) st ls) = fragment_limit st"
  using assms by (induction ls arbitrary: st) (simp_all add: call_keeps)

lemma step_with_fragment:
  assumes "fragment_clear st" and "length (f @ line) \<le> fragment_limit st"
  shows "cri_chunk_step pl line (with_fragment f st) = call_process_line pl (f @ line) st"
proof (cases st)
  case (fields r out count errors)
  show ?thesis
  proof (cases "f = []")
    case True
    then show ?thesis
      using assms fields by (simp add: cri_chunk_step_def with_fragment_def fragment_clear_def has_line_fragment_def)
  next
    case False
    then show ?thesis
      using assms fields
      by (simp add: cri_chunk_step_def with_fragment_def fragment_clear_def has_line_fragment_def
          push_line_fragment_def take_line_fragment_def)
  qed
qed

lemma steps_are_calls:
  assumes "fragment_clear st" and "\<forall>l\<in>set ls. length l \<le> fragment_limit st"
  shows "foldl (\<lambda>st line. cri_chunk_step pl line st) st ls =
    foldl (\<lambda>st line. call_process_line pl line st) st ls"
  using assms
proof (induction ls arbitrary: st)
  case (Cons l ls)
  have "cri_chunk_step pl l st = call_process_line pl l st"
    using step_with_fragment [of st "[]" l] Cons.prems by (simp add: with_fragment_clear)
  with Cons show ?case by (simp add: call_keeps)
qed simp

lemma push_trailing:
  assumes "fragment_clear st" and "length (f @ bs) \<le> fragment_limit st"
  shows "cri_push_trailing bs (with_fragment f st) = with_fragment (f @ bs) st"
  using assms
  by (cases st) (simp add: cri_push_trailing_def with_fragment_def fragment_clear_def push_line_fragment_def)

end

locale cri_walk = memchr_crate mc + cri_line_processor pl
  for mc :: memchr_ops and pl :: "'o line_processor"
begin

lemma chunk_lines_walk:
  assumes clear: "fragment_clear st" and f: "NL \<notin> set f"
    and short: "\<forall>l\<in>set (complete_lines (f @ chunk)). length l \<le> fragment_limit st"
    and tail: "length (partial_line (f @ chunk)) \<le> fragment_limit st"
  shows "process_cri_chunk_lines mc pl chunk (with_fragment f st) =
    with_fragment (partial_line (f @ chunk))
      (foldl (\<lambda>st line. call_process_line pl line st) st (complete_lines (f @ chunk)))"
proof -
  let ?calls = "\<lambda>st ls. foldl (\<lambda>st line. call_process_line pl line st) st ls"
  have loop: "cri_chunk_loop pl chunk (memchr_iter mc NL chunk) 0 (with_fragment f st) =
      (length chunk - length (partial_line chunk),
       foldl (\<lambda>st line. cri_chunk_step pl line st) (with_fragment f st) (complete_lines chunk))"
    using cri_chunk_loop_lines [of pl "[]" chunk "with_fragment f st"] by (simp add: memchr_iter_all)
  have trailing: "drop (length chunk - length (partial_line chunk)) chunk = partial_line chunk"
    by (metis append_eq_conv_conj length_append add_diff_cancel_right' split_join)
  show ?thesis
  proof (cases "NL \<in> set chunk")
    case False
    then have *: "complete_lines chunk = []" "partial_line chunk = chunk"
      "complete_lines (f @ chunk) = []" "partial_line (f @ chunk) = f @ chunk"
      using f by (simp_all add: line_simps)
    with push_trailing [OF clear, of f chunk] tail show ?thesis
      by (simp add: process_cri_chunk_lines_def loop)
  next
    case True
    then obtain l xs where chunk: "chunk = l @ NL # xs" and l: "NL \<notin> set l"
      by (meson split_list_first)
    have lines: "complete_lines (f @ chunk) = (f @ l) # complete_lines xs"
      "partial_line (f @ chunk) = partial_line xs" "partial_line chunk = partial_line xs"
      "complete_lines chunk = l # complete_lines xs"
      using f l complete_lines_line [of "f @ l" xs] partial_line_line [of "f @ l" xs]
      by (simp_all add: chunk line_simps)
    have "foldl (\<lambda>st line. cri_chunk_step pl line st) (with_fragment f st) (complete_lines chunk) =
        ?calls (call_process_line pl (f @ l) st) (complete_lines xs)"
      using step_with_fragment [OF clear, of f l] steps_are_calls [of "call_process_line pl (f @ l) st"]
        short clear by (simp add: lines call_keeps)
    then have steps: "foldl (\<lambda>st line. cri_chunk_step pl line st) (with_fragment f st) (complete_lines chunk) =
        ?calls st (complete_lines (f @ chunk))"
      by (simp add: lines)
    have "fragment_clear (?calls st (complete_lines (f @ chunk)))"
      using clear by (rule calls_keep)
    with push_trailing [of "?calls st (complete_lines (f @ chunk))" "[]" "partial_line chunk"] tail clear
    show ?thesis
      using trailing
      by (simp add: process_cri_chunk_lines_def loop steps with_fragment_clear calls_keep(2) lines(2,3))
  qed
qed

lemma chunks_walk:
  assumes "fragment_clear st" and "NL \<notin> set f"
    and "\<forall>l\<in>set (complete_lines (f @ concat cs)). length l \<le> fragment_limit st"
    and "length (partial_line (f @ concat cs)) \<le> fragment_limit st"
  shows "foldl (\<lambda>st chunk. process_cri_chunk_lines mc pl chunk st) (with_fragment f st) cs =
    with_fragment (partial_line (f @ concat cs))
      (foldl (\<lambda>st line. call_process_line pl line st) st (complete_lines (f @ concat cs)))"
  using assms
proof (induction cs arbitrary: st f)
  case Nil
  then show ?case by (simp add: line_simps)
next
  case (Cons chunk cs)
  let ?p = "partial_line (f @ chunk)" and ?st = "foldl (\<lambda>st line. call_process_line pl line st) st (complete_lines (f @ chunk))"
  have split: "complete_lines (f @ chunk @ concat cs) = complete_lines (f @ chunk) @ complete_lines (?p @ concat cs)"
    "partial_line (f @ chunk @ concat cs) = partial_line (?p @ concat cs)"
    using split_append [of "f @ chunk" "concat cs"] by simp_all
  have "length ?p \<le> fragment_limit st"
    using Cons.prems(3,4) partial_line_prefix_short [of ?p "concat cs"] NL_notin_partial_line [of "f @ chunk"]
    by (auto simp: split intro: le_trans)
  with Cons.prems have "process_cri_chunk_lines mc pl chunk (with_fragment f st) = with_fragment ?p ?st"
    by (intro chunk_lines_walk) (simp_all add: split)
  moreover have "foldl (\<lambda>st chunk. process_cri_chunk_lines mc pl chunk st) (with_fragment ?p ?st) cs =
      with_fragment (partial_line (?p @ concat cs))
        (foldl (\<lambda>st line. call_process_line pl line st) ?st (complete_lines (?p @ concat cs)))"
    using Cons.prems by (intro Cons.IH) (simp_all add: calls_keep split NL_notin_partial_line)
  ultimately show ?case
    by (simp add: split)
qed

end

lemma feed_keeps_fragment:
  "feed r m full = (res, r') \<Longrightarrow> line_fragment r' = line_fragment r \<and>
     line_fragment_truncated r' = line_fragment_truncated r \<and> max_message_size r' = max_message_size r"
  by (auto simp: reassembler_ops split: if_splits)

lemma cri_message_line_processor: "cri_line_processor (cri_message_line emit)"
proof
  fix r line out counts r' out'
  assume "line_fragment r = []" "\<not> line_fragment_truncated r"
    "cri_message_line emit line r out = (counts, r', out')"
  then show "line_fragment r' = [] \<and> \<not> line_fragment_truncated r' \<and> max_message_size r' = max_message_size r"
    by (auto simp: cri_message_line_def reset_def dest!: feed_keeps_fragment
        split: if_splits option.splits prod.splits AggregateResult.splits)
qed

interpretation cri_messages: cri_walk own_search_ops "cri_message_line emit" for emit
  by (intro cri_walk.intro own_search.memchr_crate_axioms cri_message_line_processor)

definition count_lines :: "nat \<Rightarrow> nat \<Rightarrow> 'o cri_state \<Rightarrow> 'o cri_state" where
  "count_lines c e = (\<lambda>(r, out, count, errors). (r, out, c + count, e + errors))"

lemma count_lines_tuple [simp]: "count_lines c e (r, out, count, errors) = (r, out, c + count, e + errors)"
  by (simp add: count_lines_def)

lemma call_process_line_count: "call_process_line pl l (count_lines c e st) = count_lines c e (call_process_line pl l st)"
  by (cases st) (simp add: call_process_line_def count_lines_def split: prod.splits)

lemma cri_chunk_step_count: "cri_chunk_step pl l (count_lines c e st) = count_lines c e (cri_chunk_step pl l st)"
proof (cases st)
  case (fields r out count errors)
  have call: "call_process_line pl l (r, out, c + count, e + errors) = count_lines c e (call_process_line pl l (r, out, count, errors))" for l r out
    using call_process_line_count [of pl l c e "(r, out, count, errors)"] by simp
  show ?thesis
    by (simp add: cri_chunk_step_def fields Let_def call split: prod.splits)
qed

lemma cri_chunk_loop_count:
  "cri_chunk_loop pl chunk ps i (count_lines c e st) = map_prod id (count_lines c e) (cri_chunk_loop pl chunk ps i st)"
  by (induction ps arbitrary: i st) (simp_all add: cri_chunk_step_count)

lemma process_cri_chunk_lines_count:
  "process_cri_chunk_lines mc pl chunk (count_lines c e st) = count_lines c e (process_cri_chunk_lines mc pl chunk st)"
  by (cases "cri_chunk_loop pl chunk (memchr_iter mc NL chunk) 0 st")
    (simp add: process_cri_chunk_lines_def cri_chunk_loop_count cri_push_trailing_def)

subsection \<open>Chunking\<close>

text \<open>Feeding a stream chunk by chunk, as a reader does, with the per-chunk counts added up.\<close>

definition cri_feed_chunks ::
  "memchr_ops \<Rightarrow> bytes \<Rightarrow> bytes list \<Rightarrow> CriReassembler \<Rightarrow> bytes \<Rightarrow> bytes cri_state" where
  "cri_feed_chunks mc field chunks r out =
     foldl (\<lambda>(r, out, count, errors) chunk.
              count_lines count errors (process_cri_to_buf_with_plain_text_field mc chunk r field out))
       (r, out, 0, 0) chunks"

lemma cri_feed_chunks_walk:
  "cri_feed_chunks mc field chunks r out =
     foldl (\<lambda>st chunk. process_cri_chunk_lines mc
        (cri_message_line (\<lambda>out msg. write_json_line_for_plain_text_field msg field out)) chunk st)
       (r, out, 0, 0) chunks"
proof -
  have "count_lines c e (process_cri_to_buf_with_plain_text_field mc chunk r field out) =
      process_cri_chunk_lines mc
        (cri_message_line (\<lambda>out msg. write_json_line_for_plain_text_field msg field out)) chunk (r, out, c, e)"
    for c e chunk r out
    by (simp add: process_cri_to_buf_with_plain_text_field_def flip: process_cri_chunk_lines_count)
  then show ?thesis
    by (simp add: cri_feed_chunks_def case_prod_unfold)
qed

text \<open>
  Property C25. How a CRI stream is cut into read chunks does not matter: as long as no raw line
  exceeds the fragment limit, feeding any sequence of chunks gives the same output buffer, the
  same counts and the same reassembler state as feeding their concatenation at once.
\<close>

theorem cri_chunking_invariant:
  assumes "memchr_crate mc"
    and "line_fragment r = []" and "\<not> line_fragment_truncated r"
    and "\<forall>l\<in>set (partial_line (concat chunks) # complete_lines (concat chunks)).
      length l \<le> raw_line_fragment_limit r"
  shows "cri_feed_chunks mc field chunks r out =
    process_cri_to_buf_with_plain_text_field mc (concat chunks) r field out"
proof -
  let ?pl = "cri_message_line (\<lambda>out msg. write_json_line_for_plain_text_field msg field out)"
  have walk: "cri_walk mc ?pl"
    using assms(1) cri_message_line_processor by (rule cri_walk.intro)
  have clear: "fragment_clear (r, out, 0, 0)" and start: "with_fragment [] (r, out, 0, 0) = (r, out, 0, 0)"
    using assms(2,3) by (simp_all add: fragment_clear_def with_fragment_def)
  have "foldl (\<lambda>st chunk. process_cri_chunk_lines mc ?pl chunk st) (r, out, 0, 0) cs =
      with_fragment (partial_line (concat chunks))
        (foldl (\<lambda>st line. call_process_line ?pl line st) (r, out, 0, 0) (complete_lines (concat chunks)))"
    if "concat cs = concat chunks" for cs
    using cri_walk.chunks_walk [OF walk clear, of "[]" cs] assms(4) that by (simp add: start)
  from this [of chunks] this [of "[concat chunks]"] show ?thesis
    by (simp add: cri_feed_chunks_walk process_cri_to_buf_with_plain_text_field_def)
qed

theorem cri_chunking_invariant_witness:
  "cri_feed_chunks own_search_ops (bstr ''body'')
     [bstr ''t stdout P ab'', [NL], bstr ''t stdo'', bstr ''ut F cd'' @ [NL]] (reassembler_new 100) [] =
   (reassembler_new 100, bstr ''{\"body\":\"abcd\"}'' @ [NL], 1, 0)"
proof -
  let ?cs = "[bstr ''t stdout P ab'', [NL], bstr ''t stdo'', bstr ''ut F cd'' @ [NL]]"
  have "\<forall>l\<in>set (partial_line (concat ?cs) # complete_lines (concat ?cs)).
      length l \<le> raw_line_fragment_limit (reassembler_new 100)"
    by (simp add: complete_lines_def partial_line_def bstr_def raw_line_fragment_limit_def
        saturating_add_usize_def usize_max_def reassembler_new_def CRI_RAW_LINE_OVERHEAD_def)
  then have "cri_feed_chunks own_search_ops (bstr ''body'') ?cs (reassembler_new 100) [] =
      process_cri_to_buf_with_plain_text_field own_search_ops (concat ?cs) (reassembler_new 100) (bstr ''body'') []"
    by (intro cri_chunking_invariant own_search.memchr_crate_axioms) (simp_all add: reassembler_new_def)
  moreover have "process_cri_to_buf_with_plain_text_field own_search_ops (concat ?cs) (reassembler_new 100) (bstr ''body'') [] =
      (reassembler_new 100, bstr ''{\"body\":\"abcd\"}'' @ [NL], 1, 0)"
    by code_simp
  ultimately show ?thesis by simp
qed

subsection \<open>The NDJSON output\<close>

lemma json_escape_bytes_eq: "json_escape_bytes src dst = dst @ concat (map json_escape_byte src)"
  by (induction src dst rule: json_escape_bytes.induct) simp_all

lemma hex_digit_lower_not_NL: "hex_digit_lower (b AND 15) \<noteq> NL"
  by (rule nibble_check) code_simp

lemma NL_notin_json_escape_byte: "NL \<notin> set (json_escape_byte b)"
  using hex_digit_lower_not_NL by (auto simp: json_escape_byte_def)

lemma write_json_line_eq:
  "write_json_line_with_plain_text_field msg field out =
     out @ (if msg \<noteq> [] \<and> hd msg = LBRACE then msg
            else [LBRACE, QUOTE] @ concat (map json_escape_byte field) @ [QUOTE, COLON, QUOTE] @
                 concat (map json_escape_byte msg) @ [QUOTE, RBRACE]) @ [NL]"
  by (simp add: write_json_line_with_plain_text_field_def json_escape_bytes_eq Let_def)

lemma write_json_line_one_line:
  assumes "NL \<notin> set msg"
  shows "\<exists>l. NL \<notin> set l \<and> write_json_line_for_plain_text_field msg field out = out @ l @ [NL]"
  using assms NL_notin_json_escape_byte
  by (auto simp: write_json_line_for_plain_text_field_def write_json_line_def write_json_line_eq)

lemma parse_cri_line_message: "parse_cri_line line = Some cri \<Longrightarrow> set (message cri) \<subseteq> set line"
  by (auto simp: parse_cri_line_Some_iff dest: in_set_dropD)

lemma feed_bytes:
  assumes "feed r m full = (res, r')"
  shows "set (pending r') \<subseteq> set (pending r) \<union> set m \<and>
    (\<forall>msg. res = Complete msg \<or> res = Truncated msg \<longrightarrow> set msg \<subseteq> set (pending r) \<union> set m)"
  using assms by (auto simp: reassembler_ops dest: in_set_takeD split: if_splits)

text \<open>The output is the initial buffer plus one line per counted message.\<close>

definition ndjson_state :: "bytes \<Rightarrow> bytes cri_state \<Rightarrow> bool" where
  "ndjson_state out0 st = (case st of (r, out, count, errors) \<Rightarrow>
     NL \<notin> set (pending r) \<and> NL \<notin> set (line_fragment r) \<and>
     (\<exists>ls. out = out0 @ unlines_nl ls \<and> length ls = count \<and> (\<forall>l\<in>set ls. NL \<notin> set l)))"

abbreviation cri_to_buf_line :: "bytes \<Rightarrow> bytes line_processor" where
  "cri_to_buf_line field \<equiv> cri_message_line (\<lambda>out msg. write_json_line_for_plain_text_field msg field out)"

lemma ndjson_emit:
  assumes "ndjson_state out0 (r, out, count, errors)" and "NL \<notin> set msg"
  shows "ndjson_state out0 (reset r', write_json_line_for_plain_text_field msg field out, Suc count, errors')"
proof -
  obtain l where l: "NL \<notin> set l" "write_json_line_for_plain_text_field msg field out = out @ l @ [NL]"
    using write_json_line_one_line [OF assms(2)] by blast
  obtain ls where "out = out0 @ unlines_nl ls" "length ls = count" "\<forall>l\<in>set ls. NL \<notin> set l"
    using assms(1) by (auto simp: ndjson_state_def)
  with l show ?thesis
    by (auto simp: ndjson_state_def reset_def intro!: exI [of _ "ls @ [l]"])
qed

lemma ndjson_call:
  assumes st: "ndjson_state out0 (r, out, count, errors)" and line: "NL \<notin> set line"
  shows "ndjson_state out0 (call_process_line (cri_to_buf_line field) line (r, out, count, errors))"
proof (cases "line \<noteq> [] \<and> parse_cri_line line \<noteq> None")
  case False
  with st show ?thesis
    by (auto simp: call_process_line_def cri_message_line_def ndjson_state_def)
next
  case True
  then obtain cri where cri: "line \<noteq> []" "parse_cri_line line = Some cri" by blast
  obtain res r' where feed: "feed r (message cri) (is_full cri) = (res, r')" by fastforce
  have "NL \<notin> set (message cri)" "NL \<notin> set (pending r)"
    using parse_cri_line_message [OF cri(2)] line st by (auto simp: ndjson_state_def)
  with feed_bytes [OF feed] have bytes: "NL \<notin> set (pending r')"
    "res = Complete msg \<or> res = Truncated msg \<Longrightarrow> NL \<notin> set msg" for msg by blast+
  show ?thesis
  proof (cases res)
    case Pending
    with cri feed bytes st feed_keeps_fragment [OF feed] show ?thesis
      by (simp add: call_process_line_def cri_message_line_def ndjson_state_def)
  qed (use cri feed bytes st in \<open>simp_all add: call_process_line_def cri_message_line_def ndjson_emit\<close>)
qed

lemma push_line_fragment_bytes: "set (line_fragment (push_line_fragment r bs)) \<subseteq> set (line_fragment r) \<union> set bs"
  by (auto simp: push_line_fragment_def Let_def dest: in_set_takeD)

lemma push_line_fragment_pending [simp]: "pending (push_line_fragment r bs) = pending r"
  by (simp add: push_line_fragment_def Let_def)

lemma ndjson_step:
  assumes "ndjson_state out0 st" and "NL \<notin> set line"
  shows "ndjson_state out0 (cri_chunk_step (cri_to_buf_line field) line st)"
proof (cases st)
  case (fields r out count errors)
  let ?r = "push_line_fragment r line"
  have "NL \<notin> set (line_fragment ?r)"
    using assms push_line_fragment_bytes [of r line] by (auto simp: fields ndjson_state_def)
  with assms have "ndjson_state out0 (call_process_line (cri_to_buf_line field) (line_fragment ?r)
      (snd (take_line_fragment ?r), out, count, errors))"
    by (intro ndjson_call) (auto simp: fields ndjson_state_def take_line_fragment_def)
  moreover have "ndjson_state out0 (reset ?r, out, count, Suc errors)"
    using assms by (simp add: fields ndjson_state_def reset_def)
  ultimately show ?thesis
    using assms ndjson_call [of out0 r out count errors line field]
    by (simp add: cri_chunk_step_def fields Let_def take_line_fragment_def del: fragment_update_simps)
qed

lemma ndjson_steps:
  "ndjson_state out0 st \<Longrightarrow> \<forall>l\<in>set ls. NL \<notin> set l \<Longrightarrow>
   ndjson_state out0 (foldl (\<lambda>st line. cri_chunk_step (cri_to_buf_line field) line st) st ls)"
  by (induction ls arbitrary: st) (simp_all add: ndjson_step)

lemma ndjson_trailing:
  "ndjson_state out0 st \<Longrightarrow> NL \<notin> set bs \<Longrightarrow> ndjson_state out0 (cri_push_trailing bs st)"
  using push_line_fragment_bytes [of "fst st" bs]
  by (cases st) (auto simp: cri_push_trailing_def ndjson_state_def)

text \<open>
  Property C26. Whatever bytes a chunk holds, the NDJSON framing of the output is exact: processing
  appends precisely \<^verbatim>\<open>lines_ok\<close> newline-terminated lines, and no message can break a line in
  two, because newlines inside messages are escaped.
\<close>

theorem cri_output_ndjson:
  assumes "memchr_crate mc" and "NL \<notin> set (pending r)" and "NL \<notin> set (line_fragment r)"
    and "process_cri_to_buf_with_plain_text_field mc chunk r field out = (r', out', lines_ok, parse_errors)"
  shows "\<exists>ls. out' = out @ unlines_nl ls \<and> length ls = lines_ok \<and> (\<forall>l\<in>set ls. NL \<notin> set l)"
proof -
  let ?pl = "cri_to_buf_line field" and ?st = "(r, out, 0, 0) :: bytes cri_state"
  have loop: "cri_chunk_loop ?pl chunk (memchr_iter mc NL chunk) 0 ?st =
      (length chunk - length (partial_line chunk),
       foldl (\<lambda>st line. cri_chunk_step ?pl line st) ?st (complete_lines chunk))"
    using cri_chunk_loop_lines [of ?pl "[]" chunk ?st] memchr_crate.memchr_iter_all [OF assms(1)] by simp
  have "drop (length chunk - length (partial_line chunk)) chunk = partial_line chunk"
    by (metis append_eq_conv_conj length_append add_diff_cancel_right' split_join)
  moreover have "ndjson_state out ?st"
    using assms(2,3) by (simp add: ndjson_state_def)
  ultimately have "ndjson_state out (process_cri_chunk_lines mc ?pl chunk ?st)"
    by (simp add: process_cri_chunk_lines_def loop ndjson_trailing ndjson_steps
        NL_notin_complete_lines NL_notin_partial_line)
  with assms(4) show ?thesis
    by (simp add: process_cri_to_buf_with_plain_text_field_def ndjson_state_def)
qed

theorem cri_output_ndjson_witness:
  "\<exists>ls. bstr ''{\"body\":\"hi\"}'' @ [NL] = [] @ unlines_nl ls \<and> length ls = 1 \<and> (\<forall>l\<in>set ls. NL \<notin> set l)"
proof (rule cri_output_ndjson [OF own_search.memchr_crate_axioms])
  show "process_cri_to_buf_with_plain_text_field own_search_ops (bstr ''t stderr F hi'' @ [NL])
      (reassembler_new 10) (bstr ''body'') [] =
    (reassembler_new 10, bstr ''{\"body\":\"hi\"}'' @ [NL], 1, 0)"
    by code_simp
qed (simp_all add: reassembler_new_def)

text \<open>
  Property C27. The CRI line parser accepts exactly the documented format: a non-empty timestamp
  without spaces, the stream (\<^verbatim>\<open>stdout\<close> or \<^verbatim>\<open>stderr\<close>), the flag (\<^verbatim>\<open>F\<close> or \<^verbatim>\<open>P\<close>), and
  the rest of the line as the message, which may be absent altogether.
\<close>

theorem parse_cri_line_exact: "parse_cri_line line = Some cri \<longleftrightarrow> cri_format cri line"
  using cri_format_parse parse_cri_format by blast

end
