(* ===== verification/Structural.thy ===== *)
theory Structural
  imports Byte_Search
begin

text \<open>
  Structural character detection of \<^verbatim>\<open>ffwd-core/src/structural.rs\<close>: bit masks of the characters of
  a 64-byte block, the escape and string-interior computation on those masks, and the
  classifier that carries two words of state from block to block.

  The SIMD comparison comes from the \<^verbatim>\<open>wide\<close> crate, which is not part of the repository: it is
  the parameter \<open>simd_eq\<close> (one needle against 16 lanes), with its documented lane-wise meaning
  in the locale \<open>wide_crate\<close>. The reference for the masks is a byte-at-a-time automaton
  (\<open>esc_at\<close>, \<open>str_before\<close>).
\<close>

subsection \<open>Escape and string masks\<close>

text \<open>\<^verbatim>\<open>u64::trailing_zeros\<close>.\<close>

definition trailing_zeros :: "u64 \<Rightarrow> nat" where
  "trailing_zeros w = length (takeWhile (\<lambda>i. \<not> bit w i) [0..<64])"

lemma trailing_zeros_eq:
  assumes "w \<noteq> 0"
  shows "bit w (trailing_zeros w)" and "\<And>i. i < trailing_zeros w \<Longrightarrow> \<not> bit w i" and "trailing_zeros w < 64"
proof -
  obtain n where n: "bit w n" using assms by (auto simp: bit_eq_iff)
  then have n64: "n < 64" using bit_imp_le_length [of w n] by simp
  let ?xs = "takeWhile (\<lambda>i. \<not> bit w i) [0..<64]"
  have lt: "length ?xs < length [0..<64]"
  proof (rule ccontr)
    assume "\<not> ?thesis"
    then have "?xs = [0..<64]" by (metis length_takeWhile_le linorder_neqE_nat not_less takeWhile_eq_take take_all)
    then have "\<forall>i\<in>set [0..<64]. \<not> bit w i" by (metis set_takeWhileD)
    with n n64 show False by auto
  qed
  then show "trailing_zeros w < 64" by (simp add: trailing_zeros_def)
  show "bit w (trailing_zeros w)"
    using nth_length_takeWhile [OF lt] lt by (simp add: trailing_zeros_def)
  show "\<not> bit w i" if "i < trailing_zeros w" for i
    using that lt takeWhile_nth [of i "\<lambda>i. \<not> bit w i" "[0..<64]"] set_takeWhileD [of i "\<lambda>i. \<not> bit w i" "[0..<64]"]
    by (metis (no_types, lifting) add.left_neutral less_trans nth_mem nth_upt length_upt minus_nat.diff_0 trailing_zeros_def)
qed

lemma finite_bits: "finite {i. bit (w :: u64) i}"
  by (rule finite_subset [of _ "{..<64}"]) (auto dest: bit_imp_le_length)

lemma bits_shrink:
  "b \<noteq> 0 \<Longrightarrow> (\<And>i. bit b' i \<Longrightarrow> bit b i) \<Longrightarrow> \<not> bit b' (trailing_zeros b) \<Longrightarrow>
   card {i. bit b' i} < card {i. bit b i}"
  for b b' :: u64
  using trailing_zeros_eq(1) [of b] by (intro psubset_card_mono finite_bits) auto

text \<open>The loop over the backslash bits.\<close>

function escape_loop :: "u64 \<Rightarrow> u64 \<Rightarrow> u64" where
  "escape_loop b escaped =
     (if b = 0 then escaped
      else
        (let pos = trailing_zeros b;
             b = b AND NOT (push_bit pos 1);
             next_pos = pos + 1
         in if next_pos < 64
            then escape_loop (b AND NOT (push_bit next_pos 1)) (escaped OR push_bit next_pos 1)
            else escape_loop b escaped))"
  by pat_completeness auto
termination
  by (relation "measure (\<lambda>(b, escaped). card {i. bit b i})")
    (auto intro!: bits_shrink simp: bit_simps trailing_zeros_eq(3))

declare escape_loop.simps [simp del]

text \<open>The result and the new value of \<^verbatim>\<open>prev_odd_backslash\<close>.\<close>

definition compute_real_quotes :: "u64 \<Rightarrow> u64 \<Rightarrow> u64 \<Rightarrow> u64 \<times> u64" where
  "compute_real_quotes quote_bits bs_bits prev_odd_backslash =
     (if bs_bits = 0 \<and> prev_odd_backslash = 0 then (quote_bits, prev_odd_backslash)
      else
        (let escaped = 0;
             b = bs_bits;
             (escaped, b) = (if prev_odd_backslash \<noteq> 0 then (escaped OR 1, b AND NOT 1) else (escaped, b));
             escaped = escape_loop b escaped;
             last_is_bs = (drop_bit 63 bs_bits AND 1 = 1);
             last_is_escaped = (drop_bit 63 escaped AND 1 = 1)
         in (quote_bits AND NOT escaped, if last_is_bs \<and> \<not> last_is_escaped then 1 else 0)))"

definition prefix_xor :: "u64 \<Rightarrow> u64" where
  "prefix_xor bitmask =
     (let bitmask = bitmask XOR push_bit 1 bitmask;
          bitmask = bitmask XOR push_bit 2 bitmask;
          bitmask = bitmask XOR push_bit 4 bitmask;
          bitmask = bitmask XOR push_bit 8 bitmask;
          bitmask = bitmask XOR push_bit 16 bitmask;
          bitmask = bitmask XOR push_bit 32 bitmask
      in bitmask)"

subsection \<open>Blocks\<close>

record RawBlockMasks =
  raw_newline :: u64
  raw_space :: u64
  raw_quote :: u64
  raw_backslash :: u64
  raw_comma :: u64
  raw_colon :: u64
  raw_open_brace :: u64
  raw_close_brace :: u64
  raw_open_bracket :: u64
  raw_close_bracket :: u64

record ProcessedBlock =
  newline :: u64
  space :: u64
  real_quotes :: u64
  in_string :: u64
  comma :: u64
  colon :: u64
  open_brace :: u64
  close_brace :: u64
  open_bracket :: u64
  close_bracket :: u64

record StreamingClassifier =
  prev_odd_backslash :: u64
  prev_in_string :: u64

definition classifier_new :: StreamingClassifier where
  "classifier_new = \<lparr>prev_odd_backslash = 0, prev_in_string = 0\<rparr>"

definition process_block ::
  "StreamingClassifier \<Rightarrow> RawBlockMasks \<Rightarrow> nat \<Rightarrow> ProcessedBlock \<times> StreamingClassifier" where
  "process_block c raw block_len =
     (let (real_q, odd) = compute_real_quotes (raw_quote raw) (raw_backslash raw) (prev_odd_backslash c);
          raw_string_bits = prefix_xor real_q XOR prev_in_string c;
          c = \<lparr>prev_odd_backslash = odd,
               prev_in_string = (if drop_bit 63 raw_string_bits AND 1 = 1 then -1 else 0)\<rparr>;
          in_str = raw_string_bits AND NOT real_q;
          not_in_string = NOT in_str;
          m = (if 64 \<le> block_len then -1 else push_bit block_len 1 - 1)
      in (\<lparr>newline = raw_newline raw AND m,
           space = raw_space raw AND not_in_string AND m,
           real_quotes = real_q AND m,
           in_string = in_str AND m,
           comma = raw_comma raw AND not_in_string AND m,
           colon = raw_colon raw AND not_in_string AND m,
           open_brace = raw_open_brace raw AND not_in_string AND m,
           close_brace = raw_close_brace raw AND not_in_string AND m,
           open_bracket = raw_open_bracket raw AND not_in_string AND m,
           close_bracket = raw_close_bracket raw AND not_in_string AND m\<rparr>, c))"

definition classifier_reset :: "StreamingClassifier \<Rightarrow> StreamingClassifier" where
  "classifier_reset c = c\<lparr>prev_odd_backslash := 0, prev_in_string := 0\<rparr>"

subsection \<open>Character detection\<close>

definition no_masks :: RawBlockMasks where
  "no_masks = \<lparr>raw_newline = 0, raw_space = 0, raw_quote = 0, raw_backslash = 0, raw_comma = 0,
     raw_colon = 0, raw_open_brace = 0, raw_close_brace = 0, raw_open_bracket = 0,
     raw_close_bracket = 0\<rparr>"

definition scalar_step :: "RawBlockMasks \<Rightarrow> nat \<times> u8 \<Rightarrow> RawBlockMasks" where
  "scalar_step result = (\<lambda>(i, b).
     let m = push_bit i 1 in
     if b = NL then result\<lparr>raw_newline := raw_newline result OR m\<rparr>
     else if b = SP then result\<lparr>raw_space := raw_space result OR m\<rparr>
     else if b = QUOTE then result\<lparr>raw_quote := raw_quote result OR m\<rparr>
     else if b = BACKSLASH then result\<lparr>raw_backslash := raw_backslash result OR m\<rparr>
     else if b = COMMA then result\<lparr>raw_comma := raw_comma result OR m\<rparr>
     else if b = COLON then result\<lparr>raw_colon := raw_colon result OR m\<rparr>
     else if b = LBRACE then result\<lparr>raw_open_brace := raw_open_brace result OR m\<rparr>
     else if b = RBRACE then result\<lparr>raw_close_brace := raw_close_brace result OR m\<rparr>
     else if b = LBRACKET then result\<lparr>raw_open_bracket := raw_open_bracket result OR m\<rparr>
     else if b = RBRACKET then result\<lparr>raw_close_bracket := raw_close_bracket result OR m\<rparr>
     else result)"

definition find_structural_chars_scalar :: "bytes \<Rightarrow> RawBlockMasks" where
  "find_structural_chars_scalar block = foldl scalar_step no_masks (enumerate 0 block)"

definition find_char_mask :: "bytes \<Rightarrow> u8 \<Rightarrow> u64" where
  "find_char_mask block needle =
     foldl (\<lambda>m (i, b). if b = needle then m OR push_bit i 1 else m) 0 (enumerate 0 block)"

text \<open>One needle against 16 lanes: \<^verbatim>\<open>u8x16::new(c).simd_eq(splat(needle)).to_bitmask()\<close>.\<close>

type_synonym simd_eq = "bytes \<Rightarrow> u8 \<Rightarrow> u32"

definition cmp4 :: "simd_eq \<Rightarrow> bytes \<Rightarrow> bytes \<Rightarrow> bytes \<Rightarrow> bytes \<Rightarrow> u8 \<Rightarrow> u64" where
  "cmp4 simd c0 c1 c2 c3 needle =
     ucast (simd c0 needle) OR push_bit 16 (ucast (simd c1 needle)) OR
     push_bit 32 (ucast (simd c2 needle)) OR push_bit 48 (ucast (simd c3 needle))"

definition find_structural_chars :: "simd_eq \<Rightarrow> bytes \<Rightarrow> RawBlockMasks" where
  "find_structural_chars simd block =
     (let c0 = subslice block 0 16; c1 = subslice block 16 32;
          c2 = subslice block 32 48; c3 = subslice block 48 64;
          cmp = cmp4 simd c0 c1 c2 c3
      in \<lparr>raw_newline = cmp NL, raw_space = cmp SP, raw_quote = cmp QUOTE,
          raw_backslash = cmp BACKSLASH, raw_comma = cmp COMMA, raw_colon = cmp COLON,
          raw_open_brace = cmp LBRACE, raw_close_brace = cmp RBRACE,
          raw_open_bracket = cmp LBRACKET, raw_close_bracket = cmp RBRACKET\<rparr>)"

text \<open>The 16-lane comparison computed by the scalar loop.\<close>

definition scalar_simd_eq :: simd_eq where
  "scalar_simd_eq c needle = ucast (find_char_mask c needle)"

subsection \<open>The byte-at-a-time reference\<close>

text \<open>
  \<open>esc_at buf i\<close>: byte \<open>i\<close> follows an odd run of backslashes. \<open>str_before buf i\<close>: an odd number
  of unescaped quotes precedes byte \<open>i\<close>.
\<close>

fun esc_at :: "bytes \<Rightarrow> nat \<Rightarrow> bool" where
  "esc_at buf 0 = False"
| "esc_at buf (Suc i) = (buf ! i = BACKSLASH \<and> \<not> esc_at buf i)"

definition real_quote_at :: "bytes \<Rightarrow> nat \<Rightarrow> bool" where
  "real_quote_at buf i \<longleftrightarrow> buf ! i = QUOTE \<and> \<not> esc_at buf i"

fun str_before :: "bytes \<Rightarrow> nat \<Rightarrow> bool" where
  "str_before buf 0 = False"
| "str_before buf (Suc i) = (str_before buf i \<noteq> real_quote_at buf i)"

definition in_string_at :: "bytes \<Rightarrow> nat \<Rightarrow> bool" where
  "in_string_at buf i \<longleftrightarrow> str_before buf i \<and> \<not> real_quote_at buf i"

subsection \<open>The escape loop\<close>

text \<open>The escape automaton over a bit sequence.\<close>

fun esc_bits :: "bool \<Rightarrow> (nat \<Rightarrow> bool) \<Rightarrow> nat \<Rightarrow> bool" where
  "esc_bits e bs 0 = e"
| "esc_bits e bs (Suc i) = (bs i \<and> \<not> esc_bits e bs i)"

text \<open>The loop's state once the positions below \<open>f\<close> are settled.\<close>

definition escape_frontier :: "bool \<Rightarrow> u64 \<Rightarrow> nat \<Rightarrow> u64 \<Rightarrow> u64 \<Rightarrow> bool" where
  "escape_frontier e bs f b escaped \<longleftrightarrow>
     (\<forall>i<64. bit b i \<longleftrightarrow> f \<le> i \<and> bit bs i \<and> \<not> (i = f \<and> esc_bits e (bit bs) f)) \<and>
     (\<forall>i<64. bit escaped i \<longleftrightarrow> i \<le> f \<and> esc_bits e (bit bs) i)"

lemma escape_frontierD:
  assumes "escape_frontier e bs f b escaped" and "i < 64"
  shows "bit b i \<longleftrightarrow> f \<le> i \<and> bit bs i \<and> \<not> (i = f \<and> esc_bits e (bit bs) f)"
    and "bit escaped i \<longleftrightarrow> i \<le> f \<and> esc_bits e (bit bs) i"
  using assms by (auto simp: escape_frontier_def)

text \<open>Between the frontier and the next set bit nothing is escaped.\<close>

lemma escape_frontier_quiet:
  assumes fr: "escape_frontier e bs f b escaped" and clear: "\<And>i. i < n \<Longrightarrow> \<not> bit b i" and "n \<le> 64"
  shows "f < j \<Longrightarrow> j \<le> n \<Longrightarrow> \<not> esc_bits e (bit bs) j"
proof (induction j)
  case (Suc j)
  then have "j < 64" "\<not> bit b j" using clear [of j] \<open>n \<le> 64\<close> by auto
  with escape_frontierD(1) [OF fr, of j] Suc show ?case by (cases "j = f") auto
qed simp

lemma escape_frontier_done:
  assumes fr: "escape_frontier e bs f 0 escaped" and "i < 64"
  shows "bit escaped i \<longleftrightarrow> esc_bits e (bit bs) i"
  using escape_frontierD(2) [OF fr \<open>i < 64\<close>] escape_frontier_quiet [OF fr, of i i] \<open>i < 64\<close>
  by (cases "i \<le> f") auto

lemma escape_frontier_step:
  assumes fr: "escape_frontier e bs f b escaped" and b: "b \<noteq> 0" and pos: "pos = trailing_zeros b"
  shows "escape_frontier e bs (pos + 1) ((b AND NOT (push_bit pos 1)) AND NOT (push_bit (pos + 1) 1))
    (escaped OR push_bit (pos + 1) 1)"
proof -
  have p: "bit b pos" "\<And>i. i < pos \<Longrightarrow> \<not> bit b i" "pos < 64"
    using trailing_zeros_eq [OF b] by (simp_all add: pos)
  note at_pos = escape_frontierD(1) [OF fr p(3)]
  have f: "f \<le> pos" and bs: "bit bs pos" using at_pos p(1) by simp_all
  note quiet = escape_frontier_quiet [OF fr p(2) less_imp_le [OF p(3)]]
  have esc: "esc_bits e (bit bs) (Suc pos)"
    using at_pos p(1) f quiet [of pos] by (cases "pos = f") auto
  show ?thesis
    unfolding escape_frontier_def
  proof (intro conjI allI impI)
    fix i :: nat assume i: "i < 64"
    show "bit ((b AND NOT (push_bit pos 1)) AND NOT (push_bit (pos + 1) 1)) i \<longleftrightarrow>
        pos + 1 \<le> i \<and> bit bs i \<and> \<not> (i = pos + 1 \<and> esc_bits e (bit bs) (pos + 1))"
      using escape_frontierD(1) [OF fr i] p(2) [of i] f esc i
      by (cases i pos rule: linorder_cases) (auto simp: bit_simps)
    show "bit (escaped OR push_bit (pos + 1) 1) i \<longleftrightarrow> i \<le> pos + 1 \<and> esc_bits e (bit bs) i"
    proof (cases "i = Suc pos")
      case True
      with esc i show ?thesis by (simp add: bit_simps)
    next
      case False
      with escape_frontierD(2) [OF fr i] f quiet [of i] show ?thesis
        by (cases "i \<le> f") (auto simp: bit_simps le_Suc_eq)
    qed
  qed
qed

lemma escape_loop_0: "escape_loop 0 escaped = escaped"
  by (subst escape_loop.simps) simp

lemma escape_loop_step:
  assumes "b \<noteq> 0"
  shows "escape_loop b escaped =
    (if trailing_zeros b + 1 < 64
     then escape_loop ((b AND NOT (push_bit (trailing_zeros b) 1)) AND NOT (push_bit (trailing_zeros b + 1) 1))
       (escaped OR push_bit (trailing_zeros b + 1) 1)
     else escape_loop (b AND NOT (push_bit (trailing_zeros b) 1)) escaped)"
  by (subst escape_loop.simps) (simp only: assms Let_def if_False)

lemma escape_loop_bits:
  "escape_frontier e bs f b escaped \<Longrightarrow> i < 64 \<Longrightarrow>
   bit (escape_loop b escaped) i \<longleftrightarrow> esc_bits e (bit bs) i"
proof (induction b escaped arbitrary: f rule: escape_loop.induct)
  case (1 b escaped)
  show ?case
  proof (cases "b = 0")
    case True
    with 1 show ?thesis by (simp add: escape_loop_0 escape_frontier_done)
  next
    case False
    let ?pos = "trailing_zeros b"
    let ?b = "(b AND NOT (push_bit ?pos 1)) AND NOT (push_bit (?pos + 1) 1)"
    let ?e = "escaped OR push_bit (?pos + 1) 1"
    have fr: "escape_frontier e bs (?pos + 1) ?b ?e"
      using 1(3) False by (intro escape_frontier_step) auto
    show ?thesis
    proof (cases "?pos + 1 < 64")
      case True
      from 1(1) [OF False refl refl refl True fr \<open>i < 64\<close>] show ?thesis
        by (simp only: escape_loop_step [OF False] True if_True)
    next
      case last: False
      then have top: "?pos + 1 = 64" using trailing_zeros_eq(3) [OF False] by simp
      have "push_bit (?pos + 1) (1 :: u64) = 0"
        unfolding top by simp
      then have "escape_frontier e bs (?pos + 1) (b AND NOT (push_bit ?pos 1)) escaped"
        using fr by (simp only: bit.compl_zero and.right_neutral or.right_neutral)
      from 1(2) [OF False refl refl refl last this \<open>i < 64\<close>] show ?thesis
        by (simp only: escape_loop_step [OF False] last if_False)
    qed
  qed
qed

lemma compute_real_quotes_bits:
  assumes "compute_real_quotes q bs prev = (rq, prev')"
  shows "\<And>i. i < 64 \<Longrightarrow> bit rq i \<longleftrightarrow> bit q i \<and> \<not> esc_bits (prev \<noteq> 0) (bit bs) i"
    and "prev' \<noteq> 0 \<longleftrightarrow> esc_bits (prev \<noteq> 0) (bit bs) 64"
proof -
  let ?e = "prev \<noteq> 0"
  have goal: "(\<forall>i<64. bit rq i \<longleftrightarrow> bit q i \<and> \<not> esc_bits ?e (bit bs) i) \<and>
      (prev' \<noteq> 0 \<longleftrightarrow> esc_bits ?e (bit bs) 64)"
  proof (cases "bs = 0 \<and> prev = 0")
    case True
    have "\<not> esc_bits False (bit (0 :: u64)) i" for i by (cases i) simp_all
    with True assms show ?thesis by (auto simp: compute_real_quotes_def)
  next
    case False
    let ?b = "if ?e then bs AND NOT 1 else bs" and ?esc = "if ?e then 1 else 0"
    have "escape_frontier ?e bs 0 ?b ?esc"
      by (auto simp: escape_frontier_def bit_simps)
    then have bits: "i < 64 \<Longrightarrow> bit (escape_loop ?b ?esc) i \<longleftrightarrow> esc_bits ?e (bit bs) i" for i
      by (rule escape_loop_bits)
    have last: "drop_bit 63 w AND 1 = 1 \<longleftrightarrow> bit w 63" for w :: u64
      by (simp add: bit_iff_odd_drop_bit and_one_eq odd_iff_mod_2_eq_one)
    have "rq = q AND NOT (escape_loop ?b ?esc)"
      "prev' = (if bit bs 63 \<and> \<not> bit (escape_loop ?b ?esc) 63 then 1 else 0)"
      using assms False by (auto simp: compute_real_quotes_def last Let_def split: if_splits)
    with bits show ?thesis
      by (auto simp: bit_simps esc_bits.simps(2) [of _ _ 63, simplified])
  qed
  then show "\<And>i. i < 64 \<Longrightarrow> bit rq i \<longleftrightarrow> bit q i \<and> \<not> esc_bits ?e (bit bs) i"
    "prev' \<noteq> 0 \<longleftrightarrow> esc_bits ?e (bit bs) 64" by blast+
qed

subsection \<open>Prefix xor\<close>

text \<open>The parity of the \<open>n\<close> bits that end at position \<open>i\<close>.\<close>

fun window_parity :: "u64 \<Rightarrow> nat \<Rightarrow> nat \<Rightarrow> bool" where
  "window_parity w i 0 = False"
| "window_parity w i (Suc n) = (window_parity w i n \<noteq> (n \<le> i \<and> bit w (i - n)))"

lemma window_parity_add:
  "window_parity w i (m + n) \<longleftrightarrow> (window_parity w i m \<noteq> (m \<le> i \<and> window_parity w (i - m) n))"
  by (induction n) auto

lemma xor_shift_parity:
  fixes x :: u64
  assumes "\<And>i. i < 64 \<Longrightarrow> bit x i \<longleftrightarrow> window_parity w i k" and "i < 64"
  shows "bit (x XOR push_bit k x) i \<longleftrightarrow> window_parity w i (k + k)"
  using assms(1) [OF \<open>i < 64\<close>] assms(1) [of "i - k"] \<open>i < 64\<close>
  by (auto simp: bit_simps window_parity_add)

lemma window_parity_all:
  "window_parity w (Suc i) (Suc (Suc i)) \<longleftrightarrow> (window_parity w i (Suc i) \<noteq> bit w (Suc i))"
  using window_parity_add [of w "Suc i" 1 "Suc i"] by auto

lemma window_parity_saturates: "window_parity w i (Suc i + n) = window_parity w i (Suc i)"
  by (induction n) auto

lemma prefix_xor_bits:
  assumes "i < 64"
  shows "bit (prefix_xor w) i \<longleftrightarrow> window_parity w i (Suc i)"
proof -
  define x1 where "x1 = w XOR push_bit 1 w"
  define x2 where "x2 = x1 XOR push_bit 2 x1"
  define x3 where "x3 = x2 XOR push_bit 4 x2"
  define x4 where "x4 = x3 XOR push_bit 8 x3"
  define x5 where "x5 = x4 XOR push_bit 16 x4"
  define x6 where "x6 = x5 XOR push_bit 32 x5"
  have 1: "bit x1 i \<longleftrightarrow> window_parity w i 2" if "i < 64" for i
    using xor_shift_parity [of w w 1 i] that by (simp add: x1_def numeral_2_eq_2)
  have 2: "bit x2 i \<longleftrightarrow> window_parity w i 4" if "i < 64" for i
    using xor_shift_parity [OF 1 that] by (simp add: x2_def)
  have 3: "bit x3 i \<longleftrightarrow> window_parity w i 8" if "i < 64" for i
    using xor_shift_parity [OF 2 that] by (simp add: x3_def)
  have 4: "bit x4 i \<longleftrightarrow> window_parity w i 16" if "i < 64" for i
    using xor_shift_parity [OF 3 that] by (simp add: x4_def)
  have 5: "bit x5 i \<longleftrightarrow> window_parity w i 32" if "i < 64" for i
    using xor_shift_parity [OF 4 that] by (simp add: x5_def)
  have 6: "bit x6 i \<longleftrightarrow> window_parity w i 64" if "i < 64" for i
    using xor_shift_parity [OF 5 that] by (simp add: x6_def)
  have "bit (prefix_xor w) i \<longleftrightarrow> window_parity w i 64"
    using 6 [OF assms] unfolding prefix_xor_def Let_def x6_def x5_def x4_def x3_def x2_def x1_def .
  also have "\<dots> \<longleftrightarrow> window_parity w i (Suc i)"
    using window_parity_saturates [of w i "63 - i"] assms by simp
  finally show ?thesis .
qed

subsection \<open>Character masks\<close>

lemma find_char_mask_bits: "bit (find_char_mask block c) i \<longleftrightarrow> i < 64 \<and> i < length block \<and> block ! i = c"
proof (induction block rule: rev_induct)
  case (snoc b bs)
  then show ?case
    by (cases i "length bs" rule: linorder_cases)
      (auto simp: find_char_mask_def enumerate_append_eq nth_append bit_simps)
qed (simp add: find_char_mask_def)

lemma scalar_component:
  assumes "\<And>m i b. sel (scalar_step m (i, b)) = (if b = c then sel m OR push_bit i 1 else sel m)"
    and "sel no_masks = 0"
  shows "sel (find_structural_chars_scalar block) = find_char_mask block c"
  by (induction block rule: rev_induct)
    (simp_all add: find_structural_chars_scalar_def find_char_mask_def enumerate_append_eq assms)

lemma scalar_masks:
  "find_structural_chars_scalar block =
     \<lparr>raw_newline = find_char_mask block NL, raw_space = find_char_mask block SP,
      raw_quote = find_char_mask block QUOTE, raw_backslash = find_char_mask block BACKSLASH,
      raw_comma = find_char_mask block COMMA, raw_colon = find_char_mask block COLON,
      raw_open_brace = find_char_mask block LBRACE, raw_close_brace = find_char_mask block RBRACE,
      raw_open_bracket = find_char_mask block LBRACKET, raw_close_bracket = find_char_mask block RBRACKET\<rparr>"
  by (intro RawBlockMasks.equality; (simp, rule scalar_component)?)
    (simp_all add: scalar_step_def no_masks_def Let_def)

locale wide_crate =
  fixes simd :: simd_eq
  assumes simd_lanes: "length c = 16 \<Longrightarrow> bit (simd c n) i \<longleftrightarrow> i < 16 \<and> c ! i = n"
begin

lemma cmp4_mask:
  assumes "length block = 64"
  shows "cmp4 simd (subslice block 0 16) (subslice block 16 32) (subslice block 32 48) (subslice block 48 64) c =
    find_char_mask block c"
proof (rule bit_word_eqI)
  fix i assume "i < LENGTH(64)"
  then consider "i < 16" | "16 \<le> i" "i < 32" | "32 \<le> i" "i < 48" | "48 \<le> i" "i < 64"
    by force
  then show "bit (cmp4 simd (subslice block 0 16) (subslice block 16 32) (subslice block 32 48)
      (subslice block 48 64) c) i \<longleftrightarrow> bit (find_char_mask block c) i"
    using assms by cases (auto simp: cmp4_def bit_simps simd_lanes find_char_mask_bits)
qed

lemma find_structural_chars_masks:
  assumes "length block = 64"
  shows "find_structural_chars simd block = find_structural_chars_scalar block"
  by (simp add: find_structural_chars_def scalar_masks cmp4_mask [OF assms] Let_def)

end

interpretation scalar_wide: wide_crate scalar_simd_eq
  by unfold_locales (auto simp: scalar_simd_eq_def bit_simps find_char_mask_bits)

text \<open>
  Property C29. The SIMD detector equals the scalar specification: for every 64-byte block the
  ten bit masks computed with 16-lane comparisons are those of the byte loop, given only the
  lane-wise meaning of the SIMD comparison.
\<close>

theorem simd_equals_scalar:
  assumes "wide_crate simd" and "length block = 64"
  shows "find_structural_chars simd block = find_structural_chars_scalar block"
  using wide_crate.find_structural_chars_masks [OF assms] .

theorem simd_equals_scalar_witness:
  "find_structural_chars scalar_simd_eq (replicate 62 SP @ [QUOTE, LBRACE]) =
     find_structural_chars_scalar (replicate 62 SP @ [QUOTE, LBRACE])"
  by (rule simd_equals_scalar) (simp_all add: scalar_wide.wide_crate_axioms)

subsection \<open>Blocks of a buffer\<close>

text \<open>
  The 64-byte block at index \<open>idx\<close>, the last one padded with spaces, as both users of the
  classifier build it.
\<close>

definition buffer_block :: "bytes \<Rightarrow> nat \<Rightarrow> bytes" where
  "buffer_block buf idx =
     (let offset = idx * 64; remaining = length buf - offset
      in if 64 \<le> remaining then subslice buf offset (offset + 64)
         else drop offset buf @ replicate (64 - remaining) SP)"

text \<open>What the masks of a block mean at offset \<open>off\<close> of the bytes \<open>p\<close>.\<close>

definition block_masks :: "bytes \<Rightarrow> nat \<Rightarrow> nat \<Rightarrow> ProcessedBlock \<Rightarrow> bool" where
  "block_masks p off n pb \<longleftrightarrow> (\<forall>i<64.
     (bit (newline pb) i \<longleftrightarrow> i < n \<and> p ! (off + i) = NL) \<and>
     (bit (real_quotes pb) i \<longleftrightarrow> i < n \<and> real_quote_at p (off + i)) \<and>
     (bit (in_string pb) i \<longleftrightarrow> i < n \<and> in_string_at p (off + i)) \<and>
     (bit (space pb) i \<longleftrightarrow> i < n \<and> p ! (off + i) = SP \<and> \<not> in_string_at p (off + i)) \<and>
     (bit (comma pb) i \<longleftrightarrow> i < n \<and> p ! (off + i) = COMMA \<and> \<not> in_string_at p (off + i)) \<and>
     (bit (colon pb) i \<longleftrightarrow> i < n \<and> p ! (off + i) = COLON \<and> \<not> in_string_at p (off + i)) \<and>
     (bit (open_brace pb) i \<longleftrightarrow> i < n \<and> p ! (off + i) = LBRACE \<and> \<not> in_string_at p (off + i)) \<and>
     (bit (close_brace pb) i \<longleftrightarrow> i < n \<and> p ! (off + i) = RBRACE \<and> \<not> in_string_at p (off + i)) \<and>
     (bit (open_bracket pb) i \<longleftrightarrow> i < n \<and> p ! (off + i) = LBRACKET \<and> \<not> in_string_at p (off + i)) \<and>
     (bit (close_bracket pb) i \<longleftrightarrow> i < n \<and> p ! (off + i) = RBRACKET \<and> \<not> in_string_at p (off + i)))"

text \<open>The carried state before position \<open>off\<close>.\<close>

definition classifier_at :: "bytes \<Rightarrow> nat \<Rightarrow> StreamingClassifier \<Rightarrow> bool" where
  "classifier_at p off c \<longleftrightarrow>
     (prev_odd_backslash c \<noteq> 0 \<longleftrightarrow> esc_at p off) \<and>
     prev_in_string c = (if str_before p off then -1 else 0)"

lemma esc_bits_esc_at:
  assumes "\<And>i. i < 64 \<Longrightarrow> bs i \<longleftrightarrow> p ! (off + i) = BACKSLASH"
  shows "j \<le> 64 \<Longrightarrow> esc_bits (esc_at p off) bs j = esc_at p (off + j)"
  by (induction j) (auto simp: assms)

lemma window_parity_str_before:
  assumes "\<And>i. i < 64 \<Longrightarrow> bit rq i \<longleftrightarrow> real_quote_at p (off + i)"
  shows "i < 64 \<Longrightarrow> (window_parity rq i (Suc i) \<noteq> str_before p off) = str_before p (off + Suc i)"
proof (induction i)
  case 0
  then show ?case by (auto simp: assms)
next
  case (Suc i)
  have "window_parity rq (Suc i) (Suc (Suc i)) \<longleftrightarrow> (window_parity rq i (Suc i) \<noteq> real_quote_at p (off + Suc i))"
    using window_parity_all [of rq i] assms [OF Suc.prems] by simp
  moreover have "(window_parity rq i (Suc i) \<noteq> str_before p off) = str_before p (off + Suc i)"
    using Suc by simp
  moreover have "str_before p (off + Suc (Suc i)) = (str_before p (off + Suc i) \<noteq> real_quote_at p (off + Suc i))"
    by simp
  ultimately show ?case by metis
qed

lemma block_len_mask_bits:
  "bit (if 64 \<le> n then -1 else push_bit n 1 - 1 :: u64) i \<longleftrightarrow> i < 64 \<and> i < n"
proof (cases "64 \<le> n")
  case False
  have "push_bit n 1 - 1 = (mask n :: u64)" by (simp add: mask_eq_exp_minus_1 push_bit_of_1)
  with False show ?thesis by (auto simp: bit_mask_iff)
qed (auto simp: bit_simps)

lemma process_block_correct:
  assumes c: "classifier_at p off c" and blk: "length blk = 64"
    and same: "\<And>i. i < 64 \<Longrightarrow> blk ! i = p ! (off + i)"
    and pb: "process_block c (find_structural_chars_scalar blk) n = (pb, c')"
  shows "block_masks p off n pb" and "classifier_at p (off + 64) c'"
proof -
  obtain rq odd where q: "compute_real_quotes (find_char_mask blk QUOTE) (find_char_mask blk BACKSLASH)
      (prev_odd_backslash c) = (rq, odd)" by fastforce
  have masks: "i < 64 \<Longrightarrow> bit (find_char_mask blk ch) i \<longleftrightarrow> p ! (off + i) = ch" for i ch
    using blk same by (simp add: find_char_mask_bits)
  have "prev_odd_backslash c \<noteq> 0 \<longleftrightarrow> esc_at p off" using c by (simp add: classifier_at_def)
  then have esc: "j \<le> 64 \<Longrightarrow> esc_bits (prev_odd_backslash c \<noteq> 0) (bit (find_char_mask blk BACKSLASH)) j = esc_at p (off + j)" for j
    using esc_bits_esc_at [of "bit (find_char_mask blk BACKSLASH)" p off j] masks by simp
  have rq: "i < 64 \<Longrightarrow> bit rq i \<longleftrightarrow> real_quote_at p (off + i)" for i
    using compute_real_quotes_bits(1) [OF q, of i] esc [of i] masks by (simp add: real_quote_at_def)
  have odd: "odd \<noteq> 0 \<longleftrightarrow> esc_at p (off + 64)"
    using compute_real_quotes_bits(2) [OF q] esc [of 64] by simp
  have str: "i < 64 \<Longrightarrow> bit (prefix_xor rq XOR prev_in_string c) i \<longleftrightarrow> str_before p (off + Suc i)" for i
    using prefix_xor_bits [of i rq] window_parity_str_before [OF rq, of i] c
    by (auto simp: bit_simps classifier_at_def)
  define w where "w = (prefix_xor rq XOR prev_in_string c) AND NOT rq"
  define m where "m = (if 64 \<le> n then -1 else push_bit n 1 - 1 :: u64)"
  have ins: "i < 64 \<Longrightarrow> bit w i \<longleftrightarrow> in_string_at p (off + i)" for i
    using str [of i] rq [of i] by (auto simp: w_def bit_and_iff bit_not_iff in_string_at_def)
  have len: "i < 64 \<Longrightarrow> bit m i \<longleftrightarrow> i < n" for i
    using block_len_mask_bits [of n i] by (simp add: m_def)
  have "pb = \<lparr>newline = find_char_mask blk NL AND m, space = find_char_mask blk SP AND NOT w AND m,
      real_quotes = rq AND m, in_string = w AND m,
      comma = find_char_mask blk COMMA AND NOT w AND m, colon = find_char_mask blk COLON AND NOT w AND m,
      open_brace = find_char_mask blk LBRACE AND NOT w AND m, close_brace = find_char_mask blk RBRACE AND NOT w AND m,
      open_bracket = find_char_mask blk LBRACKET AND NOT w AND m,
      close_bracket = find_char_mask blk RBRACKET AND NOT w AND m\<rparr>"
    using pb unfolding process_block_def scalar_masks Let_def w_def m_def by (simp add: q)
  then show "block_masks p off n pb"
    by (simp add: block_masks_def bit_and_iff bit_not_iff masks rq ins len conj_comms)
  have "drop_bit 63 (prefix_xor rq XOR prev_in_string c) AND 1 = 1 \<longleftrightarrow> str_before p (off + 64)"
    using str [of 63] by (simp add: bit_iff_odd_drop_bit and_one_eq odd_iff_mod_2_eq_one)
  then show "classifier_at p (off + 64) c'"
    using pb odd by (auto simp: process_block_def scalar_masks q classifier_at_def Let_def)
qed

subsection \<open>Streaming over a buffer\<close>

text \<open>
  The loop over the blocks of a buffer: each block is detected, then processed with the carried
  state (\<^verbatim>\<open>StreamingClassifier\<close>'s documented use).
\<close>

fun classify_blocks :: "simd_eq \<Rightarrow> bytes \<Rightarrow> nat \<Rightarrow> nat \<Rightarrow> StreamingClassifier \<Rightarrow> ProcessedBlock list" where
  "classify_blocks simd buf idx 0 c = []"
| "classify_blocks simd buf idx (Suc n) c =
     (case process_block c (find_structural_chars simd (buffer_block buf idx))
             (min (length buf - idx * 64) 64) of
        (pb, c') \<Rightarrow> pb # classify_blocks simd buf (Suc idx) n c')"

definition num_blocks :: "bytes \<Rightarrow> nat" where
  "num_blocks buf = (length buf + 63) div 64"

definition pad_buffer :: "bytes \<Rightarrow> bytes" where
  "pad_buffer buf = buf @ replicate 64 SP"

lemma num_blocks_iff: "idx < num_blocks buf \<longleftrightarrow> idx * 64 < length buf"
  by (auto simp: num_blocks_def)

lemma buffer_block_bytes:
  assumes "idx * 64 < length buf"
  shows "length (buffer_block buf idx) = 64"
    and "i < 64 \<Longrightarrow> buffer_block buf idx ! i = pad_buffer buf ! (idx * 64 + i)"
  using assms by (auto simp: buffer_block_def pad_buffer_def Let_def nth_append)

lemma esc_at_pad: "i \<le> length buf \<Longrightarrow> esc_at (pad_buffer buf) i = esc_at buf i"
  by (induction i) (auto simp: pad_buffer_def nth_append)

lemma real_quote_at_pad: "i < length buf \<Longrightarrow> real_quote_at (pad_buffer buf) i = real_quote_at buf i"
  by (simp add: real_quote_at_def esc_at_pad) (simp add: pad_buffer_def nth_append)

lemma str_before_pad: "i \<le> length buf \<Longrightarrow> str_before (pad_buffer buf) i = str_before buf i"
  by (induction i) (auto simp: real_quote_at_pad)

lemma in_string_at_pad: "i < length buf \<Longrightarrow> in_string_at (pad_buffer buf) i = in_string_at buf i"
  by (simp add: in_string_at_def str_before_pad real_quote_at_pad)

lemma block_masks_pad:
  assumes "off + n \<le> length buf"
  shows "block_masks (pad_buffer buf) off n pb = block_masks buf off n pb"
proof -
  have "i < n \<Longrightarrow> pad_buffer buf ! (off + i) = buf ! (off + i)" for i
    using assms by (simp add: pad_buffer_def nth_append)
  moreover have "i < n \<Longrightarrow> in_string_at (pad_buffer buf) (off + i) = in_string_at buf (off + i)"
    "i < n \<Longrightarrow> real_quote_at (pad_buffer buf) (off + i) = real_quote_at buf (off + i)" for i
    using assms by (simp_all add: in_string_at_pad real_quote_at_pad)
  ultimately show ?thesis
    unfolding block_masks_def by (simp cong: conj_cong)
qed

lemma classifier_at_new: "classifier_at p 0 classifier_new"
  by (simp add: classifier_at_def classifier_new_def)

context wide_crate
begin

lemma buffer_block_step:
  assumes idx: "idx * 64 < length buf" and c: "classifier_at (pad_buffer buf) (idx * 64) c"
    and pb: "process_block c (find_structural_chars simd (buffer_block buf idx)) (min (length buf - idx * 64) 64) = (pb, c')"
  shows "block_masks buf (idx * 64) (min (length buf - idx * 64) 64) pb"
    and "classifier_at (pad_buffer buf) (Suc idx * 64) c'"
proof -
  note blk = buffer_block_bytes [OF idx]
  from pb have pb': "process_block c (find_structural_chars_scalar (buffer_block buf idx))
      (min (length buf - idx * 64) 64) = (pb, c')"
    by (simp add: find_structural_chars_masks [OF blk(1)])
  note * = process_block_correct [OF c blk(1) blk(2) pb']
  show "block_masks buf (idx * 64) (min (length buf - idx * 64) 64) pb"
    using *(1) idx by (simp add: block_masks_pad)
  show "classifier_at (pad_buffer buf) (Suc idx * 64) c'"
    using *(2) by (simp add: add.commute)
qed

lemma classify_blocks_masks:
  assumes "classifier_at (pad_buffer buf) (idx * 64) c" and "idx + n \<le> num_blocks buf" and "k < n"
  shows "block_masks buf ((idx + k) * 64) (min (length buf - (idx + k) * 64) 64)
    (classify_blocks simd buf idx n c ! k)"
  using assms
proof (induction n arbitrary: idx c k)
  case (Suc n)
  obtain pb c' where pb: "process_block c (find_structural_chars simd (buffer_block buf idx))
      (min (length buf - idx * 64) 64) = (pb, c')" by fastforce
  have idx: "idx * 64 < length buf"
    using Suc.prems(2) num_blocks_iff [of idx buf] by simp
  note step = buffer_block_step [OF idx Suc.prems(1) pb]
  show ?case
  proof (cases k)
    case 0
    with step(1) show ?thesis by (simp add: pb)
  next
    case (Suc j)
    with Suc.IH [OF step(2), of j] Suc.prems show ?thesis by (simp add: pb)
  qed
qed simp

end

lemma length_classify_blocks [simp]: "length (classify_blocks simd buf idx n c) = n"
  by (induction n arbitrary: idx c) (simp_all split: prod.splits)

text \<open>
  Property C28. Streaming classification is correct for buffers of any length: every bit of every
  block mask, computed 64 bytes at a time with two words of carried state, says exactly what the
  byte-at-a-time automaton says of that byte of the buffer: unescaped quote, string interior,
  structural character outside strings, or newline; no bit is set past the end of the buffer.
\<close>

theorem classification_correct:
  assumes "wide_crate simd" and "idx < num_blocks buf"
  shows "block_masks buf (idx * 64) (min (length buf - idx * 64) 64)
    (classify_blocks simd buf 0 (num_blocks buf) classifier_new ! idx)"
  using wide_crate.classify_blocks_masks [OF assms(1), of buf 0 classifier_new "num_blocks buf" idx] assms(2)
  by (simp add: classifier_at_new)

theorem classification_correct_witness:
  "block_masks (bstr ''{\"k\":1}'') 0 7
     (classify_blocks scalar_simd_eq (bstr ''{\"k\":1}'') 0 (num_blocks (bstr ''{\"k\":1}'')) classifier_new ! 0)"
proof -
  let ?buf = "bstr ''{\"k\":1}''"
  have "0 < num_blocks ?buf" and len: "min (length ?buf - 0 * 64) 64 = 7"
    by (simp_all add: num_blocks_def bstr_def)
  from classification_correct [OF scalar_wide.wide_crate_axioms this(1)] show ?thesis
    unfolding len by simp
qed

end
