(* ===== verification/Structural_Iter.thy ===== *)
theory Structural_Iter
  imports Structural
begin

text \<open>
  The streaming iterator over structural positions of \<^verbatim>\<open>ffwd-core/src/structural_iter.rs\<close>. It loads
  one block at a time through the classifier and yields its structural bits lowest first. The
  main result says that draining it lists exactly the structural characters of the buffer.
\<close>

subsection \<open>Clearing the lowest bit\<close>

text \<open>\<^verbatim>\<open>w & (w - 1)\<close>.\<close>

definition clear_lowest :: "u64 \<Rightarrow> u64" where
  "clear_lowest w = w AND (w - 1)"

lemma clear_lowest_bits:
  assumes "w \<noteq> 0"
  shows "bit (clear_lowest w) i \<longleftrightarrow> bit w i \<and> i \<noteq> trailing_zeros w"
proof -
  let ?p = "trailing_zeros w"
  define a where "a = w AND NOT (push_bit ?p 1)"
  note tz = trailing_zeros_eq [OF assms]
  have a: "bit a j \<longleftrightarrow> bit w j \<and> j \<noteq> ?p" for j
    using tz(1,3) by (auto simp: a_def bit_simps dest: bit_imp_le_length)
  have low: "j \<le> ?p \<Longrightarrow> \<not> bit a j" for j
    using a tz(2) [of j] by (auto simp: le_less)
  have "w = a OR push_bit ?p 1"
    using a tz(1,3) by (auto simp: bit_eq_iff [of w] bit_simps dest: bit_imp_le_length)
  also have "\<dots> = a + push_bit ?p 1"
    using a by (intro disjunctive_add_eq_or [symmetric]) (auto simp: bit_eq_iff bit_simps)
  finally have w: "w = a + push_bit ?p 1" .
  have "push_bit ?p 1 - 1 = (mask ?p :: u64)"
    by (simp add: mask_eq_exp_minus_1 push_bit_of_1)
  then have "w - 1 = a + mask ?p"
    by (subst w) (simp add: algebra_simps)
  also have "\<dots> = a OR mask ?p"
    using low tz(3) by (intro disjunctive_add_eq_or) (auto simp: bit_eq_iff [of "a AND mask ?p"] bit_simps)
  finally have "w - 1 = a OR mask ?p" .
  then show ?thesis
    using a [of i] low [of i] tz(2) [of i] by (auto simp: clear_lowest_def bit_simps)
qed

lemma clear_lowest_shrinks: "w \<noteq> 0 \<Longrightarrow> card {i. bit (clear_lowest w) i} < card {i. bit w i}"
  by (rule bits_shrink) (simp_all add: clear_lowest_bits)

lemma bits_in_order:
  assumes "w \<noteq> 0"
  shows "filter (bit w) [0..<64] = trailing_zeros w # filter (bit (clear_lowest w)) [0..<64]"
proof -
  let ?p = "trailing_zeros w"
  note tz = trailing_zeros_eq [OF assms]
  have split: "[0..<64] = [0..<?p] @ ?p # [Suc ?p..<64]"
    using tz(3) by (metis less_imp_le upt_add_eq_append upt_conv_Cons le_add_diff_inverse add.left_neutral zero_le)
  have "filter (bit w) [0..<?p] = []" "filter (bit (clear_lowest w)) [0..<?p] = []"
    using tz(2) by (auto simp: filter_empty_conv clear_lowest_bits [OF assms])
  moreover have "filter (bit (clear_lowest w)) [Suc ?p..<64] = filter (bit w) [Suc ?p..<64]"
    by (rule filter_cong) (auto simp: clear_lowest_bits [OF assms])
  ultimately show ?thesis
    using tz(1) by (simp add: split clear_lowest_bits [OF assms])
qed

subsection \<open>The iterator\<close>

datatype StructuralKind =
  Newline | Quote | Comma | Colon | OpenBrace | CloseBrace | OpenBracket | CloseBracket

record StructuralPos =
  pos :: nat
  kind :: StructuralKind

record StructuralIter =
  si_buf :: bytes
  si_len :: nat
  si_block_idx :: nat
  si_num_blocks :: nat
  si_remaining_bits :: u64
  si_current_block :: ProcessedBlock
  si_block_offset :: nat
  si_classifier :: StreamingClassifier
  si_current_space :: u64

definition structural_bits :: "ProcessedBlock \<Rightarrow> u64" where
  "structural_bits processed =
     newline processed OR real_quotes processed OR comma processed OR colon processed OR
     open_brace processed OR close_brace processed OR open_bracket processed OR close_bracket processed"

definition load_block :: "simd_eq \<Rightarrow> StructuralIter \<Rightarrow> nat \<Rightarrow> StructuralIter" where
  "load_block simd it idx =
     (let block_offset = idx * 64;
          remaining = si_len it - block_offset;
          block_len = min remaining 64;
          block = (if 64 \<le> remaining then subslice (si_buf it) block_offset (block_offset + 64)
                   else drop block_offset (si_buf it) @ replicate (64 - remaining) SP);
          raw = find_structural_chars simd block
      in case process_block (si_classifier it) raw block_len of
           (processed, classifier) \<Rightarrow>
             it\<lparr>si_block_idx := idx, si_block_offset := block_offset,
                si_classifier := classifier,
                si_remaining_bits := structural_bits processed,
                si_current_block := processed,
                si_current_space := space processed\<rparr>)"

definition empty_block :: ProcessedBlock where
  "empty_block = \<lparr>newline = 0, space = 0, real_quotes = 0, in_string = 0, comma = 0, colon = 0,
     open_brace = 0, close_brace = 0, open_bracket = 0, close_bracket = 0\<rparr>"

definition iter_new :: "simd_eq \<Rightarrow> bytes \<Rightarrow> StructuralIter" where
  "iter_new simd buf =
     (let it = \<lparr>si_buf = buf, si_len = length buf, si_block_idx = 0, si_num_blocks = num_blocks buf,
                si_remaining_bits = 0, si_current_block = empty_block, si_block_offset = 0,
                si_classifier = classifier_new, si_current_space = 0\<rparr>
      in if 0 < num_blocks buf then load_block simd it 0 else it)"

definition classify_bit :: "StructuralIter \<Rightarrow> nat \<Rightarrow> StructuralKind" where
  "classify_bit it bit_pos =
     (let mask = push_bit bit_pos 1; p = si_current_block it
      in if real_quotes p AND mask \<noteq> 0 then Quote
         else if comma p AND mask \<noteq> 0 then Comma
         else if colon p AND mask \<noteq> 0 then Colon
         else if close_brace p AND mask \<noteq> 0 then CloseBrace
         else if open_brace p AND mask \<noteq> 0 then OpenBrace
         else if newline p AND mask \<noteq> 0 then Newline
         else if close_bracket p AND mask \<noteq> 0 then CloseBracket
         else OpenBracket)"

text \<open>How much is left to do: unread blocks and unread bits of the current one.\<close>

definition iter_work :: "StructuralIter \<Rightarrow> nat" where
  "iter_work it = (si_num_blocks it - si_block_idx it) * 65 + card {i. bit (si_remaining_bits it) i}"

lemma card_bits: "card {i. bit (w :: u64) i} \<le> 64"
proof -
  have "{i. bit w i} \<subseteq> {..<64}" by (auto dest: bit_imp_le_length)
  from card_mono [OF _ this] show ?thesis by simp
qed

lemma load_block_fields [simp]:
  "si_buf (load_block simd it idx) = si_buf it" "si_len (load_block simd it idx) = si_len it"
  "si_num_blocks (load_block simd it idx) = si_num_blocks it"
  "si_block_idx (load_block simd it idx) = idx" "si_block_offset (load_block simd it idx) = idx * 64"
  by (simp_all add: load_block_def Let_def split: prod.splits)

lemma load_block_space:
  "si_current_space (load_block simd it idx) = space (si_current_block (load_block simd it idx))"
  by (simp add: load_block_def Let_def split: prod.splits)

lemma load_block_work:
  assumes "\<not> si_num_blocks it \<le> Suc (si_block_idx it)"
  shows "iter_work (load_block simd it (Suc (si_block_idx it))) < iter_work it"
proof -
  obtain d where "si_num_blocks it = Suc (si_block_idx it) + d"
    using assms by (metis le_iff_add nat_le_linear)
  then show ?thesis
    using card_bits [of "si_remaining_bits (load_block simd it (Suc (si_block_idx it)))"]
    by (simp add: iter_work_def)
qed

lemma clear_work:
  "si_remaining_bits it \<noteq> 0 \<Longrightarrow>
   iter_work (it\<lparr>si_remaining_bits := clear_lowest (si_remaining_bits it)\<rparr>) < iter_work it"
  by (simp add: iter_work_def clear_lowest_shrinks)

function advance :: "simd_eq \<Rightarrow> StructuralIter \<Rightarrow> StructuralPos option \<times> StructuralIter" where
  "advance simd it =
     (if si_remaining_bits it \<noteq> 0 then
        (let bit_pos = trailing_zeros (si_remaining_bits it);
             it = it\<lparr>si_remaining_bits := clear_lowest (si_remaining_bits it)\<rparr>;
             abs_pos = si_block_offset it + bit_pos
         in if si_len it \<le> abs_pos then advance simd it
            else (Some \<lparr>pos = abs_pos, kind = classify_bit it bit_pos\<rparr>, it))
      else
        (let next_block = si_block_idx it + 1
         in if si_num_blocks it \<le> next_block then (None, it)
            else advance simd (load_block simd it next_block)))"
  by pat_completeness auto
termination
  by (relation "measure (\<lambda>(simd, it). iter_work it)") (auto simp: load_block_work clear_work)

declare advance.simps [simp del]

lemma advance_work: "advance simd it = (Some p, it') \<Longrightarrow> iter_work it' < iter_work it"
proof (induction simd it rule: advance.induct)
  case (1 simd it)
  let ?it = "it\<lparr>si_remaining_bits := clear_lowest (si_remaining_bits it)\<rparr>"
  show ?case
  proof (cases "si_remaining_bits it \<noteq> 0")
    case True
    then show ?thesis
      using 1(1) [OF True refl refl refl] "1.prems" clear_work [OF True]
      by (auto simp: advance.simps [of simd it] Let_def split: if_splits)
  next
    case False
    then show ?thesis
      using 1(2) [OF False refl] "1.prems" load_block_work [of it simd]
      by (auto simp: advance.simps [of simd it] Let_def split: if_splits)
  qed
qed

text \<open>Draining the iterator, as \<^verbatim>\<open>while let Some(sp) = iter.advance()\<close> does.\<close>

function drain :: "simd_eq \<Rightarrow> StructuralIter \<Rightarrow> StructuralPos list" where
  "drain simd it =
     (case advance simd it of (None, it') \<Rightarrow> [] | (Some p, it') \<Rightarrow> p # drain simd it')"
  by pat_completeness auto
termination
  by (relation "measure (\<lambda>(simd, it). iter_work it)") (auto intro: advance_work [OF sym])

declare drain.simps [simp del]

subsection \<open>The reference\<close>

definition kind_at :: "bytes \<Rightarrow> nat \<Rightarrow> StructuralKind option" where
  "kind_at buf i =
     (if real_quote_at buf i then Some Quote
      else if buf ! i = NL then Some Newline
      else if in_string_at buf i then None
      else if buf ! i = COMMA then Some Comma
      else if buf ! i = COLON then Some Colon
      else if buf ! i = LBRACE then Some OpenBrace
      else if buf ! i = RBRACE then Some CloseBrace
      else if buf ! i = LBRACKET then Some OpenBracket
      else if buf ! i = RBRACKET then Some CloseBracket
      else None)"

definition positions_in :: "bytes \<Rightarrow> nat \<Rightarrow> nat \<Rightarrow> StructuralPos list" where
  "positions_in buf a b =
     map (\<lambda>i. \<lparr>pos = i, kind = the (kind_at buf i)\<rparr>) (filter (\<lambda>i. kind_at buf i \<noteq> None) [a..<b])"


subsection \<open>Draining lists the structural characters\<close>

lemma block_masksD:
  assumes "block_masks buf off n pb" and "i < 64" and "i < n"
  shows "bit (newline pb) i \<longleftrightarrow> buf ! (off + i) = NL"
    "bit (real_quotes pb) i \<longleftrightarrow> real_quote_at buf (off + i)"
    "bit (comma pb) i \<longleftrightarrow> buf ! (off + i) = COMMA \<and> \<not> in_string_at buf (off + i)"
    "bit (colon pb) i \<longleftrightarrow> buf ! (off + i) = COLON \<and> \<not> in_string_at buf (off + i)"
    "bit (open_brace pb) i \<longleftrightarrow> buf ! (off + i) = LBRACE \<and> \<not> in_string_at buf (off + i)"
    "bit (close_brace pb) i \<longleftrightarrow> buf ! (off + i) = RBRACE \<and> \<not> in_string_at buf (off + i)"
    "bit (open_bracket pb) i \<longleftrightarrow> buf ! (off + i) = LBRACKET \<and> \<not> in_string_at buf (off + i)"
    "bit (close_bracket pb) i \<longleftrightarrow> buf ! (off + i) = RBRACKET \<and> \<not> in_string_at buf (off + i)"
  using assms by (simp_all add: block_masks_def)

lemma structural_bits_kind:
  assumes masks: "block_masks buf off n pb" and "i < 64"
  shows "bit (structural_bits pb) i \<longleftrightarrow> i < n \<and> kind_at buf (off + i) \<noteq> None"
proof (cases "i < n")
  case True
  note bits = block_masksD [OF masks \<open>i < 64\<close> True]
  have "real_quote_at buf (off + i) \<Longrightarrow> buf ! (off + i) = QUOTE \<and> \<not> in_string_at buf (off + i)"
    by (simp add: real_quote_at_def in_string_at_def)
  with True show ?thesis
    by (auto simp: structural_bits_def bit_or_iff bits kind_at_def)
qed (use assms in \<open>auto simp: structural_bits_def bit_or_iff block_masks_def\<close>)

lemma classify_bit_bits:
  "classify_bit it i =
     (let p = si_current_block it
      in if bit (real_quotes p) i then Quote else if bit (comma p) i then Comma
         else if bit (colon p) i then Colon else if bit (close_brace p) i then CloseBrace
         else if bit (open_brace p) i then OpenBrace else if bit (newline p) i then Newline
         else if bit (close_bracket p) i then CloseBracket else OpenBracket)"
  unfolding classify_bit_def Let_def bit_iff_and_push_bit_not_eq_0 by simp

lemma classify_bit_kind:
  assumes masks: "block_masks buf off n (si_current_block it)" and "i < 64"
    and "bit (structural_bits (si_current_block it)) i"
  shows "kind_at buf (off + i) = Some (classify_bit it i)"
proof -
  have i: "i < n" and k: "kind_at buf (off + i) \<noteq> None"
    using structural_bits_kind [OF masks \<open>i < 64\<close>] assms(3) by simp_all
  note bits = block_masksD [OF masks \<open>i < 64\<close> i]
  show ?thesis
  proof (cases "real_quote_at buf (off + i) \<or> in_string_at buf (off + i)")
    case True
    then show ?thesis
      using k by (auto simp: classify_bit_bits Let_def bits kind_at_def split: if_splits)
  next
    case False
    then show ?thesis
      using k unfolding classify_bit_bits Let_def bits kind_at_def
      by (simp split del: if_split) (simp split: if_splits)
  qed
qed

definition iter_inv :: "bytes \<Rightarrow> StructuralIter \<Rightarrow> bool" where
  "iter_inv buf it \<longleftrightarrow>
     si_buf it = buf \<and> si_len it = length buf \<and> si_num_blocks it = num_blocks buf \<and>
     si_block_offset it = si_block_idx it * 64 \<and> si_block_idx it * 64 < length buf \<and>
     block_masks buf (si_block_idx it * 64) (min (length buf - si_block_idx it * 64) 64) (si_current_block it) \<and>
     classifier_at (pad_buffer buf) (Suc (si_block_idx it) * 64) (si_classifier it) \<and>
     (\<forall>i. bit (si_remaining_bits it) i \<longrightarrow> bit (structural_bits (si_current_block it)) i)"

text \<open>What the iterator still has to yield.\<close>

definition iter_rest :: "bytes \<Rightarrow> StructuralIter \<Rightarrow> StructuralPos list" where
  "iter_rest buf it =
     map (\<lambda>i. \<lparr>pos = si_block_offset it + i, kind = classify_bit it i\<rparr>)
       (filter (bit (si_remaining_bits it)) [0..<64]) @
     positions_in buf (min (length buf) (si_block_offset it + 64)) (length buf)"

lemma positions_in_split: "a \<le> b \<Longrightarrow> b \<le> c \<Longrightarrow> positions_in buf a c = positions_in buf a b @ positions_in buf b c"
  using upt_add_eq_append [of a b "c - b"] by (simp add: positions_in_def)

lemma filter_less_upt: "n \<le> m \<Longrightarrow> filter (\<lambda>i. i < n) [0..<m] = [0..<n]"
  by (induction m) (auto simp: le_Suc_eq)

context wide_crate
begin

lemma load_block_inv:
  assumes "si_buf it = buf" and "si_len it = length buf" and "si_num_blocks it = num_blocks buf"
    and idx: "idx * 64 < length buf" and c: "classifier_at (pad_buffer buf) (idx * 64) (si_classifier it)"
  shows "iter_inv buf (load_block simd it idx)"
    and "si_remaining_bits (load_block simd it idx) = structural_bits (si_current_block (load_block simd it idx))"
proof -
  obtain pb c' where pb: "process_block (si_classifier it) (find_structural_chars simd (buffer_block buf idx))
      (min (length buf - idx * 64) 64) = (pb, c')" by fastforce
  have load: "load_block simd it idx =
      it\<lparr>si_block_idx := idx, si_block_offset := idx * 64, si_classifier := c',
         si_remaining_bits := structural_bits pb, si_current_block := pb, si_current_space := space pb\<rparr>"
    using pb unfolding load_block_def buffer_block_def Let_def assms(1,2) by (simp split del: if_split)
  show "iter_inv buf (load_block simd it idx)"
    using buffer_block_step [OF idx c pb] assms by (simp add: load iter_inv_def)
  show "si_remaining_bits (load_block simd it idx) = structural_bits (si_current_block (load_block simd it idx))"
    by (simp add: load)
qed

lemma iter_new_inv:
  assumes "buf \<noteq> []"
  shows "iter_inv buf (iter_new simd buf)"
    and "si_remaining_bits (iter_new simd buf) = structural_bits (si_current_block (iter_new simd buf))"
    and "si_current_space (iter_new simd buf) = space (si_current_block (iter_new simd buf))"
proof -
  let ?it = "\<lparr>si_buf = buf, si_len = length buf, si_block_idx = 0, si_num_blocks = num_blocks buf,
    si_remaining_bits = 0, si_current_block = empty_block, si_block_offset = 0,
    si_classifier = classifier_new, si_current_space = 0\<rparr>"
  have new: "iter_new simd buf = load_block simd ?it 0"
    using assms num_blocks_iff [of 0 buf] by (simp add: iter_new_def)
  have "iter_inv buf (load_block simd ?it 0)"
    "si_remaining_bits (load_block simd ?it 0) = structural_bits (si_current_block (load_block simd ?it 0))"
    using assms load_block_inv [of ?it buf 0] by (simp_all add: classifier_at_new)
  with load_block_space [of simd ?it 0] show "iter_inv buf (iter_new simd buf)"
    "si_remaining_bits (iter_new simd buf) = structural_bits (si_current_block (iter_new simd buf))"
    "si_current_space (iter_new simd buf) = space (si_current_block (iter_new simd buf))"
    by (simp_all only: new)
qed

lemma loaded_rest:
  assumes inv: "iter_inv buf it" and all: "si_remaining_bits it = structural_bits (si_current_block it)"
  shows "iter_rest buf it = positions_in buf (si_block_offset it) (length buf)"
proof -
  let ?off = "si_block_offset it" and ?n = "min (length buf - si_block_offset it) 64"
  have masks: "block_masks buf ?off ?n (si_current_block it)"
    using inv by (simp add: iter_inv_def)
  have off: "?off < length buf"
    using inv by (simp add: iter_inv_def)
  have bits: "filter (bit (si_remaining_bits it)) [0..<64] = filter (\<lambda>i. kind_at buf (?off + i) \<noteq> None) [0..<?n]"
  proof -
    have "filter (bit (si_remaining_bits it)) [0..<64] =
        filter (\<lambda>i. i < ?n \<and> kind_at buf (?off + i) \<noteq> None) [0..<64]"
      by (rule filter_cong) (auto simp: all structural_bits_kind [OF masks])
    also have "\<dots> = filter (\<lambda>i. kind_at buf (?off + i) \<noteq> None) (filter (\<lambda>i. i < ?n) [0..<64])"
      by (simp add: conj_commute)
    also have "filter (\<lambda>i. i < ?n) [0..<64] = [0..<?n]"
      by (rule filter_less_upt) simp
    finally show ?thesis .
  qed
  have kinds: "map (\<lambda>i. \<lparr>pos = ?off + i, kind = classify_bit it i\<rparr>)
      (filter (\<lambda>i. kind_at buf (?off + i) \<noteq> None) [0..<?n]) =
      map (\<lambda>i. \<lparr>pos = ?off + i, kind = the (kind_at buf (?off + i))\<rparr>)
      (filter (\<lambda>i. kind_at buf (?off + i) \<noteq> None) [0..<?n])"
  proof (rule map_cong [OF refl])
    fix i assume "i \<in> set (filter (\<lambda>i. kind_at buf (?off + i) \<noteq> None) [0..<?n])"
    then have "i < 64" "bit (structural_bits (si_current_block it)) i"
      using structural_bits_kind [OF masks, of i] by auto
    then show "\<lparr>pos = ?off + i, kind = classify_bit it i\<rparr> = \<lparr>pos = ?off + i, kind = the (kind_at buf (?off + i))\<rparr>"
      using classify_bit_kind [OF masks] by simp
  qed
  have here: "map (\<lambda>i. \<lparr>pos = ?off + i, kind = the (kind_at buf (?off + i))\<rparr>)
      (filter (\<lambda>i. kind_at buf (?off + i) \<noteq> None) [0..<?n]) = positions_in buf ?off (?off + ?n)"
  proof -
    have "[?off..<?off + ?n] = map (\<lambda>i. ?off + i) [0..<?n]"
      using map_add_upt [of ?off ?n] by (simp add: add.commute)
    then show ?thesis by (simp add: positions_in_def filter_map comp_def)
  qed
  have "min (length buf) (?off + 64) = ?off + ?n"
    using off by simp
  then show ?thesis
    unfolding iter_rest_def bits kinds here
    using positions_in_split [of ?off "?off + ?n" "length buf" buf] off by simp
qed

lemma drain_rest: "iter_inv buf it \<Longrightarrow> drain simd it = iter_rest buf it"
proof (induction "iter_work it" arbitrary: it rule: less_induct)
  case less
  let ?r = "si_remaining_bits it"
  consider (bit) "?r \<noteq> 0" | (last) "?r = 0" "si_num_blocks it \<le> Suc (si_block_idx it)"
    | (load) "?r = 0" "\<not> si_num_blocks it \<le> Suc (si_block_idx it)" by blast
  then show ?case
  proof cases
    case bit
    let ?i = "trailing_zeros ?r" and ?it = "it\<lparr>si_remaining_bits := clear_lowest ?r\<rparr>"
    note tz = trailing_zeros_eq [OF bit]
    have masks: "block_masks buf (si_block_offset it) (min (length buf - si_block_offset it) 64) (si_current_block it)"
      and sub: "bit (structural_bits (si_current_block it)) ?i" and len: "si_len it = length buf"
      using less.prems tz(1) by (simp_all add: iter_inv_def)
    have "si_block_offset it + ?i < length buf"
      using structural_bits_kind [OF masks tz(3)] sub by auto
    then have "advance simd it = (Some \<lparr>pos = si_block_offset it + ?i, kind = classify_bit it ?i\<rparr>, ?it)"
      using bit len by (simp add: advance.simps [of simd it] Let_def classify_bit_def)
    moreover have "iter_inv buf ?it"
      using less.prems by (simp add: iter_inv_def clear_lowest_bits [OF bit])
    ultimately have "drain simd it = \<lparr>pos = si_block_offset it + ?i, kind = classify_bit it ?i\<rparr> # iter_rest buf ?it"
      using less.hyps [OF clear_work [OF bit]] by (simp add: drain.simps [of simd it])
    also have "\<dots> = iter_rest buf it"
      by (simp add: iter_rest_def bits_in_order [OF bit] classify_bit_def)
    finally show ?thesis .
  next
    case last
    then have "length buf \<le> si_block_offset it + 64"
      using less.prems num_blocks_iff [of "Suc (si_block_idx it)" buf] by (simp add: iter_inv_def)
    with last show ?thesis
      by (simp add: drain.simps [of simd it] advance.simps [of simd it] iter_rest_def positions_in_def min_def)
  next
    case load
    let ?it = "load_block simd it (Suc (si_block_idx it))"
    have next_block: "Suc (si_block_idx it) * 64 < length buf"
      using load less.prems num_blocks_iff [of "Suc (si_block_idx it)" buf] by (simp add: iter_inv_def)
    have "iter_inv buf ?it" "si_remaining_bits ?it = structural_bits (si_current_block ?it)"
      using less.prems next_block load_block_inv [of it buf "Suc (si_block_idx it)"]
      by (simp_all add: iter_inv_def)
    then have "drain simd ?it = positions_in buf (Suc (si_block_idx it) * 64) (length buf)"
      using less.hyps [OF load_block_work [OF load(2)]] loaded_rest [of buf ?it] by simp
    moreover have "advance simd it = advance simd ?it"
      using load by (simp add: advance.simps [of simd it])
    then have "drain simd it = drain simd ?it"
      by (simp add: drain.simps [of simd it] drain.simps [of simd ?it])
    ultimately show ?thesis
      using load next_block less.prems by (simp add: iter_rest_def iter_inv_def add.commute)
  qed
qed

end

text \<open>
  Property C30. The structural iterator is exact: draining it over any buffer yields, in order and
  without duplicates, one entry for every newline, every unescaped quote and every comma, colon,
  brace and bracket outside strings, each with the right kind, and nothing else.
\<close>

theorem structural_iter_exact:
  assumes "wide_crate simd"
  shows "drain simd (iter_new simd buf) = positions_in buf 0 (length buf)"
proof (cases "buf = []")
  case True
  then show ?thesis
    by (simp add: iter_new_def num_blocks_def drain.simps [of simd] advance.simps [of simd] positions_in_def)
next
  case False
  note inv = wide_crate.iter_new_inv [OF assms False]
  have "si_block_offset (iter_new simd buf) = 0"
    using False num_blocks_iff [of 0 buf] by (simp add: iter_new_def)
  with wide_crate.drain_rest [OF assms inv(1)] wide_crate.loaded_rest [OF assms inv(1,2)] show ?thesis
    by simp
qed

theorem structural_iter_exact_witness:
  "drain scalar_simd_eq (iter_new scalar_simd_eq (bstr ''{\"a,\":[]}'')) =
     [\<lparr>pos = 0, kind = OpenBrace\<rparr>, \<lparr>pos = 1, kind = Quote\<rparr>, \<lparr>pos = 4, kind = Quote\<rparr>,
      \<lparr>pos = 5, kind = Colon\<rparr>, \<lparr>pos = 6, kind = OpenBracket\<rparr>, \<lparr>pos = 7, kind = CloseBracket\<rparr>,
      \<lparr>pos = 8, kind = CloseBrace\<rparr>]"
  unfolding structural_iter_exact [OF scalar_wide.wide_crate_axioms] by code_simp

subsection \<open>Skipping spaces\<close>

text \<open>The byte-scan fallback.\<close>

function space_scan :: "bytes \<Rightarrow> nat \<Rightarrow> nat" where
  "space_scan buf p =
     (if p < length buf then if buf ! p = SP then space_scan buf (p + 1) else p else p)"
  by pat_completeness auto
termination
  by (relation "measure (\<lambda>(buf, p). length buf - p)") auto

declare space_scan.simps [simp del]

definition next_non_space :: "StructuralIter \<Rightarrow> nat \<Rightarrow> nat" where
  "next_non_space it from =
     (if si_len it \<le> from then si_len it
      else
        (let block_idx = from div 64; b = from mod 64;
             space_at_and_after = drop_bit b (si_current_space it);
             non_space = trailing_zeros (NOT space_at_and_after)
         in if block_idx = si_block_idx it \<and> space_at_and_after AND 1 = 0 then from
            else if block_idx = si_block_idx it \<and> non_space < 64 - b \<and> from + non_space < si_len it
            then from + non_space
            else space_scan (si_buf it) from))"

lemma space_scan_skip: "(\<forall>j<k. p + j < length buf \<and> buf ! (p + j) = SP) \<Longrightarrow> space_scan buf p = space_scan buf (p + k)"
proof (induction k arbitrary: p)
  case (Suc k)
  then have "p < length buf" "buf ! p = SP" by (metis add_0_right zero_less_Suc)+
  then have "space_scan buf p = space_scan buf (Suc p)" by (simp add: space_scan.simps [of buf p])
  moreover have "space_scan buf (Suc p) = space_scan buf (Suc p + k)"
    using Suc.prems by (intro Suc.IH) (metis Suc_less_eq add_Suc_shift)
  ultimately show ?case by simp
qed simp

text \<open>The scan returns the first position that is not a space.\<close>

lemma space_scan_first:
  "p \<le> length buf \<Longrightarrow> p \<le> space_scan buf p \<and> space_scan buf p \<le> length buf \<and>
     (\<forall>i. p \<le> i \<and> i < space_scan buf p \<longrightarrow> buf ! i = SP) \<and>
     (space_scan buf p < length buf \<longrightarrow> buf ! space_scan buf p \<noteq> SP)"
proof (induction buf p rule: space_scan.induct)
  case (1 buf p)
  show ?case
  proof (cases "p < length buf \<and> buf ! p = SP")
    case True
    then have step: "space_scan buf p = space_scan buf (Suc p)" by (simp add: space_scan.simps [of buf p])
    have IH: "Suc p \<le> space_scan buf (Suc p)" "space_scan buf (Suc p) \<le> length buf"
      "\<forall>i. Suc p \<le> i \<and> i < space_scan buf (Suc p) \<longrightarrow> buf ! i = SP"
      "space_scan buf (Suc p) < length buf \<longrightarrow> buf ! space_scan buf (Suc p) \<noteq> SP"
      using 1 True by simp_all
    have "buf ! i = SP" if "p \<le> i" "i < space_scan buf (Suc p)" for i
      using IH(3) True that by (cases "i = p") auto
    with IH step show ?thesis by auto
  next
    case False
    with 1 show ?thesis by (auto simp: space_scan.simps [of buf p])
  qed
qed

lemma trailing_zeros_0: "trailing_zeros 0 = 64"
  by (simp add: trailing_zeros_def takeWhile_eq_all_conv [THEN iffD2])

lemma block_masks_space:
  "block_masks buf off n pb \<Longrightarrow> i < 64 \<Longrightarrow>
     bit (space pb) i \<longleftrightarrow> i < n \<and> buf ! (off + i) = SP \<and> \<not> in_string_at buf (off + i)"
  by (simp add: block_masks_def)

lemma in_string_at_space: "buf ! i = SP \<Longrightarrow> buf ! Suc i = SP \<Longrightarrow> in_string_at buf (Suc i) = in_string_at buf i"
  by (simp add: in_string_at_def real_quote_at_def)

lemma spaces_outside:
  "\<not> in_string_at buf p \<Longrightarrow> (\<forall>j<k. buf ! (p + j) = SP) \<Longrightarrow> 0 < k \<Longrightarrow> buf ! (p + k) = SP \<Longrightarrow> \<not> in_string_at buf (p + k)"
proof (induction k)
  case (Suc k)
  then show ?case
    using in_string_at_space [of buf "p + k"] by (cases k) auto
qed simp

text \<open>The bits of the current space mask from \<open>start\<close> on are the spaces outside strings.\<close>

lemma space_word_bits:
  assumes "iter_inv buf it" and "si_current_space it = space (si_current_block it)"
    and "start div 64 = si_block_idx it" and "start mod 64 + j < 64"
  shows "bit (drop_bit (start mod 64) (si_current_space it)) j \<longleftrightarrow>
    start + j < length buf \<and> buf ! (start + j) = SP \<and> \<not> in_string_at buf (start + j)"
proof -
  have masks: "block_masks buf (si_block_idx it * 64) (min (length buf - si_block_idx it * 64) 64) (si_current_block it)"
    using assms(1) by (simp add: iter_inv_def)
  have pos: "si_block_idx it * 64 + (start mod 64 + j) = start + j"
    using assms(3) by (metis add.assoc div_mult_mod_eq)
  then have "start mod 64 + j < length buf - si_block_idx it * 64 \<longleftrightarrow> start + j < length buf" by linarith
  with block_masks_space [OF masks assms(4)] assms(4) pos show ?thesis
    by (simp add: bit_drop_bit_eq assms(2))
qed

text \<open>The run of ones at the start of such a word is skipped by the byte scan.\<close>

lemma space_run:
  fixes w :: u64
  assumes w: "\<And>j. b + j < 64 \<Longrightarrow>
      bit w j \<longleftrightarrow> start + j < length buf \<and> buf ! (start + j) = SP \<and> \<not> in_string_at buf (start + j)"
    and out: "\<not> in_string_at buf start" and here: "start < length buf" "buf ! start = SP"
    and run: "trailing_zeros (NOT w) < 64 - b" "start + trailing_zeros (NOT w) < length buf"
  shows "space_scan buf start = start + trailing_zeros (NOT w)"
proof -
  let ?k = "trailing_zeros (NOT w)"
  have nz: "NOT w \<noteq> 0" using run(1) trailing_zeros_0 by (metis diff_le_self not_less)
  note tz = trailing_zeros_eq [OF nz]
  have spaces: "buf ! (start + j) = SP \<and> start + j < length buf" if "j < ?k" for j
    using tz(2) [OF that] w [of j] that run(1) by (simp add: bit_not_iff)
  have "0 < ?k" using tz(1) w [of 0] here run(1) out by (auto simp: bit_not_iff intro: gr0I)
  with spaces spaces_outside [OF out, of ?k] tz(1) w [of ?k] run have "buf ! (start + ?k) \<noteq> SP"
    by (auto simp: bit_not_iff)
  then show ?thesis
    using space_scan_skip [of ?k start buf] spaces by (simp add: space_scan.simps [of buf "start + ?k"])
qed

text \<open>
  Property C31. The bit-mask shortcut of \<^verbatim>\<open>next_non_space\<close> agrees with the byte scan: for a position
  outside JSON strings it returns the first position at or after it that is not a space (or the
  buffer length), whichever block is loaded.
\<close>

theorem next_non_space_correct:
  assumes inv: "iter_inv buf it" and space: "si_current_space it = space (si_current_block it)"
    and out: "\<not> in_string_at buf start" and start: "start \<le> length buf"
  shows "next_non_space it start = space_scan buf start"
proof (cases "start < length buf \<and> start div 64 = si_block_idx it")
  case False
  have it: "si_len it = length buf" "si_buf it = buf" using inv by (simp_all add: iter_inv_def)
  from False start consider "start = length buf" | "start < length buf" "start div 64 \<noteq> si_block_idx it"
    by fastforce
  then show ?thesis
    by cases (simp_all add: next_non_space_def it space_scan.simps [of buf "length buf"])
next
  case True
  let ?w = "drop_bit (start mod 64) (si_current_space it)"
  let ?k = "trailing_zeros (NOT ?w)"
  have it: "si_len it = length buf" "si_buf it = buf" using inv by (simp_all add: iter_inv_def)
  note w = space_word_bits [OF inv space conjunct2 [OF True]]
  have first: "?w AND 1 = 0 \<longleftrightarrow> \<not> (buf ! start = SP)"
    using w [of 0] True out by (auto simp: bit_0 and_one_eq simp flip: even_iff_mod_2_eq_zero)
  show ?thesis
  proof (cases "buf ! start = SP \<and> ?k < 64 - start mod 64 \<and> start + ?k < length buf")
    case run: True
    then have "space_scan buf start = start + ?k" using space_run [OF w out] True by blast
    with True first it run show ?thesis by (simp add: next_non_space_def Let_def)
  next
    case False
    with True first it show ?thesis
      by (auto simp: next_non_space_def Let_def space_scan.simps [of buf start])
  qed
qed

theorem next_non_space_correct_witness:
  "next_non_space (iter_new scalar_simd_eq (bstr ''{   1'')) 1 = 4"
proof -
  have "bstr ''{   1'' \<noteq> []" by (simp add: bstr_def)
  note inv = scalar_wide.iter_new_inv [OF this]
  have "next_non_space (iter_new scalar_simd_eq (bstr ''{   1'')) 1 = space_scan (bstr ''{   1'') 1"
    by (rule next_non_space_correct [OF inv(1,3)]) code_simp+
  also have "\<dots> = 4" by code_simp
  finally show ?thesis .
qed

end
