(* ===== verification/Rust_Std.thy ===== *)
theory Rust_Std
  imports Complex_Main Prelude
begin

text \<open>
  The parts of the Rust standard library that the sources rely on: \<^verbatim>\<open>Ordering\<close> and \<^verbatim>\<open>cmp\<close>,
  UTF-8 validation and encoding, \<^verbatim>\<open>str::parse\<close> for \<^verbatim>\<open>i64\<close> and \<^verbatim>\<open>f64\<close>, and the \<^verbatim>\<open>f64\<close>
  operations the predicate evaluator uses.

  An \<^verbatim>\<open>f64\<close> is NaN, an infinity, one of the two zeros, or a rational number that is a multiple of a
  power of two, as rounding to nearest, ties to even, produces it. Sign and payload of a
  NaN are not kept.
\<close>

subsection \<open>Ordering\<close>

datatype Ordering = Less | Equal | Greater

definition cmp :: "'a :: linorder \<Rightarrow> 'a \<Rightarrow> Ordering" where
  "cmp a b = (if a < b then Less else if a = b then Equal else Greater)"

text \<open>\<^verbatim>\<open><[u8]>::cmp\<close> is lexicographic.\<close>

fun cmp_bytes :: "bytes \<Rightarrow> bytes \<Rightarrow> Ordering" where
  "cmp_bytes [] [] = Equal"
| "cmp_bytes [] (y # ys) = Less"
| "cmp_bytes (x # xs) [] = Greater"
| "cmp_bytes (x # xs) (y # ys) = (if x < y then Less else if y < x then Greater else cmp_bytes xs ys)"

subsection \<open>UTF-8\<close>

definition is_continuation :: "u8 \<Rightarrow> bool" where
  "is_continuation b \<longleftrightarrow> 128 \<le> b \<and> b \<le> 191"

text \<open>\<^verbatim>\<open>core::str::from_utf8(bytes).is_ok()\<close>: well-formed UTF-8 without surrogates or overlong forms.\<close>

fun valid_utf8 :: "bytes \<Rightarrow> bool" where
  "valid_utf8 [] = True"
| "valid_utf8 (a # rest) =
     (if a \<le> 127 then valid_utf8 rest
      else if 194 \<le> a \<and> a \<le> 223 then
        (case rest of b # rest' \<Rightarrow> is_continuation b \<and> valid_utf8 rest' | _ \<Rightarrow> False)
      else if 224 \<le> a \<and> a \<le> 239 then
        (case rest of b # c # rest' \<Rightarrow>
           is_continuation b \<and> is_continuation c \<and> (a = 224 \<longrightarrow> 160 \<le> b) \<and> (a = 237 \<longrightarrow> b \<le> 159) \<and>
           valid_utf8 rest' | _ \<Rightarrow> False)
      else if 240 \<le> a \<and> a \<le> 244 then
        (case rest of b # c # d # rest' \<Rightarrow>
           is_continuation b \<and> is_continuation c \<and> is_continuation d \<and>
           (a = 240 \<longrightarrow> 144 \<le> b) \<and> (a = 244 \<longrightarrow> b \<le> 143) \<and> valid_utf8 rest' | _ \<Rightarrow> False)
      else False)"

text \<open>
  \<^verbatim>\<open>String::from_utf8_lossy\<close>: every maximal prefix of an ill-formed sequence becomes U+FFFD.
  \<open>utf8_head\<close> says whether the first sequence is well-formed, and how many bytes it takes.
\<close>

definition second_byte_ok :: "u8 \<Rightarrow> u8 \<Rightarrow> bool" where
  "second_byte_ok a b \<longleftrightarrow> is_continuation b \<and>
     (a = 224 \<longrightarrow> 160 \<le> b) \<and> (a = 237 \<longrightarrow> b \<le> 159) \<and> (a = 240 \<longrightarrow> 144 \<le> b) \<and> (a = 244 \<longrightarrow> b \<le> 143)"

definition utf8_head :: "u8 \<Rightarrow> bytes \<Rightarrow> bool \<times> nat" where
  "utf8_head a rest =
     (if a \<le> 127 then (True, 1)
      else if a < 194 \<or> 244 < a then (False, 1)
      else (case rest of [] \<Rightarrow> (False, 1)
        | b # rest \<Rightarrow>
            if \<not> second_byte_ok a b then (False, 1)
            else if a \<le> 223 then (True, 2)
            else (case rest of [] \<Rightarrow> (False, 2)
              | c # rest \<Rightarrow>
                  if \<not> is_continuation c then (False, 2)
                  else if a \<le> 239 then (True, 3)
                  else (case rest of [] \<Rightarrow> (False, 3)
                    | d # _ \<Rightarrow> if is_continuation d then (True, 4) else (False, 3)))))"

lemma utf8_head_pos: "utf8_head a rest = (ok, n) \<Longrightarrow> 0 < n"
  by (auto simp: utf8_head_def split: if_splits list.splits)

definition replacement_char :: bytes where
  "replacement_char = [0xEF, 0xBF, 0xBD]"

function from_utf8_lossy :: "bytes \<Rightarrow> bytes" where
  "from_utf8_lossy bs =
     (case bs of [] \<Rightarrow> []
      | a # rest \<Rightarrow>
          (case utf8_head a rest of (ok, n) \<Rightarrow>
             (if ok then take n bs else replacement_char) @ from_utf8_lossy (drop n bs)))"
  by pat_completeness auto
termination
  by (relation "measure length") (auto dest: utf8_head_pos [OF sym])

declare from_utf8_lossy.simps [simp del]

text \<open>\<^verbatim>\<open>char::from_u32\<close>: a Unicode scalar value.\<close>

definition char_from_u32 :: "u32 \<Rightarrow> u32 option" where
  "char_from_u32 n =
     (if n > 0x10FFFF \<or> (0xD800 \<le> n \<and> n \<le> 0xDFFF) then None else Some n)"

text \<open>\<^verbatim>\<open>char::encode_utf8\<close>.\<close>

definition encode_utf8 :: "u32 \<Rightarrow> bytes" where
  "encode_utf8 c =
     (if c < 0x80 then [ucast c]
      else if c < 0x800 then
        [192 OR ucast (drop_bit 6 c), 128 OR (ucast c AND 63)]
      else if c < 0x10000 then
        [224 OR ucast (drop_bit 12 c), 128 OR (ucast (drop_bit 6 c) AND 63), 128 OR (ucast c AND 63)]
      else
        [240 OR ucast (drop_bit 18 c), 128 OR (ucast (drop_bit 12 c) AND 63),
         128 OR (ucast (drop_bit 6 c) AND 63), 128 OR (ucast c AND 63)])"

subsection \<open>Decimal integers\<close>

definition digit_val :: "u8 \<Rightarrow> int" where
  "digit_val b = uint (b - 48)"

definition decimal :: "bytes \<Rightarrow> int" where
  "decimal ds = foldl (\<lambda>acc d. acc * 10 + digit_val d) 0 ds"

definition all_digits :: "bytes \<Rightarrow> bool" where
  "all_digits ds \<longleftrightarrow> list_all is_ascii_digit ds"

text \<open>\<^verbatim>\<open>str::parse::<i64>().ok()\<close>.\<close>

definition parse_i64 :: "bytes \<Rightarrow> int option" where
  "parse_i64 s =
     (let (neg, ds) = (case s of c # rest \<Rightarrow>
                         if c = MINUS then (True, rest) else if c = 43 then (False, rest) else (False, s)
                       | [] \<Rightarrow> (False, []))
      in if ds \<noteq> [] \<and> all_digits ds then checked_i64 (if neg then - decimal ds else decimal ds) else None)"

subsection \<open>Floating point\<close>

text \<open>\<open>Fin 0\<close> is the positive zero and \<open>NZero\<close> the negative one.\<close>

datatype f64 = NaN | PInf | NInf | NZero | Fin rat

fun f64_neg :: "f64 \<Rightarrow> f64" where
  "f64_neg NaN = NaN"
| "f64_neg PInf = NInf"
| "f64_neg NInf = PInf"
| "f64_neg NZero = Fin 0"
| "f64_neg (Fin q) = (if q = 0 then NZero else Fin (- q))"

text \<open>The two zeros compare equal.\<close>

definition unsigned_zero :: "f64 \<Rightarrow> f64" where
  "unsigned_zero a = (if a = NZero then Fin 0 else a)"

definition round_half_even :: "rat \<Rightarrow> int" where
  "round_half_even q =
     (let n = \<lfloor>q\<rfloor>; d = q - of_int n
      in if d < 1 / 2 then n else if d > 1 / 2 then n + 1 else if even n then n else n + 1)"

definition pow2 :: "int \<Rightarrow> rat" where
  "pow2 e = (if 0 \<le> e then 2 ^ nat e else 1 / 2 ^ nat (- e))"

text \<open>The number of binary digits of a positive integer, by repeated halving.\<close>

function bit_length :: "int \<Rightarrow> int" where
  "bit_length n = (if n \<le> 0 then 0 else 1 + bit_length (n div 2))"
  by pat_completeness auto
termination
  by (relation "measure nat") auto

declare bit_length.simps [simp del]

text \<open>\<open>binade q\<close> is the \<open>e\<close> with \<open>2\<^sup>e \<le> q < 2\<^sup>e\<^sup>+\<^sup>1\<close>, for \<open>q > 0\<close>.\<close>

definition binade :: "rat \<Rightarrow> int" where
  "binade q =
     (case quotient_of q of (n, d) \<Rightarrow>
        (let e = bit_length n - bit_length d in if pow2 e \<le> q then e else e - 1))"

text \<open>Rounding to the nearest \<^verbatim>\<open>f64\<close>, ties to even, with overflow to infinity.\<close>

definition round_f64 :: "rat \<Rightarrow> f64" where
  "round_f64 q =
     (if q = 0 then Fin 0
      else
        (let a = \<bar>q\<bar>;
             e = max (-1074) (binade a - 52);
             r = of_int (round_half_even (a / pow2 e)) * pow2 e
         in if pow2 1024 \<le> r then (if 0 < q then PInf else NInf)
            else Fin (if 0 < q then r else - r)))"

text \<open>\<^verbatim>\<open>n as f64\<close>.\<close>

definition f64_of_int :: "int \<Rightarrow> f64" where
  "f64_of_int n = round_f64 (of_int n)"

definition f64_eq :: "f64 \<Rightarrow> f64 \<Rightarrow> bool" where
  "f64_eq a b \<longleftrightarrow> a \<noteq> NaN \<and> b \<noteq> NaN \<and> unsigned_zero a = unsigned_zero b"

definition f64_partial_cmp :: "f64 \<Rightarrow> f64 \<Rightarrow> Ordering option" where
  "f64_partial_cmp a b =
     (case (unsigned_zero a, unsigned_zero b) of
        (NaN, _) \<Rightarrow> None
      | (_, NaN) \<Rightarrow> None
      | (Fin p, Fin q) \<Rightarrow> Some (cmp p q)
      | (x, y) \<Rightarrow> Some (if x = y then Equal else if x = NInf \<or> y = PInf then Less else Greater))"

text \<open>
  \<^verbatim>\<open>str::parse::<f64>().ok()\<close>, by the grammar of its documentation: an optional sign, then
  \<^verbatim>\<open>inf\<close>, \<^verbatim>\<open>infinity\<close> or \<^verbatim>\<open>nan\<close> in any case, or a decimal number with an optional exponent.
\<close>

definition parse_exponent :: "bytes \<Rightarrow> int option" where
  "parse_exponent s =
     (case s of [] \<Rightarrow> Some 0
      | c # rest \<Rightarrow>
          if to_ascii_lowercase c = 101 then
            (let (neg, ds) = (case rest of x # xs \<Rightarrow>
                                if x = MINUS then (True, xs) else if x = 43 then (False, xs) else (False, rest)
                              | [] \<Rightarrow> (False, []))
             in if ds \<noteq> [] \<and> all_digits ds then Some (if neg then - decimal ds else decimal ds) else None)
          else None)"

definition pow10 :: "int \<Rightarrow> rat" where
  "pow10 e = (if 0 \<le> e then 10 ^ nat e else 1 / 10 ^ nat (- e))"

definition parse_number :: "bytes \<Rightarrow> rat option" where
  "parse_number s =
     (let whole = takeWhile is_ascii_digit s;
          rest = dropWhile is_ascii_digit s;
          (frac, rest) = (case rest of c # r \<Rightarrow>
                            if c = DOT then (takeWhile is_ascii_digit r, dropWhile is_ascii_digit r)
                            else ([], rest)
                          | [] \<Rightarrow> ([], []))
      in if whole = [] \<and> frac = [] then None
         else (case parse_exponent rest of None \<Rightarrow> None
               | Some e \<Rightarrow> Some (of_int (decimal (whole @ frac)) * pow10 (e - int (length frac)))))"

definition parse_f64 :: "bytes \<Rightarrow> f64 option" where
  "parse_f64 s =
     (let (neg, body) = (case s of c # rest \<Rightarrow>
                           if c = MINUS then (True, rest) else if c = 43 then (False, rest) else (False, s)
                         | [] \<Rightarrow> (False, []))
      in if eq_ignore_ascii_case body (bstr ''nan'') then Some NaN
         else if eq_ignore_ascii_case body (bstr ''inf'') \<or> eq_ignore_ascii_case body (bstr ''infinity'')
         then Some (if neg then NInf else PInf)
         else (case parse_number body of None \<Rightarrow> None
               | Some q \<Rightarrow> Some (if neg then f64_neg (round_f64 q) else round_f64 q)))"

subsection \<open>Facts\<close>

lemma cmp_simps [simp]:
  "cmp a b = Less \<longleftrightarrow> a < b" "cmp a b = Equal \<longleftrightarrow> a = b" "cmp a b = Greater \<longleftrightarrow> b < a"
  by (auto simp: cmp_def)

lemma cmp_bytes_Equal [simp]: "cmp_bytes xs ys = Equal \<longleftrightarrow> xs = ys"
  by (induction xs ys rule: cmp_bytes.induct) auto

lemma decimal_snoc: "decimal (ds @ [d]) = decimal ds * 10 + digit_val d"
  by (simp add: decimal_def)

lemma digit_val_range: "is_ascii_digit d \<Longrightarrow> 0 \<le> digit_val d \<and> digit_val d \<le> 9"
  by (auto simp: is_ascii_digit_def digit_val_def word_le_def uint_sub_if')

lemma decimal_nonneg: "0 \<le> decimal ds"
  by (induction ds rule: rev_induct) (simp_all add: decimal_snoc decimal_def digit_val_def)

declare valid_utf8.simps [simp del]
lemma valid_utf8_Nil [simp]: "valid_utf8 []" by (simp add: valid_utf8.simps)

lemma utf8_case:
  fixes a :: u8
  obtains (ascii) "a \<le> 127" | (none) "\<not> a \<le> 127" "a < 194 \<or> 244 < a" "\<not> (194 \<le> a \<and> a \<le> 223)"
      "\<not> (224 \<le> a \<and> a \<le> 239)" "\<not> (240 \<le> a \<and> a \<le> 244)"
  | (two) "\<not> a \<le> 127" "\<not> a < 194" "\<not> 244 < a" "194 \<le> a" "a \<le> 223" "a \<noteq> 224" "a \<noteq> 237" "a \<noteq> 240" "a \<noteq> 244"
  | (three) "\<not> a \<le> 127" "\<not> a < 194" "\<not> 244 < a" "\<not> a \<le> 223" "224 \<le> a" "a \<le> 239" "a \<noteq> 240" "a \<noteq> 244"
  | (four) "\<not> a \<le> 127" "\<not> a < 194" "\<not> 244 < a" "\<not> a \<le> 223" "\<not> a \<le> 239" "240 \<le> a" "a \<le> 244" "a \<noteq> 224" "a \<noteq> 237"
proof -
  consider (1) "unat a \<le> 127" | (2) "127 < unat a \<and> unat a < 194 \<or> 244 < unat a"
    | (3) "194 \<le> unat a \<and> unat a \<le> 223" | (4) "224 \<le> unat a \<and> unat a \<le> 239" | (5) "240 \<le> unat a \<and> unat a \<le> 244"
    by linarith
  then show thesis
    by cases (rule that(1) that(2) that(3) that(4) that(5);
      auto simp: word_le_nat_alt word_less_nat_alt word_unat_eq_iff; fail)+
qed

lemma valid_utf8_two:
  assumes "\<not> a \<le> 127" "194 \<le> a" "a \<le> 223"
  shows "valid_utf8 (a # rest) = (case rest of b # rest' \<Rightarrow> is_continuation b \<and> valid_utf8 rest' | _ \<Rightarrow> False)"
  by (simp only: valid_utf8.simps(2) assms if_False if_True simp_thms)

lemma valid_utf8_three:
  assumes "\<not> a \<le> 127" "\<not> a \<le> 223" "224 \<le> a" "a \<le> 239" "a \<noteq> 240" "a \<noteq> 244"
  shows "valid_utf8 (a # b # c # rest) = (second_byte_ok a b \<and> is_continuation c \<and> valid_utf8 rest)"
    "\<not> valid_utf8 [a]" "\<not> valid_utf8 [a, b]"
  by (simp_all only: valid_utf8.simps(2) [of a] assms if_False if_True simp_thms list.case second_byte_ok_def conj_ac)

lemma valid_utf8_four:
  assumes "\<not> a \<le> 127" "\<not> a \<le> 223" "\<not> a \<le> 239" "240 \<le> a" "a \<le> 244" "a \<noteq> 224" "a \<noteq> 237"
  shows "valid_utf8 (a # b # c # d # rest) =
      (second_byte_ok a b \<and> is_continuation c \<and> is_continuation d \<and> valid_utf8 rest)"
    "\<not> valid_utf8 [a]" "\<not> valid_utf8 [a, b]" "\<not> valid_utf8 [a, b, c]"
  by (simp_all only: valid_utf8.simps(2) [of a] assms if_False if_True simp_thms list.case second_byte_ok_def conj_ac)

lemma valid_utf8_head:
  "valid_utf8 (a # rest) \<longleftrightarrow> fst (utf8_head a rest) \<and> valid_utf8 (drop (snd (utf8_head a rest)) (a # rest))"
proof (rule utf8_case [of a])
  assume "a \<le> 127"
  then show ?thesis by (simp add: valid_utf8.simps(2) [of a] utf8_head_def)
next
  assume "\<not> a \<le> 127" "a < 194 \<or> 244 < a" "\<not> (194 \<le> a \<and> a \<le> 223)" "\<not> (224 \<le> a \<and> a \<le> 239)" "\<not> (240 \<le> a \<and> a \<le> 244)"
  then show ?thesis by (simp only: valid_utf8.simps(2) utf8_head_def if_False if_True simp_thms fst_conv)
next
  assume a: "\<not> a \<le> 127" "\<not> a < 194" "\<not> 244 < a" "194 \<le> a" "a \<le> 223" "a \<noteq> 224" "a \<noteq> 237" "a \<noteq> 240" "a \<noteq> 244"
  show ?thesis
    unfolding valid_utf8_two [OF a(1,4,5)] utf8_head_def
    using a by (cases rest) (simp_all add: second_byte_ok_def)
next
  assume a: "\<not> a \<le> 127" "\<not> a < 194" "\<not> 244 < a" "\<not> a \<le> 223" "224 \<le> a" "a \<le> 239" "a \<noteq> 240" "a \<noteq> 244"
  note v = valid_utf8_three [OF a(1,4-8)]
  consider "rest = []" | b where "rest = [b]" | b c r where "rest = b # c # r" by (metis list.exhaust)
  then show ?thesis by cases (use a in \<open>simp_all add: v utf8_head_def\<close>)
next
  assume a: "\<not> a \<le> 127" "\<not> a < 194" "\<not> 244 < a" "\<not> a \<le> 223" "\<not> a \<le> 239" "240 \<le> a" "a \<le> 244" "a \<noteq> 224" "a \<noteq> 237"
  note v = valid_utf8_four [OF a(1,4-9)]
  consider "rest = []" | b where "rest = [b]" | b c where "rest = [b, c]" | b c d r where "rest = b # c # d # r"
    by (metis list.exhaust)
  then show ?thesis by cases (use a in \<open>simp_all add: v utf8_head_def\<close>)
qed

lemma from_utf8_lossy_valid: "valid_utf8 bs \<Longrightarrow> from_utf8_lossy bs = bs"
proof (induction bs rule: from_utf8_lossy.induct)
  case (1 bs)
  show ?case
  proof (cases bs)
    case (Cons a rest)
    obtain ok n where h: "utf8_head a rest = (ok, n)" by fastforce
    with "1.prems" Cons have head: "ok" "valid_utf8 (drop n bs)" by (simp_all add: valid_utf8_head)
    from "1.IH" [OF Cons h [symmetric] head(2)] head(1) Cons h show ?thesis
      by (simp add: from_utf8_lossy.simps [of "a # rest"])
  qed (simp add: from_utf8_lossy.simps)
qed

definition multi_byte :: "u8 \<Rightarrow> bool" where
  "multi_byte a \<longleftrightarrow> \<not> a \<le> 127 \<and> \<not> (a < 194 \<or> 244 < a)"

lemma utf8_head_intros:
  "a \<le> 127 \<Longrightarrow> utf8_head a r = (True, 1)"
  "multi_byte a \<Longrightarrow> a \<le> 223 \<Longrightarrow> second_byte_ok a b \<Longrightarrow> utf8_head a (b # r) = (True, 2)"
  "multi_byte a \<Longrightarrow> \<not> a \<le> 223 \<Longrightarrow> a \<le> 239 \<Longrightarrow> second_byte_ok a b \<Longrightarrow> is_continuation c \<Longrightarrow>
    utf8_head a (b # c # r) = (True, 3)"
  "multi_byte a \<Longrightarrow> \<not> a \<le> 223 \<Longrightarrow> \<not> a \<le> 239 \<Longrightarrow> second_byte_ok a b \<Longrightarrow> is_continuation c \<Longrightarrow> is_continuation d \<Longrightarrow>
    utf8_head a (b # c # d # r) = (True, 4)"
  by (simp_all only: utf8_head_def multi_byte_def if_True if_False simp_thms list.case)

lemma utf8_head_cases:
  assumes "utf8_head a rest = (True, n)"
  obtains "a \<le> 127" "n = 1"
  | b r where "multi_byte a" "a \<le> 223" "second_byte_ok a b" "rest = b # r" "n = 2"
  | b c r where "multi_byte a" "\<not> a \<le> 223" "a \<le> 239" "second_byte_ok a b" "is_continuation c" "rest = b # c # r" "n = 3"
  | b c d r where "multi_byte a" "\<not> a \<le> 223" "\<not> a \<le> 239" "second_byte_ok a b" "is_continuation c" "is_continuation d"
      "rest = b # c # d # r" "n = 4"
  using assms unfolding utf8_head_def multi_byte_def
  by (simp only: split: if_split_asm list.split_asm) simp_all

lemma second_byte_continues: "second_byte_ok a b \<Longrightarrow> is_continuation b"
  by (simp add: second_byte_ok_def)

lemma utf8_head_local:
  assumes "utf8_head a (xs @ c # ys) = (True, n)" and "\<not> is_continuation c"
  shows "n \<le> Suc (length xs) \<and> utf8_head a xs = (True, n)"
  using assms(1)
proof (cases rule: utf8_head_cases)
  case 1
  then show ?thesis by (simp add: utf8_head_intros)
next
  case (2 b r)
  then show ?thesis using assms(2) by (cases xs) (auto simp: utf8_head_intros dest: second_byte_continues)
next
  case (3 b d r)
  then show ?thesis using assms(2)
    by (cases xs; cases "tl xs") (auto simp: utf8_head_intros dest: second_byte_continues)
next
  case (4 b d e r)
  then show ?thesis using assms(2)
    by (cases xs; cases "tl xs"; cases "tl (tl xs)") (auto simp: utf8_head_intros dest: second_byte_continues)
qed

lemma utf8_head_extend:
  assumes "utf8_head a rest = (True, n)"
  shows "n \<le> Suc (length rest) \<and> utf8_head a (rest @ ys) = (True, n)"
  using assms by (cases rule: utf8_head_cases) (auto simp: utf8_head_intros)

lemma valid_utf8_append: "valid_utf8 xs \<Longrightarrow> valid_utf8 (xs @ ys) \<longleftrightarrow> valid_utf8 ys"
proof (induction xs rule: from_utf8_lossy.induct)
  case (1 xs)
  show ?case
  proof (cases xs)
    case (Cons a rest)
    obtain ok n where h: "utf8_head a rest = (ok, n)" by fastforce
    with "1.prems" Cons have head: "ok" "valid_utf8 (drop n xs)" by (simp_all add: valid_utf8_head)
    with h have "utf8_head a (rest @ ys) = (True, n)" "n \<le> length xs"
      using utf8_head_extend [of a rest n ys] Cons by simp_all
    moreover from this(2) have "drop n (xs @ ys) = drop n xs @ ys" by simp
    ultimately show ?thesis using "1.IH" [OF Cons h [symmetric] head(2)] Cons
      by (simp add: valid_utf8_head [of a "rest @ ys"])
  qed simp
qed

lemma valid_utf8_split_ascii: "valid_utf8 (xs @ c # ys) \<Longrightarrow> c \<le> 127 \<Longrightarrow> valid_utf8 xs"
proof (induction xs rule: from_utf8_lossy.induct)
  case (1 xs)
  show ?case
  proof (cases xs)
    case (Cons a rest)
    obtain ok n where h: "utf8_head a (rest @ c # ys) = (ok, n)" by fastforce
    with "1.prems"(1) Cons have head: "ok" "valid_utf8 (drop n (xs @ c # ys))" by (simp_all add: valid_utf8_head)
    have "\<not> is_continuation c" using "1.prems"(2) by (auto simp: is_continuation_def word_le_nat_alt)
    with h head(1) Cons have le: "n \<le> length xs" and hd: "utf8_head a rest = (True, n)"
      using utf8_head_local [of a rest c ys n] by simp_all
    from le head(2) have "valid_utf8 (drop n xs @ c # ys)" by simp
    from "1.IH" [OF Cons hd [symmetric] this "1.prems"(2)] hd Cons show ?thesis
      by (simp add: valid_utf8_head)
  qed simp
qed

lemma valid_utf8_ascii: "c \<le> 127 \<Longrightarrow> valid_utf8 (c # ys) \<longleftrightarrow> valid_utf8 ys"
  by (simp add: valid_utf8.simps(2))

end
