(* ===== verification/Scan_Predicate.thy ===== *)
theory Scan_Predicate
  imports Rust_Std
begin

text \<open>
  Row predicates evaluated during scanning, \<^verbatim>\<open>ffwd-core/src/scan_predicate.rs\<close>. Strings are their
  UTF-8 bytes and an \<^verbatim>\<open>i64\<close> is an \<open>int\<close>. The substring search \<^verbatim>\<open>memchr::memmem::find\<close> is a
  parameter; \<open>memmem_finds\<close> states its documented meaning.

  The reference for the evaluator is a three-valued SQL semantics in which everything the
  evaluator leaves to the query engine is an arbitrary function.
\<close>

subsection \<open>Predicates and values\<close>

datatype ScalarValue = SStr bytes | SInt int | SFloat f64 | SBool bool | SNull

datatype CmpOp = Eq | Ne | Lt | Le | Gt | Ge

datatype ScanPredicate =
    Compare bytes CmpOp ScalarValue
  | InList bytes "ScalarValue list" bool
  | IsNull bytes bool
  | StartsWith bytes bytes
  | Contains bytes bytes
  | And "ScanPredicate list"
  | Or "ScanPredicate list"
  | Not' ScanPredicate

datatype ExtractedValue = EStr bytes | EInt int | EFloat f64 | EBool bool | ENull | EMissing

type_synonym memmem_find = "bytes \<Rightarrow> bytes \<Rightarrow> nat option"

fun references_field :: "ScanPredicate \<Rightarrow> bytes \<Rightarrow> bool" where
  "references_field (Compare field _ _) key = eq_ignore_ascii_case key field"
| "references_field (InList field _ _) key = eq_ignore_ascii_case key field"
| "references_field (IsNull field _) key = eq_ignore_ascii_case key field"
| "references_field (StartsWith field _) key = eq_ignore_ascii_case key field"
| "references_field (Contains field _) key = eq_ignore_ascii_case key field"
| "references_field (And preds) key = list_ex (\<lambda>p. references_field p key) preds"
| "references_field (Or preds) key = list_ex (\<lambda>p. references_field p key) preds"
| "references_field (Not' inner) key = references_field inner key"

fun strip_field :: "ScanPredicate \<Rightarrow> bytes \<Rightarrow> ScanPredicate option" where
  "strip_field (And preds) field_name =
     (if \<not> references_field (And preds) field_name then Some (And preds)
      else
        (let remaining = List.map_filter id (map (\<lambda>p. strip_field p field_name) preds)
         in case remaining of [] \<Rightarrow> None | [p] \<Rightarrow> Some p | _ \<Rightarrow> Some (And remaining)))"
| "strip_field p field_name = (if \<not> references_field p field_name then Some p else None)"

subsection \<open>Evaluation\<close>

fun apply_cmp_op :: "Ordering \<Rightarrow> CmpOp \<Rightarrow> bool" where
  "apply_cmp_op ord Eq = (ord = Equal)"
| "apply_cmp_op ord Ne = (ord \<noteq> Equal)"
| "apply_cmp_op ord Lt = (ord = Less)"
| "apply_cmp_op ord Le = (ord \<noteq> Greater)"
| "apply_cmp_op ord Gt = (ord = Greater)"
| "apply_cmp_op ord Ge = (ord \<noteq> Less)"

definition compare_floats :: "f64 \<Rightarrow> f64 \<Rightarrow> CmpOp \<Rightarrow> bool" where
  "compare_floats a b op =
     (case op of
        Eq \<Rightarrow> f64_eq a b
      | Ne \<Rightarrow> \<not> f64_eq a b
      | _ \<Rightarrow> (case f64_partial_cmp a b of Some ord \<Rightarrow> apply_cmp_op ord op | None \<Rightarrow> False))"

fun types_comparable :: "ExtractedValue \<Rightarrow> ScalarValue \<Rightarrow> bool" where
  "types_comparable (EStr _) (SStr _) = True"
| "types_comparable (EInt _) (SInt _) = True"
| "types_comparable (EFloat _) (SFloat _) = True"
| "types_comparable (EBool _) (SBool _) = True"
| "types_comparable (EInt _) (SFloat _) = True"
| "types_comparable (EFloat _) (SInt _) = True"
| "types_comparable (EStr _) (SInt _) = True"
| "types_comparable (EStr _) (SFloat _) = True"
| "types_comparable (EInt _) (SStr _) = True"
| "types_comparable (EFloat _) (SStr _) = True"
| "types_comparable ENull SNull = True"
| "types_comparable _ _ = False"

definition parse_i64_bytes :: "bytes \<Rightarrow> int option" where
  "parse_i64_bytes bs = (if valid_utf8 bs then parse_i64 bs else None)"

definition parse_f64_bytes :: "bytes \<Rightarrow> f64 option" where
  "parse_f64_bytes bs = (if valid_utf8 bs then parse_f64 bs else None)"

definition compare_values :: "ExtractedValue \<Rightarrow> CmpOp \<Rightarrow> ScalarValue \<Rightarrow> bool" where
  "compare_values extracted op literal =
     (if extracted = ENull \<or> extracted = EMissing then False
      else if literal = SNull then False
      else
        (case (extracted, literal) of
           (EStr bs, SStr lit) \<Rightarrow> apply_cmp_op (cmp_bytes bs lit) op
         | (EInt a, SInt b) \<Rightarrow> apply_cmp_op (cmp a b) op
         | (EFloat a, SFloat b) \<Rightarrow> compare_floats a b op
         | (EInt a, SFloat b) \<Rightarrow> compare_floats (f64_of_int a) b op
         | (EFloat a, SInt b) \<Rightarrow> compare_floats a (f64_of_int b) op
         | (EBool a, SBool b) \<Rightarrow> apply_cmp_op (cmp a b) op
         | (EStr bs, SInt b) \<Rightarrow>
             (case parse_i64_bytes bs of Some a \<Rightarrow> apply_cmp_op (cmp a b) op | None \<Rightarrow> True)
         | (EInt a, SStr s) \<Rightarrow>
             (case parse_i64 s of Some b \<Rightarrow> apply_cmp_op (cmp a b) op | None \<Rightarrow> True)
         | (EStr bs, SFloat b) \<Rightarrow>
             (case parse_f64_bytes bs of Some a \<Rightarrow> compare_floats a b op | None \<Rightarrow> True)
         | (EFloat a, SStr s) \<Rightarrow>
             (case parse_f64 s of Some b \<Rightarrow> compare_floats a b op | None \<Rightarrow> True)
         | _ \<Rightarrow> True))"

fun evaluate :: "memmem_find \<Rightarrow> (bytes \<Rightarrow> ExtractedValue) \<Rightarrow> ScanPredicate \<Rightarrow> bool" where
  "evaluate mm lookup (Compare field op value) = compare_values (lookup field) op value"
| "evaluate mm lookup (InList field values negated) =
     (let extracted = lookup field
      in if extracted = ENull \<or> extracted = EMissing then False
         else if list_ex (\<lambda>v. \<not> types_comparable extracted v) values then True
         else (let found = list_ex (\<lambda>v. compare_values extracted Eq v) values
               in if negated then \<not> found else found))"
| "evaluate mm lookup (IsNull field negated) =
     (let is_null = (lookup field = ENull \<or> lookup field = EMissing)
      in if negated then \<not> is_null else is_null)"
| "evaluate mm lookup (StartsWith field prefix) =
     (case lookup field of
        EStr bs \<Rightarrow> length prefix \<le> length bs \<and> take (length prefix) bs = prefix
      | _ \<Rightarrow> True)"
| "evaluate mm lookup (Contains field substring) =
     (case lookup field of EStr bs \<Rightarrow> mm bs substring \<noteq> None | _ \<Rightarrow> True)"
| "evaluate mm lookup (And preds) = list_all (evaluate mm lookup) preds"
| "evaluate mm lookup (Or preds) = list_ex (evaluate mm lookup) preds"
| "evaluate mm lookup (Not' inner) = (\<not> evaluate mm lookup inner)"

subsection \<open>Substring search\<close>

definition occurs_at :: "bytes \<Rightarrow> bytes \<Rightarrow> nat \<Rightarrow> bool" where
  "occurs_at haystack needle i \<longleftrightarrow>
     i + length needle \<le> length haystack \<and> take (length needle) (drop i haystack) = needle"


text \<open>A concrete search with that meaning.\<close>

definition naive_memmem :: memmem_find where
  "naive_memmem haystack needle =
     List.find (occurs_at haystack needle) [0..<Suc (length haystack)]"



subsection \<open>Which fields matter\<close>

lemma evaluate_cong:
  "(\<forall>name. references_field p name \<longrightarrow> lookup name = lookup' name) \<Longrightarrow>
   evaluate mm lookup p = evaluate mm lookup' p"
proof (induction p)
  case (And preds)
  then show ?case by (auto simp: list_all_iff list_ex_iff)
next
  case (Or preds)
  then show ?case by (auto simp: list_ex_iff)
qed (simp_all add: eq_ignore_ascii_case_def)

lemma references_field_cong:
  "eq_ignore_ascii_case a b \<Longrightarrow> references_field p a = references_field p b"
  by (induction p) (auto simp: eq_ignore_ascii_case_def list_ex_iff)

subsection \<open>Stripping a field\<close>

lemma strip_field_And_refs:
  assumes "references_field (And preds) f"
  shows "strip_field (And preds) f = Some q \<longleftrightarrow>
    (let remaining = List.map_filter id (map (\<lambda>p. strip_field p f) preds)
     in remaining \<noteq> [] \<and> q = (if length remaining = 1 then hd remaining else And remaining))"
  using assms by (auto simp: Let_def split: list.splits)

lemma map_filter_id: "List.map_filter id (map g xs) = map (the \<circ> g) (filter (\<lambda>x. g x \<noteq> None) xs)"
  by (induction xs) (auto simp: List.map_filter_def)

lemma strip_field_sound:
  "strip_field p f = Some q \<Longrightarrow>
     \<not> references_field q f \<and> (evaluate mm lookup p \<longrightarrow> evaluate mm lookup q)"
proof (induction p arbitrary: q)
  case (And preds)
  show ?case
  proof (cases "references_field (And preds) f")
    case False
    with And.prems show ?thesis by auto
  next
    case True
    let ?kept = "filter (\<lambda>p. strip_field p f \<noteq> None) preds" and ?s = "\<lambda>p. the (strip_field p f)"
    have q: "?kept \<noteq> []" "q = (if length ?kept = 1 then ?s (hd ?kept) else And (map ?s ?kept))"
      using And.prems strip_field_And_refs [OF True, of q] by (auto simp: Let_def map_filter_id comp_def hd_map)
    have IH: "\<not> references_field (?s p) f \<and> (evaluate mm lookup p \<longrightarrow> evaluate mm lookup (?s p))"
      if "p \<in> set ?kept" for p
      using that And.IH [of p] by auto
    then show ?thesis
      using q(1) hd_in_set [OF q(1)] by (auto simp: q(2) list_ex_iff list_all_iff)
  qed
qed (auto split: if_splits)

text \<open>
  Property C33. Removing a field from a predicate (done when the field cannot be evaluated by the
  scanner) only weakens it: the stripped predicate no longer mentions the field, and every row
  the original predicate keeps is still kept; and the evaluator looks at no field that the
  predicate does not reference.
\<close>

theorem strip_field_weakens:
  assumes "strip_field p f = Some q"
  shows "\<not> references_field q f \<and>
    (evaluate mm lookup p \<longrightarrow> evaluate mm lookup q) \<and>
    (\<forall>v. evaluate mm (\<lambda>name. if eq_ignore_ascii_case name f then v else lookup name) q =
       evaluate mm lookup q)"
proof -
  have refs: "\<not> references_field q f" using strip_field_sound [OF assms] by blast
  have "\<not> eq_ignore_ascii_case name f" if "references_field q name" for name
    using refs that references_field_cong [of name f q] by blast
  then show ?thesis
    using strip_field_sound [OF assms] by (auto intro!: evaluate_cong)
qed

theorem strip_field_weakens_witness:
  "\<not> references_field (Compare (bstr ''level'') Eq (SStr (bstr ''ERROR''))) (bstr ''_LINE'')"
proof -
  let ?p = "Compare (bstr ''level'') Eq (SStr (bstr ''ERROR''))"
  have "strip_field (And [?p, IsNull (bstr ''_line'') True]) (bstr ''_LINE'') = Some ?p"
    by code_simp
  from strip_field_weakens [OF this] show ?thesis by blast
qed

subsection \<open>Against SQL semantics\<close>

text \<open>
  Three-valued SQL evaluation of a predicate on a row. Comparisons that the scanner does not
  decide (incomparable types, strings that do not parse as numbers, LIKE on non-strings) are
  whatever the query engine makes of them: the arbitrary functions \<open>engine\<close> and \<open>engine_like\<close>.
\<close>

fun decided :: "ExtractedValue \<Rightarrow> ScalarValue \<Rightarrow> bool" where
  "decided (EStr bs) (SInt _) = (parse_i64_bytes bs \<noteq> None)"
| "decided (EInt _) (SStr s) = (parse_i64 s \<noteq> None)"
| "decided (EStr bs) (SFloat _) = (parse_f64_bytes bs \<noteq> None)"
| "decided (EFloat _) (SStr s) = (parse_f64 s \<noteq> None)"
| "decided e v = types_comparable e v"

definition not3 :: "bool option \<Rightarrow> bool option" where
  "not3 = map_option HOL.Not"

definition and3 :: "bool option list \<Rightarrow> bool option" where
  "and3 xs = (if Some False \<in> set xs then Some False else if None \<in> set xs then None else Some True)"

definition or3 :: "bool option list \<Rightarrow> bool option" where
  "or3 xs = (if Some True \<in> set xs then Some True else if None \<in> set xs then None else Some False)"

type_synonym engine_cmp = "ExtractedValue \<Rightarrow> CmpOp \<Rightarrow> ScalarValue \<Rightarrow> bool option"
type_synonym engine_like = "ExtractedValue \<Rightarrow> bytes \<Rightarrow> bool option"

definition sql_compare :: "engine_cmp \<Rightarrow> ExtractedValue \<Rightarrow> CmpOp \<Rightarrow> ScalarValue \<Rightarrow> bool option" where
  "sql_compare engine e op v =
     (if e = ENull \<or> e = EMissing \<or> v = SNull then None
      else if decided e v then Some (compare_values e op v) else engine e op v)"

fun sql3 :: "engine_cmp \<Rightarrow> engine_like \<Rightarrow> (bytes \<Rightarrow> ExtractedValue) \<Rightarrow> ScanPredicate \<Rightarrow> bool option" where
  "sql3 engine like lookup (Compare f op v) = sql_compare engine (lookup f) op v"
| "sql3 engine like lookup (InList f vs negated) =
     (let r = or3 (map (sql_compare engine (lookup f) Eq) vs) in if negated then not3 r else r)"
| "sql3 engine like lookup (IsNull f negated) =
     Some (negated \<noteq> (lookup f = ENull \<or> lookup f = EMissing))"
| "sql3 engine like lookup (StartsWith f p) =
     (case lookup f of EStr bs \<Rightarrow> Some (occurs_at bs p 0) | e \<Rightarrow> like e p)"
| "sql3 engine like lookup (Contains f p) =
     (case lookup f of EStr bs \<Rightarrow> Some (\<exists>i\<le>length bs. occurs_at bs p i) | e \<Rightarrow> like e p)"
| "sql3 engine like lookup (And ps) = and3 (map (sql3 engine like lookup) ps)"
| "sql3 engine like lookup (Or ps) = or3 (map (sql3 engine like lookup) ps)"
| "sql3 engine like lookup (Not' p) = not3 (sql3 engine like lookup p)"










text \<open>A number literal that the string \<open>bs\<close> cannot be read as.\<close>

fun numeric_literal :: "ScalarValue \<Rightarrow> bool" where
  "numeric_literal (SInt _) = True"
| "numeric_literal (SFloat _) = True"
| "numeric_literal _ = False"

fun unreadable :: "bytes \<Rightarrow> ScalarValue \<Rightarrow> bool" where
  "unreadable bs (SInt _) = (parse_i64_bytes bs = None)"
| "unreadable bs (SFloat _) = (parse_f64_bytes bs = None)"
| "unreadable bs _ = False"

lemma unreadable_matches: "unreadable bs v \<Longrightarrow> compare_values (EStr bs) op v"
  by (cases v) (simp_all add: compare_values_def)

lemma numeric_comparable: "numeric_literal v \<Longrightarrow> types_comparable (EStr bs) v"
  by (cases v) simp_all

text \<open>
  Property C35. With negation the pre-filter drops rows the query would return. A row whose field is a
  string that cannot be read as a number is dropped by every \<^verbatim>\<open>NOT IN\<close> over number literals, one of
  which the string cannot be read as, because the failed coercion counts as a match. SQL evaluates
  that predicate to true whenever the engine finds the string different from all the literals. The
  negated comparison with such a literal has the same effect.
\<close>

theorem negated_coercion_drops_row:
  assumes "lookup f = EStr bs" and "list_all numeric_literal vs" and "list_ex (unreadable bs) vs"
    and "list_all (\<lambda>v. sql_compare engine (EStr bs) Eq v = Some False) vs"
  shows "sql3 engine like lookup (InList f vs True) = Some True \<and> \<not> evaluate mm lookup (InList f vs True) \<and>
    (\<forall>v\<in>set vs. unreadable bs v \<longrightarrow>
       sql3 engine like lookup (Not' (Compare f Eq v)) = Some True \<and> \<not> evaluate mm lookup (Not' (Compare f Eq v)))"
proof (intro conjI ballI impI)
  have "map (sql_compare engine (EStr bs) Eq) vs = replicate (length vs) (Some False)"
    using assms(4) by (induction vs) simp_all
  then show "sql3 engine like lookup (InList f vs True) = Some True"
    using assms(1) by (simp add: or3_def not3_def)
  show "\<not> evaluate mm lookup (InList f vs True)"
    using assms(1-3) by (auto simp: Let_def list_all_iff list_ex_iff intro: unreadable_matches numeric_comparable)
next
  fix v
  assume "v \<in> set vs" "unreadable bs v"
  then show "sql3 engine like lookup (Not' (Compare f Eq v)) = Some True" "\<not> evaluate mm lookup (Not' (Compare f Eq v))"
    using assms(1,4) unreadable_matches [of bs v Eq] by (simp_all add: list_all_iff not3_def)
qed

theorem negated_coercion_drops_row_witness:
  "sql3 (\<lambda>_ op _. Some (op = Ne)) (\<lambda>_ _. None) (\<lambda>_. EStr (bstr ''abc'')) (InList (bstr ''code'') [SInt 1, SFloat (Fin 2)] True) =
     Some True \<and>
   \<not> evaluate naive_memmem (\<lambda>_. EStr (bstr ''abc'')) (InList (bstr ''code'') [SInt 1, SFloat (Fin 2)] True)"
proof -
  have read: "parse_i64_bytes (bstr ''abc'') = None" "parse_f64_bytes (bstr ''abc'') = None" by code_simp+
  then have "list_all (\<lambda>v. sql_compare (\<lambda>_ op _. Some (op = Ne)) (EStr (bstr ''abc'')) Eq v = Some False)
      [SInt 1, SFloat (Fin 2)]" by (simp add: sql_compare_def)
  with read show ?thesis
    by (intro conjI conjunct1 [OF negated_coercion_drops_row]
        conjunct1 [OF conjunct2 [OF negated_coercion_drops_row]]) simp_all
qed

end
