(* ===== verification/Json_Escape.thy ===== *)
theory Json_Escape
  imports Cri Rust_Std
begin

text \<open>
  JSON string escape decoding of \<^verbatim>\<open>ffwd-core/src/json_scanner.rs\<close> (\<^verbatim>\<open>decode_json_escapes\<close>,
  \<^verbatim>\<open>decode_unicode_escape\<close>, \<^verbatim>\<open>parse_hex4\<close>), and its relation to the escaping that the CRI
  writer applies. The output vector is returned; positions are offsets into the input slice.
\<close>

subsection \<open>Decoding\<close>

definition hex_value :: "u8 \<Rightarrow> u8 option" where
  "hex_value b =
     (if 48 \<le> b \<and> b \<le> 57 then Some (b - 48)
      else if 97 \<le> b \<and> b \<le> 102 then Some (b - 97 + 10)
      else if 65 \<le> b \<and> b \<le> 70 then Some (b - 65 + 10)
      else None)"

fun hex_loop :: "nat \<Rightarrow> u16 \<Rightarrow> bytes \<Rightarrow> u16 option" where
  "hex_loop 0 val bs = Some val"
| "hex_loop (Suc n) val [] = None"
| "hex_loop (Suc n) val (b # bs) =
     (case hex_value b of None \<Rightarrow> None
      | Some digit \<Rightarrow> hex_loop n (push_bit 4 val OR ucast digit) bs)"

definition parse_hex4 :: "bytes \<Rightarrow> u16 option" where
  "parse_hex4 bs = (if length bs < 4 then None else hex_loop 4 0 bs)"

text \<open>The new position and the extended output.\<close>

definition decode_unicode_escape :: "bytes \<Rightarrow> nat \<Rightarrow> bytes \<Rightarrow> nat \<times> bytes" where
  "decode_unicode_escape input pos out =
     (if length input < pos + 6 then (pos + 1, out @ [BACKSLASH])
      else (case parse_hex4 (subslice input (pos + 2) (pos + 6)) of
        None \<Rightarrow> (pos + 1, out @ [BACKSLASH])
      | Some cp \<Rightarrow>
          if 0xD800 \<le> cp \<and> cp \<le> 0xDBFF then
            (case (if pos + 12 \<le> length input \<and> input ! (pos + 6) = BACKSLASH \<and> input ! (pos + 7) = 117
                   then parse_hex4 (subslice input (pos + 8) (pos + 12)) else None) of
               Some lo \<Rightarrow>
                 if 0xDC00 \<le> lo \<and> lo \<le> 0xDFFF then
                   (let full = 0x10000 + push_bit 10 (ucast cp - 0xD800) + (ucast lo - 0xDC00) :: u32
                    in case char_from_u32 full of
                         Some c \<Rightarrow> (pos + 12, out @ encode_utf8 c)
                       | None \<Rightarrow> (pos + 6, out @ subslice input pos (pos + 6)))
                 else (pos + 6, out @ subslice input pos (pos + 6))
             | None \<Rightarrow> (pos + 6, out @ subslice input pos (pos + 6)))
          else if 0xDC00 \<le> cp \<and> cp \<le> 0xDFFF then (pos + 6, out @ subslice input pos (pos + 6))
          else (case char_from_u32 (ucast cp) of
                  Some c \<Rightarrow> (pos + 6, out @ encode_utf8 c)
                | None \<Rightarrow> (pos + 6, out @ subslice input pos (pos + 6)))))"

text \<open>One iteration of the decoding loop.\<close>

definition decode_step :: "bytes \<Rightarrow> nat \<Rightarrow> bytes \<Rightarrow> nat \<times> bytes" where
  "decode_step input i out =
     (if input ! i \<noteq> BACKSLASH \<or> length input \<le> i + 1 then (i + 1, out @ [input ! i])
      else
        (let e = input ! (i + 1)
         in if e = QUOTE then (i + 2, out @ [QUOTE])
            else if e = BACKSLASH then (i + 2, out @ [BACKSLASH])
            else if e = SLASH then (i + 2, out @ [SLASH])
            else if e = 98 then (i + 2, out @ [8])
            else if e = 102 then (i + 2, out @ [12])
            else if e = 110 then (i + 2, out @ [NL])
            else if e = 114 then (i + 2, out @ [CR])
            else if e = 116 then (i + 2, out @ [TAB])
            else if e = 117 then decode_unicode_escape input i out
            else (i + 1, out @ [BACKSLASH])))"

lemma decode_unicode_escape_advances: "pos < fst (decode_unicode_escape input pos out)"
  by (auto simp: decode_unicode_escape_def Let_def split: option.splits)

lemma decode_step_advances: "i < fst (decode_step input i out)"
  using decode_unicode_escape_advances [of i input out] by (auto simp: decode_step_def Let_def)

function decode_loop :: "bytes \<Rightarrow> nat \<Rightarrow> bytes \<Rightarrow> bytes" where
  "decode_loop input i out =
     (if i < length input
      then (case decode_step input i out of (i', out') \<Rightarrow> decode_loop input i' out')
      else out)"
  by pat_completeness auto
termination
proof (relation "measure (\<lambda>(input, i, out). length input - i)", goal_cases)
  case (2 input i out i' out')
  then have "i < i'" using decode_step_advances [of i input out] by (metis fst_conv)
  with 2(1) show ?case by simp
qed simp

declare decode_loop.simps [simp del]

definition decode_json_escapes :: "bytes \<Rightarrow> bytes" where
  "decode_json_escapes input = decode_loop input 0 []"

lemma decode_loop_step:
  "i < length input \<Longrightarrow> decode_step input i out = (i', out') \<Longrightarrow> decode_loop input i out = decode_loop input i' out'"
  by (simp add: decode_loop.simps [of input i out])

lemma decode_loop_end: "length input \<le> i \<Longrightarrow> decode_loop input i out = out"
  by (simp add: decode_loop.simps [of input i out])

subsection \<open>Escaping and decoding\<close>

lemma hex_value_digit: "hex_value (hex_digit_lower (b AND 15)) = Some (b AND 15)"
  by (rule nibble_check) code_simp

lemma hex4_escape:
  "parse_hex4 [48, 48, hex_digit_lower (drop_bit 4 b AND 15), hex_digit_lower (b AND 15)] = Some (ucast b)"
proof -
  have low: "c AND 15 = take_bit 4 c" for c :: u8
    by (simp add: take_bit_eq_mask mask_eq_exp_minus_1)
  have "push_bit 4 (ucast (drop_bit 4 b AND 15)) OR ucast (b AND 15) = (ucast b :: u16)"
    unfolding low
  proof (rule bit_word_eqI)
    fix n assume "n < LENGTH(16)"
    then show "bit (push_bit 4 (ucast (take_bit 4 (drop_bit 4 b))) OR ucast (take_bit 4 b) :: u16) n \<longleftrightarrow> bit (ucast b :: u16) n"
      using bit_imp_le_length [of b n]
      by (cases "4 \<le> n") (auto simp: bit_or_iff bit_push_bit_iff bit_ucast_iff bit_take_bit_iff bit_drop_bit_eq)
  qed
  moreover have "hex_value 48 = Some 0" by (simp add: hex_value_def)
  ultimately show ?thesis
    by (simp add: parse_hex4_def numeral_eq_Suc hex_value_digit)
qed

lemma unicode_escape_control:
  assumes "b \<le> 31 \<or> b = 127"
  shows "decode_unicode_escape (pre @ [BACKSLASH, 117, 48, 48, hex_digit_lower (drop_bit 4 b AND 15),
      hex_digit_lower (b AND 15)] @ rest) (length pre) out = (length pre + 6, out @ [b])"
proof -
  have small: "unat b < 128" using assms by (auto simp: word_le_nat_alt)
  have unat_up: "unat (ucast b :: u16) = unat b" "unat (ucast b :: u32) = unat b"
    using small by (simp_all add: unsigned_ucast_eq take_bit_nat_eq_self)
  with small have u16: "\<not> 0xD800 \<le> (ucast b :: u16)" "\<not> 0xDC00 \<le> (ucast b :: u16)"
    by (simp_all add: word_le_nat_alt)
  have u32: "ucast (ucast b :: u16) = (ucast b :: u32)"
    by (rule bit_word_eqI) (auto simp: bit_ucast_iff dest: bit_imp_le_length)
  have "ucast (ucast b :: u32) = b"
    by (rule bit_word_eqI) (auto simp: bit_ucast_iff)
  then have "char_from_u32 (ucast b) = Some (ucast b)" "encode_utf8 (ucast b) = [b]"
    using small unat_up by (simp_all add: char_from_u32_def encode_utf8_def word_less_nat_alt word_le_nat_alt)
  moreover have "subslice (pre @ [BACKSLASH, 117, 48, 48, hex_digit_lower (drop_bit 4 b AND 15),
      hex_digit_lower (b AND 15)] @ rest) (length pre + 2) (length pre + 6) =
      [48, 48, hex_digit_lower (drop_bit 4 b AND 15), hex_digit_lower (b AND 15)]"
    by (simp add: subslice_def numeral_eq_Suc)
  ultimately show ?thesis
    using u16 u32 by (simp add: decode_unicode_escape_def hex4_escape)
qed

lemma decode_step_escape:
  "decode_step (pre @ json_escape_byte b @ rest) (length pre) out =
     (length pre + length (json_escape_byte b), out @ [b])"
proof (cases "json_escape_byte b = [b]")
  case True
  have "b \<noteq> BACKSLASH" using True by (auto simp: json_escape_byte_def)
  then show ?thesis by (simp add: True decode_step_def)
next
  case plain: False
  show ?thesis
  proof (cases "b \<in> {QUOTE, BACKSLASH, 8, TAB, NL, 12, CR}")
    case True
    then show ?thesis
      by (elim insertE) (simp_all add: json_escape_byte_def decode_step_def nth_append)
  next
    case False
    then have ctrl: "b \<le> 31 \<or> b = 127" using plain by (auto simp: json_escape_byte_def split: if_splits)
    have esc: "json_escape_byte b = [BACKSLASH, 117, 48, 48, hex_digit_lower (drop_bit 4 b AND 15), hex_digit_lower (b AND 15)]"
      using False ctrl by (auto simp: json_escape_byte_def)
    from unicode_escape_control [OF ctrl, of pre rest out] show ?thesis
      by (simp add: esc decode_step_def nth_append)
  qed
qed

lemma json_escape_byte_nonempty: "json_escape_byte b \<noteq> []"
  by (simp add: json_escape_byte_def)

lemma decode_loop_escaped:
  "decode_loop (pre @ concat (map json_escape_byte src)) (length pre) out = out @ src"
proof (induction src arbitrary: pre out)
  case Nil
  then show ?case by (simp add: decode_loop_end)
next
  case (Cons b src)
  let ?input = "pre @ json_escape_byte b @ concat (map json_escape_byte src)"
  have "decode_loop ?input (length pre) out =
      decode_loop ?input (length pre + length (json_escape_byte b)) (out @ [b])"
    using decode_step_escape json_escape_byte_nonempty [of b] by (intro decode_loop_step) simp_all
  also have "\<dots> = (out @ [b]) @ src"
    using Cons.IH [of "pre @ json_escape_byte b" "out @ [b]"] by simp
  finally show ?case by simp
qed

text \<open>
  Property C39. Escaping and decoding are inverse on every byte string: what the CRI writer puts
  into a JSON string value is decoded back to the original bytes by the scanner, whatever the
  bytes are, control characters, quotes, backslashes and non-ASCII bytes included.
\<close>

theorem escape_decode_roundtrip: "decode_json_escapes (json_escape_bytes src []) = src"
  using decode_loop_escaped [of "[]" src "[]"]
  by (simp add: decode_json_escapes_def json_escape_bytes_eq)

subsection \<open>Bounds and the escape-free fast path\<close>

lemma encode_utf8_length: "length (encode_utf8 c) \<le> 4" "c < 0x10000 \<Longrightarrow> length (encode_utf8 c) \<le> 3"
  by (auto simp: encode_utf8_def)

lemma ucast_bmp: "(ucast (cp :: u16) :: u32) < 0x10000"
proof -
  have "unat cp < 65536" using unsigned_less [of cp, where ?'a = nat] by simp
  then show ?thesis by (simp add: word_less_nat_alt unsigned_ucast_eq take_bit_nat_eq_self)
qed

text \<open>A decoding step consumes \<open>i' - i\<close> bytes and appends at most that many.\<close>

definition decode_fits :: "bytes \<Rightarrow> nat \<Rightarrow> bytes \<Rightarrow> nat \<times> bytes \<Rightarrow> bool" where
  "decode_fits input i out r \<longleftrightarrow> length (snd r) + i \<le> length out + fst r \<and> fst r \<le> length input"

lemma decode_fits_raw: "i + 6 \<le> length input \<Longrightarrow> decode_fits input i out (i + 6, out @ subslice input i (i + 6))"
  by (simp add: decode_fits_def)

lemma decode_fits_pair: "i + 12 \<le> length input \<Longrightarrow> decode_fits input i out (i + 12, out @ encode_utf8 c)"
  using encode_utf8_length(1) [of c] by (simp add: decode_fits_def)

lemma decode_fits_bmp: "i + 6 \<le> length input \<Longrightarrow> c < 0x10000 \<Longrightarrow> decode_fits input i out (i + 6, out @ encode_utf8 c)"
  using encode_utf8_length(2) [of c] by (simp add: decode_fits_def)

lemma decode_fits_byte: "i < length input \<Longrightarrow> decode_fits input i out (i + 1, out @ [b])"
  by (simp add: decode_fits_def)

lemma decode_fits_two: "i + 1 < length input \<Longrightarrow> decode_fits input i out (i + 2, out @ [b])"
  by (simp add: decode_fits_def)

lemma char_from_u32_Some: "char_from_u32 n = Some c \<Longrightarrow> c = n"
  by (simp add: char_from_u32_def split: if_splits)

lemma decode_unicode_escape_fits:
  assumes "i < length input"
  shows "decode_fits input i out (decode_unicode_escape input i out)"
proof (cases "i + 6 \<le> length input \<and> parse_hex4 (subslice input (i + 2) (i + 6)) \<noteq> None")
  case False
  then have "decode_unicode_escape input i out = (i + 1, out @ [BACKSLASH])"
    by (auto simp: decode_unicode_escape_def not_le)
  then show ?thesis using decode_fits_byte [OF assms] by simp
next
  case True
  then obtain cp where cp: "parse_hex4 (subslice input (i + 2) (i + 6)) = Some cp" and len: "i + 6 \<le> length input"
    by blast
  note raw = decode_fits_raw [OF len] and bmp = decode_fits_bmp [OF len]
  show ?thesis
    unfolding decode_unicode_escape_def using cp len bmp [OF ucast_bmp] raw decode_fits_pair [of i input]
    by (auto simp: not_less Let_def dest: char_from_u32_Some split: option.splits if_splits)
qed

lemma decode_step_fits:
  assumes "i < length input"
  shows "decode_fits input i out (decode_step input i out)"
proof (cases "input ! i \<noteq> BACKSLASH \<or> length input \<le> i + 1")
  case True
  then show ?thesis using decode_fits_byte [OF assms] by (simp add: decode_step_def)
next
  case False
  then have "i + 1 < length input" by simp
  with False show ?thesis
    using decode_fits_two decode_fits_byte [OF assms] decode_unicode_escape_fits [OF assms]
    unfolding decode_step_def Let_def by simp
qed

lemma decode_loop_length:
  "i \<le> length input \<Longrightarrow> length (decode_loop input i out) + i \<le> length out + length input"
proof (induction input i out rule: decode_loop.induct)
  case (1 input i out)
  show ?case
  proof (cases "i < length input")
    case True
    obtain i' out' where step: "decode_step input i out = (i', out')" by fastforce
    have "length out' + i \<le> length out + i'" "i' \<le> length input"
      using decode_step_fits [OF True, of out] by (simp_all add: step decode_fits_def)
    with "1.IH" [OF True step [symmetric]] decode_loop_step [OF True step] show ?thesis by simp
  qed (use 1 in \<open>simp add: decode_loop_end\<close>)
qed

lemma decode_loop_plain:
  "BACKSLASH \<notin> set input \<Longrightarrow> i \<le> length input \<Longrightarrow> decode_loop input i out = out @ drop i input"
proof (induction input i out rule: decode_loop.induct)
  case (1 input i out)
  show ?case
  proof (cases "i < length input")
    case True
    with 1 have "input ! i \<noteq> BACKSLASH" by (metis nth_mem)
    then have step: "decode_step input i out = (i + 1, out @ [input ! i])" by (simp add: decode_step_def)
    with "1.IH" [OF True step [symmetric]] "1.prems" True show ?thesis
      by (simp add: decode_loop_step [OF True step] Cons_nth_drop_Suc)
  qed (use 1 in \<open>simp add: decode_loop_end\<close>)
qed

text \<open>
  Property C40. Decoding never grows a string (so the space reserved for the output is always
  enough), and it leaves a string without backslashes unchanged, which justifies the scanner's
  shortcut of passing such strings through without decoding.
\<close>

theorem decode_bounds:
  "length (decode_json_escapes input) \<le> length input \<and>
   (BACKSLASH \<in> set input \<or> decode_json_escapes input = input)"
  using decode_loop_length [of 0 input "[]"] decode_loop_plain [of input 0 "[]"]
  by (auto simp: decode_json_escapes_def)

end
