(* ===== verification/Scan_Config.thy ===== *)
theory Scan_Config
  imports Scan_Predicate
begin

text \<open>
  Scan configuration and the fast number parsers of \<^verbatim>\<open>ffwd-core/src/scan_config.rs\<close>.
\<close>

record FieldSpec =
  field_name :: bytes
  aliases :: "bytes list"

record ScanConfig =
  wanted_fields :: "FieldSpec list"
  extract_all :: bool
  line_field_name :: "bytes option"
  validate_utf8 :: bool
  row_predicate :: "ScanPredicate option"

definition scan_config_default :: ScanConfig where
  "scan_config_default =
     \<lparr>wanted_fields = [], extract_all = True, line_field_name = None, validate_utf8 = False,
      row_predicate = None\<rparr>"

definition captures_line :: "ScanConfig \<Rightarrow> bool" where
  "captures_line config \<longleftrightarrow> line_field_name config \<noteq> None"

definition is_wanted :: "ScanConfig \<Rightarrow> bytes \<Rightarrow> bool" where
  "is_wanted config key =
     (if extract_all config then True
      else list_ex (\<lambda>fs. eq_ignore_ascii_case key (field_name fs) \<or>
                        list_ex (\<lambda>a. eq_ignore_ascii_case key a) (aliases fs))
             (wanted_fields config))"

text \<open>\<^verbatim>\<open>checked_mul\<close>, then \<^verbatim>\<open>checked_sub\<close> or \<^verbatim>\<open>checked_add\<close>, each with early return.\<close>

fun parse_digits :: "bool \<Rightarrow> int \<Rightarrow> bytes \<Rightarrow> int option" where
  "parse_digits neg acc [] = Some acc"
| "parse_digits neg acc (b # bs) =
     (if \<not> is_ascii_digit b then None
      else (case checked_i64 (acc * 10) of None \<Rightarrow> None
            | Some acc \<Rightarrow>
                (case checked_i64 (if neg then acc - uint (b - 48) else acc + uint (b - 48)) of
                   None \<Rightarrow> None
                 | Some acc \<Rightarrow> parse_digits neg acc bs)))"

definition parse_int_fast :: "bytes \<Rightarrow> int option" where
  "parse_int_fast bs =
     (if bs = [] then None
      else
        (let (neg, start) = (if bs ! 0 = MINUS then (True, 1) else (False, 0))
         in if length bs \<le> start then None
            else parse_digits neg 0 (drop start bs)))"

definition parse_float_fast :: "bytes \<Rightarrow> f64 option" where
  "parse_float_fast bs = (if valid_utf8 bs then parse_f64 bs else None)"

subsection \<open>Integers\<close>

text \<open>Continuing a decimal from an accumulator.\<close>

definition decimal_from :: "int \<Rightarrow> bytes \<Rightarrow> int" where
  "decimal_from acc ds = foldl (\<lambda>acc d. acc * 10 + digit_val d) acc ds"

lemma decimal_from_simps [simp]:
  "decimal_from acc [] = acc" "decimal_from acc (d # ds) = decimal_from (acc * 10 + digit_val d) ds"
  by (simp_all add: decimal_from_def)

lemma decimal_from_mono: "0 \<le> acc \<Longrightarrow> acc \<le> decimal_from acc ds"
proof (induction ds arbitrary: acc)
  case (Cons d ds)
  have "0 \<le> digit_val d" by (simp add: digit_val_def)
  with Cons.prems have "acc \<le> acc * 10 + digit_val d" "0 \<le> acc * 10 + digit_val d" by simp_all
  with Cons.IH [of "acc * 10 + digit_val d"] show ?case by simp
qed simp

definition sign_of :: "bool \<Rightarrow> int" where
  "sign_of neg = (if neg then - 1 else 1)"

lemma i64_ok_smaller: "0 \<le> a \<Longrightarrow> a \<le> b \<Longrightarrow> i64_ok (sign_of neg * b) \<Longrightarrow> i64_ok (sign_of neg * a)"
  by (auto simp: i64_ok_def sign_of_def split: if_splits)

lemma parse_digits_exact:
  assumes "0 \<le> m" and "i64_ok (sign_of neg * m)"
  shows "parse_digits neg (sign_of neg * m) ds =
    (if all_digits ds \<and> i64_ok (sign_of neg * decimal_from m ds)
     then Some (sign_of neg * decimal_from m ds) else None)"
  using assms
proof (induction ds arbitrary: m)
  case Nil
  then show ?case by (simp add: all_digits_def)
next
  case (Cons d ds)
  let ?m = "m * 10 + digit_val d"
  have d: "0 \<le> digit_val d" by (simp add: digit_val_def)
  have m: "0 \<le> ?m" using Cons.prems d by simp
  have next_acc: "(if neg then sign_of neg * m * 10 - uint (d - 48) else sign_of neg * m * 10 + uint (d - 48)) =
      sign_of neg * ?m"
    by (simp add: sign_of_def digit_val_def)
  show ?case
  proof (cases "i64_ok (sign_of neg * ?m)")
    case True
    moreover from this have "i64_ok (sign_of neg * m * 10)"
      using i64_ok_smaller [of "m * 10" ?m neg] Cons.prems d by (simp add: mult.assoc)
    ultimately show ?thesis
      using Cons.IH [OF m True] next_acc by (simp add: all_digits_def checked_i64_def)
  next
    case False
    then have "\<not> i64_ok (sign_of neg * decimal_from ?m ds)"
      using i64_ok_smaller [OF m decimal_from_mono [OF m]] by blast
    with False next_acc show ?thesis by (simp add: checked_i64_def)
  qed
qed

text \<open>
  Property C32. The integer parser is exact: it accepts precisely an optional minus sign followed
  by at least one digit, returns the decimal value, and rejects exactly the values outside the
  signed 64-bit range; stopping at the first overflowing step never rejects a value that fits.
\<close>

theorem parse_int_fast_exact:
  "parse_int_fast bs = Some n \<longleftrightarrow>
     (\<exists>neg ds. bs = (if neg then MINUS # ds else ds) \<and> ds \<noteq> [] \<and> all_digits ds \<and>
        n = (if neg then - decimal ds else decimal ds) \<and> i64_ok n)"
proof -
  have run: "parse_digits neg 0 ds = (if all_digits ds \<and> i64_ok (sign_of neg * decimal ds)
      then Some (sign_of neg * decimal ds) else None)" for neg ds
    using parse_digits_exact [of 0 neg ds] by (simp add: i64_ok_def decimal_def decimal_from_def)
  have sign: "sign_of neg * decimal ds = (if neg then - decimal ds else decimal ds)" for neg ds
    by (simp add: sign_of_def)
  have digits: "all_digits ds \<Longrightarrow> ds \<noteq> MINUS # ds'" for ds ds'
    by (auto simp: all_digits_def is_ascii_digit_def)
  show ?thesis
  proof (cases bs)
    case Nil
    then show ?thesis by (auto simp: parse_int_fast_def)
  next
    case (Cons c rest)
    show ?thesis
    proof (cases "c = MINUS")
      case True
      with Cons have "parse_int_fast bs = (if rest = [] then None else parse_digits True 0 rest)"
        by (simp add: parse_int_fast_def)
      moreover have "(\<exists>neg ds. bs = (if neg then MINUS # ds else ds) \<and> ds \<noteq> [] \<and> all_digits ds \<and>
          n = (if neg then - decimal ds else decimal ds) \<and> i64_ok n) \<longleftrightarrow>
        rest \<noteq> [] \<and> all_digits rest \<and> n = - decimal rest \<and> i64_ok n"
        using True Cons digits [of bs rest] by (metis (full_types) list.inject)
      ultimately show ?thesis
        by (auto simp: run sign)
    next
      case False
      with Cons have "parse_int_fast bs = parse_digits False 0 bs"
        by (simp add: parse_int_fast_def)
      moreover have "(\<exists>neg ds. bs = (if neg then MINUS # ds else ds) \<and> ds \<noteq> [] \<and> all_digits ds \<and>
          n = (if neg then - decimal ds else decimal ds) \<and> i64_ok n) \<longleftrightarrow>
        all_digits bs \<and> n = decimal bs \<and> i64_ok n"
        using False Cons by (metis (full_types) list.inject list.discI)
      ultimately show ?thesis
        by (auto simp: run sign)
    qed
  qed
qed

end
