(* ===== verification/Json_Scanner.thy ===== *)
theory Json_Scanner
  imports Structural_Iter Json_Escape Scan_Config Line_Split
begin

text \<open>
  The streaming NDJSON scanner of \<^verbatim>\<open>ffwd-core/src/json_scanner.rs\<close> and the builder protocol of
  \<^verbatim>\<open>ffwd-core/src/scanner.rs\<close>.

  The \<^verbatim>\<open>ScanBuilder\<close> trait is a record of operations on a builder state (dictionary passing), so
  every scanning function is generic in the builder, as in the source. \<^verbatim>\<open>scan_line\<close> and
  \<^verbatim>\<open>scan_line_with_predicate\<close> contain the same parsing code with different actions: the parsing of
  one key and value is \<open>scan_field\<close>, which touches no builder, and each of the two loops adds its
  own actions. The scratch buffers are values. \<^verbatim>\<open>memchr\<close>, \<^verbatim>\<open>memmem\<close> and the SIMD comparison are
  parameters, collected in the record \<open>scan_env\<close>.
\<close>

subsection \<open>The builder interface\<close>

datatype BuilderState = Idle | InBatch | InRow

text \<open>
  A borrowed slice of the input buffer is its offset in the buffer and its bytes: builders look
  at the pointer of such a slice as well as at its contents.
\<close>

type_synonym slice = "nat \<times> bytes"

definition slice_of :: "bytes \<Rightarrow> nat \<Rightarrow> nat \<Rightarrow> slice" where
  "slice_of buf s e = (s, subslice buf s e)"

record 'b ScanBuilder =
  begin_row :: "'b \<Rightarrow> 'b"
  end_row :: "'b \<Rightarrow> 'b"
  resolve_field :: "bytes \<Rightarrow> 'b \<Rightarrow> nat \<times> 'b"
  append_str_by_idx :: "nat \<Rightarrow> slice \<Rightarrow> 'b \<Rightarrow> 'b"
  append_decoded_str_by_idx :: "nat \<Rightarrow> bytes \<Rightarrow> 'b \<Rightarrow> 'b"
  append_int_by_idx :: "nat \<Rightarrow> bytes \<Rightarrow> 'b \<Rightarrow> 'b"
  append_float_by_idx :: "nat \<Rightarrow> bytes \<Rightarrow> 'b \<Rightarrow> 'b"
  append_bool_by_idx :: "nat \<Rightarrow> bool \<Rightarrow> 'b \<Rightarrow> 'b"
  append_null_by_idx :: "nat \<Rightarrow> 'b \<Rightarrow> 'b"
  append_line :: "slice \<Rightarrow> 'b \<Rightarrow> 'b"

record scan_env =
  env_memchr :: memchr_ops
  env_memmem :: memmem_find
  env_simd :: simd_eq

subsection \<open>Helpers on the stored bit masks\<close>

record StoredBitmasks =
  sb_real_quotes :: "u64 list"
  sb_open_brace :: "u64 list"
  sb_close_brace :: "u64 list"
  sb_open_bracket :: "u64 list"
  sb_close_bracket :: "u64 list"

function next_quote :: "nat \<Rightarrow> nat \<Rightarrow> StoredBitmasks \<Rightarrow> nat option" where
  "next_quote p stop blocks =
     (if p < stop then
        (let block = p div 64; b = p mod 64
         in if block < length (sb_real_quotes blocks) then
              (let m = drop_bit b (sb_real_quotes blocks ! block)
               in if m \<noteq> 0 then
                    (let found = p + trailing_zeros m
                     in if found < stop then Some found else None)
                  else next_quote ((block + 1) * 64) stop blocks)
            else None)
      else None)"
  by pat_completeness auto
termination
proof (relation "measure (\<lambda>(p, stop, blocks). stop - p)", goal_cases)
  case (2 p stop blocks block b m)
  then have "p < (block + 1) * 64" by (simp add: dividend_less_div_times)
  with 2 show ?case by simp
qed simp

declare next_quote.simps [simp del]

lemma next_quote_range: "next_quote p stop blocks = Some q \<Longrightarrow> p \<le> q \<and> q < stop"
proof (induction p stop blocks rule: next_quote.induct)
  case (1 p stop blocks)
  let ?block = "p div 64"
  let ?m = "drop_bit (p mod 64) (sb_real_quotes blocks ! ?block)"
  show ?case
  proof (cases "p < stop \<and> ?block < length (sb_real_quotes blocks) \<and> ?m = 0")
    case True
    then have "next_quote ((?block + 1) * 64) stop blocks = Some q"
      using "1.prems" by (simp add: next_quote.simps [of p] Let_def)
    then have "(?block + 1) * 64 \<le> q \<and> q < stop"
      using True by (intro "1.IH") blast+
    moreover have "p \<le> (?block + 1) * 64" by (simp add: dividend_less_div_times less_imp_le)
    ultimately show ?thesis by simp
  next
    case False
    with "1.prems" show ?thesis
      by (auto simp: next_quote.simps [of p] Let_def split: if_splits)
  qed
qed

function skip_whitespace :: "bytes \<Rightarrow> nat \<Rightarrow> nat \<Rightarrow> nat" where
  "skip_whitespace buf p stop =
     (if p < stop then
        if buf ! p = SP \<or> buf ! p = TAB \<or> buf ! p = CR then skip_whitespace buf (p + 1) stop else p
      else p)"
  by pat_completeness auto
termination
  by (relation "measure (\<lambda>(buf, p, stop). stop - p)") auto

declare skip_whitespace.simps [simp del]

definition MAX_TRACKED_DEPTH :: nat where
  "MAX_TRACKED_DEPTH = 32"

text \<open>The nesting state: depth, the fixed opener array and the overflow stack.\<close>

record nest_state =
  depth :: nat
  opener_stack :: bytes
  overflow_stack :: "bytes option"

definition nest_new :: nest_state where
  "nest_new = \<lparr>depth = 0, opener_stack = replicate MAX_TRACKED_DEPTH 0, overflow_stack = None\<rparr>"

definition push_opener :: "nest_state \<Rightarrow> u8 \<Rightarrow> nest_state" where
  "push_opener n b =
     (if depth n < MAX_TRACKED_DEPTH
      then n\<lparr>opener_stack := (opener_stack n)[depth n := b], depth := depth n + 1\<rparr>
      else n\<lparr>overflow_stack := Some ((case overflow_stack n of Some v \<Rightarrow> v | None \<Rightarrow> []) @ [b]),
             depth := depth n + 1\<rparr>)"

text \<open>\<open>None\<close> when the overflow stack is exhausted.\<close>

definition pop_opener :: "nest_state \<Rightarrow> (u8 \<times> nest_state) option" where
  "pop_opener n =
     (let prev_depth = depth n; d = prev_depth - 1
      in if MAX_TRACKED_DEPTH < prev_depth then
           (case overflow_stack n of
              Some v \<Rightarrow> if v = [] then None
                        else Some (last v, n\<lparr>depth := d, overflow_stack := Some (butlast v)\<rparr>)
            | None \<Rightarrow> None)
         else Some (opener_stack n ! d, n\<lparr>depth := d\<rparr>))"

text \<open>One iteration: a result, or the next position and nesting state.\<close>

definition nested_step ::
  "bytes \<Rightarrow> nat \<Rightarrow> nat \<Rightarrow> StoredBitmasks \<Rightarrow> nest_state \<Rightarrow> nat + nat \<times> nest_state" where
  "nested_step buf p stop blocks n =
     (let block = p div 64; m = push_bit (p mod 64) 1; b = buf ! p
      in if length (sb_real_quotes blocks) \<le> block then Inl p
         else if (b = LBRACE \<or> b = LBRACKET) \<and>
             (sb_open_brace blocks ! block OR sb_open_bracket blocks ! block) AND m \<noteq> 0
         then Inr (p + 1, push_opener n b)
         else if (b = RBRACE \<or> b = RBRACKET) \<and>
             (sb_close_brace blocks ! block OR sb_close_bracket blocks ! block) AND m \<noteq> 0
         then if depth n = 0 then Inl p
              else (case pop_opener n of
                      None \<Rightarrow> Inl stop
                    | Some (opener, n') \<Rightarrow>
                        if b \<noteq> (if opener = LBRACE then RBRACE else RBRACKET) then Inl p
                        else if depth n' = 0 then Inl (p + 1)
                        else Inr (p + 1, n'))
         else if b = QUOTE \<and> sb_real_quotes blocks ! block AND m \<noteq> 0
         then (case next_quote (p + 1) stop blocks of
                 Some close \<Rightarrow> Inr (close + 1, n)
               | None \<Rightarrow> Inl stop)
         else Inr (p + 1, n))"

lemma nested_step_progress:
  assumes "p < stop"
  shows "nested_step buf p stop blocks n = Inr (p', n') \<Longrightarrow> p < p' \<and> p' \<le> stop"
    and "nested_step buf p stop blocks n = Inl r \<Longrightarrow> p \<le> r \<and> r \<le> stop"
  using assms
  by (auto simp: nested_step_def Let_def dest: next_quote_range split: if_splits option.splits prod.splits)

function skip_nested_loop :: "bytes \<Rightarrow> nat \<Rightarrow> nat \<Rightarrow> StoredBitmasks \<Rightarrow> nest_state \<Rightarrow> nat" where
  "skip_nested_loop buf p stop blocks n =
     (if p < stop then
        (case nested_step buf p stop blocks n of
           Inl r \<Rightarrow> r
         | Inr (p', n') \<Rightarrow> skip_nested_loop buf p' stop blocks n')
      else p)"
  by pat_completeness auto
termination
  by (relation "measure (\<lambda>(buf, p, stop, blocks, n). stop - p)") (auto dest: nested_step_progress)

declare skip_nested_loop.simps [simp del]

definition skip_nested :: "bytes \<Rightarrow> nat \<Rightarrow> nat \<Rightarrow> StoredBitmasks \<Rightarrow> nat" where
  "skip_nested buf p stop blocks = skip_nested_loop buf p stop blocks nest_new"

definition is_json_delimiter :: "u8 \<Rightarrow> bool" where
  "is_json_delimiter b \<longleftrightarrow>
     b = COMMA \<or> b = RBRACE \<or> b = RBRACKET \<or> b = SP \<or> b = TAB \<or> b = CR \<or> b = NL"

function skip_bare_value :: "bytes \<Rightarrow> nat \<Rightarrow> nat \<Rightarrow> nat" where
  "skip_bare_value buf p stop =
     (if p < stop then if is_json_delimiter (buf ! p) then p else skip_bare_value buf (p + 1) stop
      else p)"
  by pat_completeness auto
termination
  by (relation "measure (\<lambda>(buf, p, stop). stop - p)") auto

declare skip_bare_value.simps [simp del]

subsection \<open>One key and value\<close>

text \<open>A value as the scanner sees it: byte ranges of the input and literals.\<close>

datatype FieldValue =
    VStr nat nat
  | VNested nat nat
  | VBool bool
  | VNull
  | VNumber nat nat bool
  | VMalformed

function scan_number :: "bytes \<Rightarrow> nat \<Rightarrow> nat \<Rightarrow> bool \<Rightarrow> nat \<times> bool" where
  "scan_number buf p stop is_float =
     (if p < stop then
        (let c = buf ! p
         in if c = DOT \<or> c = 101 \<or> c = 69 then scan_number buf (p + 1) stop True
            else if is_json_delimiter c then (p, is_float)
            else scan_number buf (p + 1) stop is_float)
      else (p, is_float))"
  by pat_completeness auto
termination
  by (relation "measure (\<lambda>(buf, p, stop, is_float). stop - p)") auto

declare scan_number.simps [simp del]

text \<open>A literal followed by a delimiter or the end of the line.\<close>

definition literal_at :: "bytes \<Rightarrow> nat \<Rightarrow> nat \<Rightarrow> bytes \<Rightarrow> bool" where
  "literal_at buf p stop lit \<longleftrightarrow>
     p + length lit \<le> stop \<and> subslice buf p (p + length lit) = lit \<and>
     (stop \<le> p + length lit \<or> is_json_delimiter (buf ! (p + length lit)))"

definition scan_value :: "bytes \<Rightarrow> nat \<Rightarrow> nat \<Rightarrow> StoredBitmasks \<Rightarrow> (FieldValue \<times> nat) option" where
  "scan_value buf p stop blocks =
     (let c = buf ! p
      in if c = QUOTE then
           (case next_quote (p + 1) stop blocks of
              Some val_end \<Rightarrow> Some (VStr (p + 1) val_end, val_end + 1)
            | None \<Rightarrow> None)
         else if c = LBRACE \<or> c = LBRACKET then
           (let q = skip_nested buf p stop blocks in Some (VNested p q, q))
         else if c = 116 then
           (if literal_at buf p stop (bstr ''true'') then Some (VBool True, p + 4)
            else Some (VMalformed, skip_bare_value buf p stop))
         else if c = 102 then
           (if literal_at buf p stop (bstr ''false'') then Some (VBool False, p + 5)
            else Some (VMalformed, skip_bare_value buf p stop))
         else if c = 110 then
           (if literal_at buf p stop (bstr ''null'') then Some (VNull, p + 4)
            else Some (VMalformed, skip_bare_value buf p stop))
         else
           (case scan_number buf p stop False of (q, is_float) \<Rightarrow> Some (VNumber p q is_float, q)))"

text \<open>
  From the current position to the end of the next value: \<open>None\<close> where the loops break. A key
  or value with a backslash is decoded.
\<close>

definition unescape :: "memchr_ops \<Rightarrow> bytes \<Rightarrow> bytes" where
  "unescape mc raw = (if memchr mc BACKSLASH raw \<noteq> None then decode_json_escapes raw else raw)"

definition scan_field ::
  "memchr_ops \<Rightarrow> bytes \<Rightarrow> nat \<Rightarrow> nat \<Rightarrow> StoredBitmasks \<Rightarrow> (bytes \<times> FieldValue \<times> nat) option" where
  "scan_field mc buf p stop blocks =
     (let p = skip_whitespace buf p stop
      in if stop \<le> p \<or> buf ! p = RBRACE then None
         else if buf ! p \<noteq> QUOTE then None
         else (case next_quote (p + 1) stop blocks of
           None \<Rightarrow> None
         | Some key_end \<Rightarrow>
             (let key = unescape mc (subslice buf (p + 1) key_end);
                  p = skip_whitespace buf (key_end + 1) stop
              in if stop \<le> p \<or> buf ! p \<noteq> COLON then None
                 else
                   (let p = skip_whitespace buf (p + 1) stop
                    in if stop \<le> p then None
                       else (case scan_value buf p stop blocks of
                               None \<Rightarrow> None
                             | Some (v, p) \<Rightarrow> Some (key, v, p))))))"

definition skip_comma :: "bytes \<Rightarrow> nat \<Rightarrow> nat \<Rightarrow> nat" where
  "skip_comma buf p stop =
     (let p = skip_whitespace buf p stop in if p < stop \<and> buf ! p = COMMA then p + 1 else p)"

subsection \<open>Every step makes progress\<close>

lemma skip_whitespace_le: "p \<le> skip_whitespace buf p stop"
proof (induction buf p stop rule: skip_whitespace.induct)
  case (1 buf p stop)
  then show ?case by (auto simp: skip_whitespace.simps [of buf p])
qed

lemma skip_bare_value_le: "p \<le> skip_bare_value buf p stop"
proof (induction buf p stop rule: skip_bare_value.induct)
  case (1 buf p stop)
  then show ?case by (auto simp: skip_bare_value.simps [of buf p])
qed

lemma scan_number_le: "p \<le> fst (scan_number buf p stop f)"
proof (induction buf p stop f rule: scan_number.induct)
  case (1 buf p stop f)
  then show ?case by (auto simp: scan_number.simps [of buf p] Let_def)
qed

lemma skip_nested_loop_range:
  "p \<le> stop \<Longrightarrow> p \<le> skip_nested_loop buf p stop blocks n \<and> skip_nested_loop buf p stop blocks n \<le> stop"
proof (induction buf p stop blocks n rule: skip_nested_loop.induct)
  case (1 buf p stop blocks n)
  show ?case
  proof (cases "p < stop")
    case True
    show ?thesis
    proof (cases "nested_step buf p stop blocks n")
      case (Inl r)
      with nested_step_progress(2) [OF True Inl] True show ?thesis
        by (simp add: skip_nested_loop.simps [of buf p])
    next
      case (Inr r)
      obtain p' n' where r: "r = (p', n')" by fastforce
      from nested_step_progress(1) [OF True] Inr r have "p < p' \<and> p' \<le> stop" by blast
      with "1.IH" [OF True Inr r [symmetric]] True Inr r show ?thesis
        by (simp add: skip_nested_loop.simps [of buf p])
    qed
  next
    case False
    with "1.prems" have "p = stop" by simp
    then show ?thesis by (simp add: skip_nested_loop.simps [of buf stop stop])
  qed
qed

lemma scan_value_progress:
  assumes "p < stop" and "scan_value buf p stop blocks = Some (v, q)"
  shows "p \<le> q"
  using assms skip_nested_loop_range [of p stop buf blocks nest_new] skip_bare_value_le [of p buf stop]
    scan_number_le [of p buf stop False]
  by (auto simp: scan_value_def Let_def skip_nested_def dest: next_quote_range
      split: if_splits option.splits prod.splits)

lemma scan_field_progress:
  assumes "scan_field mc buf p stop blocks = Some (key, v, q)"
  shows "p < stop \<and> p < q"
proof -
  let ?p1 = "skip_whitespace buf p stop"
  from assms obtain key_end where k: "next_quote (?p1 + 1) stop blocks = Some key_end" "?p1 < stop"
    by (auto simp: scan_field_def Let_def not_le split: if_splits option.splits)
  let ?p2 = "skip_whitespace buf (key_end + 1) stop"
  let ?p3 = "skip_whitespace buf (?p2 + 1) stop"
  from assms k have "scan_value buf ?p3 stop blocks = Some (v, q)" "?p3 < stop"
    by (auto simp: scan_field_def Let_def not_le split: if_splits option.splits)
  then have "?p3 \<le> q" by (rule scan_value_progress [rotated])
  moreover have "p \<le> ?p1" "key_end + 1 \<le> ?p2" "?p2 + 1 \<le> ?p3" by (rule skip_whitespace_le)+
  moreover have "?p1 + 1 \<le> key_end" using next_quote_range [OF k(1)] by simp
  ultimately show ?thesis using k(2) by linarith
qed

lemma skip_comma_le: "p \<le> skip_comma buf p stop"
  using skip_whitespace_le [of p buf stop] by (simp add: skip_comma_def Let_def)


subsection \<open>Scanning a line without a predicate\<close>

definition emit_value ::
  "memchr_ops \<Rightarrow> 'b ScanBuilder \<Rightarrow> bytes \<Rightarrow> bytes \<Rightarrow> FieldValue \<Rightarrow> 'b \<Rightarrow> 'b" where
  "emit_value mc sb buf key v b =
     (if v = VMalformed then b
      else (case resolve_field sb key b of (idx, b) \<Rightarrow>
        (case v of
           VStr s e \<Rightarrow>
             (let raw = subslice buf s e
              in if memchr mc BACKSLASH raw \<noteq> None
                 then append_decoded_str_by_idx sb idx (decode_json_escapes raw) b
                 else append_str_by_idx sb idx (slice_of buf s e) b)
         | VNested s e \<Rightarrow> append_str_by_idx sb idx (slice_of buf s e) b
         | VBool x \<Rightarrow> append_bool_by_idx sb idx x b
         | VNull \<Rightarrow> append_null_by_idx sb idx b
         | VNumber s e is_float \<Rightarrow>
             (let val = subslice buf s e
              in if is_float then append_float_by_idx sb idx val b
                 else if parse_int_fast val \<noteq> None then append_int_by_idx sb idx val b
                 else append_float_by_idx sb idx val b)
         | VMalformed \<Rightarrow> b)))"

function scan_fields ::
  "memchr_ops \<Rightarrow> bytes \<Rightarrow> nat \<Rightarrow> nat \<Rightarrow> StoredBitmasks \<Rightarrow> ScanConfig \<Rightarrow> 'b ScanBuilder \<Rightarrow> 'b \<Rightarrow> 'b" where
  "scan_fields mc buf p stop blocks config sb b =
     (case scan_field mc buf p stop blocks of
        None \<Rightarrow> b
      | Some (key, v, q) \<Rightarrow>
          scan_fields mc buf (skip_comma buf q stop) stop blocks config sb
            (if is_wanted config key then emit_value mc sb buf key v b else b))"
  by pat_completeness auto
termination
proof (relation "measure (\<lambda>(mc, buf, p, stop, blocks, config, sb, b). stop - p)", goal_cases)
  case (2 mc buf p stop blocks config sb b fkvq key vq v q)
  then have "p < stop \<and> p < q" using scan_field_progress by metis
  with skip_comma_le [of q buf stop] show ?case by (auto intro: diff_less_mono2)
qed simp

declare scan_fields.simps [simp del]

subsection \<open>Scanning a line with a predicate\<close>

datatype DeferredValue =
    DStr nat nat
  | DDecodedStr bytes
  | DNested nat nat
  | DInt nat nat
  | DFloat nat nat
  | DBool bool
  | DNull

record DeferredField =
  deferred_idx :: nat
  deferred_kind :: DeferredValue

datatype PredicateFieldValue = PStr bytes | PInt int | PFloat f64 | PBool bool | PNull

type_synonym PredicateScratch = "(bytes \<times> PredicateFieldValue) list"

fun extracted_value :: "PredicateFieldValue \<Rightarrow> ExtractedValue" where
  "extracted_value (PStr s) = EStr s"
| "extracted_value (PInt n) = EInt n"
| "extracted_value (PFloat f) = EFloat f"
| "extracted_value (PBool b) = EBool b"
| "extracted_value PNull = ENull"

fun pred_lookup :: "PredicateScratch \<Rightarrow> bytes \<Rightarrow> ExtractedValue" where
  "pred_lookup [] name = EMissing"
| "pred_lookup ((key, val) # rest) name =
     (if eq_ignore_ascii_case key name then extracted_value val else pred_lookup rest name)"

text \<open>What a value contributes to the predicate scratch, and what is deferred for the builder.\<close>

definition pred_value :: "memchr_ops \<Rightarrow> bytes \<Rightarrow> FieldValue \<Rightarrow> PredicateFieldValue option" where
  "pred_value mc buf v =
     (case v of
        VStr s e \<Rightarrow> Some (PStr (unescape mc (subslice buf s e)))
      | VNested s e \<Rightarrow> Some (PStr (subslice buf s e))
      | VBool x \<Rightarrow> Some (PBool x)
      | VNull \<Rightarrow> Some PNull
      | VNumber s e is_float \<Rightarrow>
          (let val = subslice buf s e
           in if is_float then map_option PFloat (parse_float_fast val)
              else (case parse_int_fast val of
                      Some n \<Rightarrow> Some (PInt n)
                    | None \<Rightarrow> map_option PFloat (parse_float_fast val)))
      | VMalformed \<Rightarrow> None)"

definition deferred_value :: "memchr_ops \<Rightarrow> bytes \<Rightarrow> FieldValue \<Rightarrow> DeferredValue" where
  "deferred_value mc buf v =
     (case v of
        VStr s e \<Rightarrow>
          (let raw = subslice buf s e
           in if memchr mc BACKSLASH raw \<noteq> None then DDecodedStr (decode_json_escapes raw) else DStr s e)
      | VNested s e \<Rightarrow> DNested s e
      | VBool x \<Rightarrow> DBool x
      | VNull \<Rightarrow> DNull
      | VNumber s e is_float \<Rightarrow>
          (if is_float then DFloat s e
           else if parse_int_fast (subslice buf s e) \<noteq> None then DInt s e else DFloat s e)
      | VMalformed \<Rightarrow> DNull)"

function scan_fields_deferred ::
  "memchr_ops \<Rightarrow> bytes \<Rightarrow> nat \<Rightarrow> nat \<Rightarrow> StoredBitmasks \<Rightarrow> ScanConfig \<Rightarrow> ScanPredicate \<Rightarrow> 'b ScanBuilder \<Rightarrow>
   'b \<Rightarrow> PredicateScratch \<Rightarrow> DeferredField list \<Rightarrow> 'b \<times> PredicateScratch \<times> DeferredField list" where
  "scan_fields_deferred mc buf p stop blocks config predicate sb b pred deferred =
     (case scan_field mc buf p stop blocks of
        None \<Rightarrow> (b, pred, deferred)
      | Some (key, v, q) \<Rightarrow>
          (let pred = (if references_field predicate key
                       then (case pred_value mc buf v of Some x \<Rightarrow> pred @ [(key, x)] | None \<Rightarrow> pred)
                       else pred);
               (b, deferred) =
                 (if is_wanted config key \<and> v \<noteq> VMalformed
                  then (case resolve_field sb key b of (idx, b) \<Rightarrow>
                          (b, deferred @ [\<lparr>deferred_idx = idx, deferred_kind = deferred_value mc buf v\<rparr>]))
                  else (b, deferred))
           in scan_fields_deferred mc buf (skip_comma buf q stop) stop blocks config predicate sb b
                pred deferred))"
  by pat_completeness auto
termination
proof (relation "measure (\<lambda>(mc, buf, p, stop, blocks, config, predicate, sb, b, pred, deferred). stop - p)", goal_cases)
  case (2 mc buf p stop blocks config predicate sb b pred deferred fkvq key vq v q)
  then have "p < stop \<and> p < q" using scan_field_progress by metis
  with skip_comma_le [of q buf stop] show ?case by (auto intro: diff_less_mono2)
qed simp

declare scan_fields_deferred.simps [simp del]

definition replay_field :: "bytes \<Rightarrow> 'b ScanBuilder \<Rightarrow> DeferredField \<Rightarrow> 'b \<Rightarrow> 'b" where
  "replay_field buf sb field b =
     (let idx = deferred_idx field
      in case deferred_kind field of
           DStr s e \<Rightarrow> append_str_by_idx sb idx (slice_of buf s e) b
         | DDecodedStr bs \<Rightarrow> append_decoded_str_by_idx sb idx bs b
         | DNested s e \<Rightarrow> append_str_by_idx sb idx (slice_of buf s e) b
         | DInt s e \<Rightarrow> append_int_by_idx sb idx (subslice buf s e) b
         | DFloat s e \<Rightarrow> append_float_by_idx sb idx (subslice buf s e) b
         | DBool x \<Rightarrow> append_bool_by_idx sb idx x b
         | DNull \<Rightarrow> append_null_by_idx sb idx b)"

definition emit_line :: "bytes \<Rightarrow> nat \<Rightarrow> nat \<Rightarrow> ScanConfig \<Rightarrow> 'b ScanBuilder \<Rightarrow> 'b \<Rightarrow> 'b" where
  "emit_line buf start stop config sb b =
     (if captures_line config then append_line sb (slice_of buf start stop) b else b)"

definition scan_line_with_predicate ::
  "scan_env \<Rightarrow> bytes \<Rightarrow> nat \<Rightarrow> nat \<Rightarrow> StoredBitmasks \<Rightarrow> ScanConfig \<Rightarrow> 'b ScanBuilder \<Rightarrow> 'b \<Rightarrow> 'b" where
  "scan_line_with_predicate env buf start stop blocks config sb b =
     (case row_predicate config of
        None \<Rightarrow> end_row sb (emit_line buf start stop config sb (begin_row sb b))
      | Some predicate \<Rightarrow>
          (let pred = (case line_field_name config of
                         Some line_name \<Rightarrow>
                           if references_field predicate line_name
                           then [(line_name, PStr (subslice buf start stop))] else []
                       | None \<Rightarrow> []);
               p = skip_whitespace buf start stop
           in if stop \<le> p \<or> buf ! p \<noteq> LBRACE then
                (if evaluate (env_memmem env) (pred_lookup pred) predicate
                 then end_row sb (emit_line buf start stop config sb (begin_row sb b))
                 else b)
              else
                (case scan_fields_deferred (env_memchr env) buf (p + 1) stop blocks config predicate sb b pred [] of
                   (b, pred, deferred) \<Rightarrow>
                     if \<not> evaluate (env_memmem env) (pred_lookup pred) predicate then b
                     else end_row sb (foldl (\<lambda>b field. replay_field buf sb field b)
                            (emit_line buf start stop config sb (begin_row sb b)) deferred))))"

definition scan_line ::
  "scan_env \<Rightarrow> bytes \<Rightarrow> nat \<Rightarrow> nat \<Rightarrow> StoredBitmasks \<Rightarrow> ScanConfig \<Rightarrow> 'b ScanBuilder \<Rightarrow> 'b \<Rightarrow> 'b" where
  "scan_line env buf start stop blocks config sb b =
     (if row_predicate config \<noteq> None then scan_line_with_predicate env buf start stop blocks config sb b
      else
        (let b = emit_line buf start stop config sb (begin_row sb b);
             p = skip_whitespace buf start stop
         in if stop \<le> p \<or> buf ! p \<noteq> LBRACE then end_row sb b
            else end_row sb (scan_fields (env_memchr env) buf (p + 1) stop blocks config sb b)))"

subsection \<open>The two phases\<close>

record phase1 =
  p1_masks :: StoredBitmasks
  p1_line_ranges :: "(nat \<times> nat) list"
  p1_line_start :: nat
  p1_classifier :: StreamingClassifier

text \<open>Strip a trailing carriage return.\<close>

definition line_end_at :: "bytes \<Rightarrow> nat \<Rightarrow> nat \<Rightarrow> nat" where
  "line_end_at buf line_start abs_pos =
     (if line_start < abs_pos \<and> abs_pos - 1 < length buf \<and> buf ! (abs_pos - 1) = CR
      then abs_pos - 1 else abs_pos)"

definition push_range :: "bytes \<Rightarrow> nat \<Rightarrow> nat \<Rightarrow> (nat \<times> nat) list \<Rightarrow> (nat \<times> nat) list" where
  "push_range buf line_start abs_pos ranges =
     (let line_end = line_end_at buf line_start abs_pos
      in if line_start < line_end then ranges @ [(line_start, line_end)] else ranges)"

function newline_loop :: "bytes \<Rightarrow> nat \<Rightarrow> u64 \<Rightarrow> nat \<Rightarrow> (nat \<times> nat) list \<Rightarrow> nat \<times> (nat \<times> nat) list" where
  "newline_loop buf offset nl line_start ranges =
     (if nl = 0 then (line_start, ranges)
      else
        (let abs_pos = offset + trailing_zeros nl
         in newline_loop buf offset (clear_lowest nl) (abs_pos + 1) (push_range buf line_start abs_pos ranges)))"
  by pat_completeness auto
termination
  by (relation "measure (\<lambda>(buf, offset, nl, line_start, ranges). card {i. bit nl i})")
    (auto simp: clear_lowest_shrinks)

declare newline_loop.simps [simp del]

definition scan_block :: "simd_eq \<Rightarrow> bytes \<Rightarrow> nat \<Rightarrow> phase1 \<Rightarrow> phase1" where
  "scan_block simd buf block_idx st =
     (let offset = block_idx * 64;
          remaining = length buf - offset;
          block_len = min remaining 64;
          raw = find_structural_chars simd (buffer_block buf block_idx)
      in case process_block (p1_classifier st) raw block_len of
           (processed, classifier) \<Rightarrow>
             (case newline_loop buf offset (newline processed) (p1_line_start st) (p1_line_ranges st) of
                (line_start, ranges) \<Rightarrow>
                  (let m = p1_masks st
                   in \<lparr>p1_masks =
                         \<lparr>sb_real_quotes = sb_real_quotes m @ [real_quotes processed],
                          sb_open_brace = sb_open_brace m @ [open_brace processed],
                          sb_close_brace = sb_close_brace m @ [close_brace processed],
                          sb_open_bracket = sb_open_bracket m @ [open_bracket processed],
                          sb_close_bracket = sb_close_bracket m @ [close_bracket processed]\<rparr>,
                       p1_line_ranges = ranges, p1_line_start = line_start,
                       p1_classifier = classifier\<rparr>)))"

definition phase1_init :: phase1 where
  "phase1_init =
     \<lparr>p1_masks = \<lparr>sb_real_quotes = [], sb_open_brace = [], sb_close_brace = [],
                  sb_open_bracket = [], sb_close_bracket = []\<rparr>,
      p1_line_ranges = [], p1_line_start = 0, p1_classifier = classifier_new\<rparr>"

definition scan_phase1 :: "simd_eq \<Rightarrow> bytes \<Rightarrow> StoredBitmasks \<times> (nat \<times> nat) list" where
  "scan_phase1 simd buf =
     (let st = foldl (\<lambda>st i. scan_block simd buf i st) phase1_init [0..<num_blocks buf];
          line_start = p1_line_start st
      in (p1_masks st,
          if line_start < length buf then push_range buf line_start (length buf) (p1_line_ranges st)
          else p1_line_ranges st))"

definition scan_streaming :: "scan_env \<Rightarrow> bytes \<Rightarrow> ScanConfig \<Rightarrow> 'b ScanBuilder \<Rightarrow> 'b \<Rightarrow> 'b" where
  "scan_streaming env buf config sb b =
     (if buf = [] then b
      else (case scan_phase1 (env_simd env) buf of (blocks, line_ranges) \<Rightarrow>
        foldl (\<lambda>b (start, stop). scan_line env buf start stop blocks config sb b) b line_ranges))"

end
