(* ===== verification/Scan_Phases.thy ===== *)
theory Scan_Phases
  imports Json_Scanner
begin

text \<open>
  Correctness of the scanner's first phase and of the mask lookups of \<^verbatim>\<open>json_scanner.rs\<close>: the
  stored bit masks describe the buffer, the line ranges are the NDJSON lines of the buffer,
  \<^verbatim>\<open>next_quote\<close> finds the next unescaped quote, and \<^verbatim>\<open>skip_nested\<close> with its fixed array and
  overflow vector behaves like a plain stack of openers.
\<close>

subsection \<open>The stored masks\<close>

definition mask_list :: "bytes \<Rightarrow> nat \<Rightarrow> (nat \<Rightarrow> bool) \<Rightarrow> u64 list \<Rightarrow> bool" where
  "mask_list buf n P ms \<longleftrightarrow> length ms = n \<and>
     (\<forall>k<n. \<forall>i<64. bit (ms ! k) i \<longleftrightarrow> k * 64 + i < length buf \<and> P (k * 64 + i))"

definition outside :: "bytes \<Rightarrow> u8 \<Rightarrow> nat \<Rightarrow> bool" where
  "outside buf c i \<longleftrightarrow> buf ! i = c \<and> \<not> in_string_at buf i"

definition masks_ok :: "bytes \<Rightarrow> nat \<Rightarrow> StoredBitmasks \<Rightarrow> bool" where
  "masks_ok buf n m \<longleftrightarrow>
     mask_list buf n (real_quote_at buf) (sb_real_quotes m) \<and>
     mask_list buf n (outside buf LBRACE) (sb_open_brace m) \<and>
     mask_list buf n (outside buf RBRACE) (sb_close_brace m) \<and>
     mask_list buf n (outside buf LBRACKET) (sb_open_bracket m) \<and>
     mask_list buf n (outside buf RBRACKET) (sb_close_bracket m)"

lemma mask_list_snoc:
  assumes "mask_list buf n P ms"
    and "\<And>i. i < 64 \<Longrightarrow> bit w i \<longleftrightarrow> n * 64 + i < length buf \<and> P (n * 64 + i)"
  shows "mask_list buf (Suc n) P (ms @ [w])"
  using assms by (auto simp: mask_list_def nth_append less_Suc_eq)

text \<open>The newline bits of a block, in order.\<close>

definition range_step :: "bytes \<Rightarrow> nat \<times> (nat \<times> nat) list \<Rightarrow> nat \<Rightarrow> nat \<times> (nat \<times> nat) list" where
  "range_step buf = (\<lambda>(line_start, ranges) i. (i + 1, push_range buf line_start i ranges))"

lemma newline_loop_fold:
  "newline_loop buf offset nl line_start ranges =
     foldl (range_step buf) (line_start, ranges) (map (\<lambda>i. offset + i) (filter (bit nl) [0..<64]))"
proof (induction buf offset nl line_start ranges rule: newline_loop.induct)
  case (1 buf offset nl line_start ranges)
  show ?case
  proof (cases "nl = 0")
    case True
    then show ?thesis by (simp add: newline_loop.simps [of _ _ 0])
  next
    case False
    from 1 [OF False refl] False show ?thesis
      by (simp add: newline_loop.simps [of buf offset nl] bits_in_order Let_def range_step_def)
  qed
qed

lemma newline_positions_block:
  assumes "k * 64 < length buf"
    and "\<And>i. i < 64 \<Longrightarrow> bit nl i \<longleftrightarrow> k * 64 + i < length buf \<and> buf ! (k * 64 + i) = NL"
  shows "map (\<lambda>i. k * 64 + i) (filter (bit nl) [0..<64]) =
    filter (\<lambda>i. buf ! i = NL) [k * 64..<min (Suc k * 64) (length buf)]"
proof -
  let ?n = "min 64 (length buf - k * 64)"
  have "filter (bit nl) [0..<64] = filter (\<lambda>i. i < ?n \<and> buf ! (k * 64 + i) = NL) [0..<64]"
    by (rule filter_cong) (auto simp: assms(2))
  also have "\<dots> = filter (\<lambda>i. buf ! (k * 64 + i) = NL) (filter (\<lambda>i. i < ?n) [0..<64])"
    by (simp add: conj_commute)
  also have "filter (\<lambda>i. i < ?n) [0..<64] = [0..<?n]"
    by (rule filter_less_upt) simp
  finally have "map (\<lambda>i. k * 64 + i) (filter (bit nl) [0..<64]) =
      filter (\<lambda>i. buf ! i = NL) (map (\<lambda>i. k * 64 + i) [0..<?n])"
    by (simp add: filter_map comp_def)
  also have "map (\<lambda>i. k * 64 + i) [0..<?n] = [k * 64..<k * 64 + ?n]"
    using map_add_upt [of "k * 64" ?n] by (simp add: add.commute)
  also have "k * 64 + ?n = min (Suc k * 64) (length buf)"
    using assms(1) by simp
  finally show ?thesis .
qed

text \<open>The state of the first phase after \<open>k\<close> blocks.\<close>

definition phase1_at :: "bytes \<Rightarrow> nat \<Rightarrow> phase1 \<Rightarrow> bool" where
  "phase1_at buf k st \<longleftrightarrow>
     masks_ok buf k (p1_masks st) \<and> classifier_at (pad_buffer buf) (k * 64) (p1_classifier st) \<and>
     (p1_line_start st, p1_line_ranges st) =
       foldl (range_step buf) (0, []) (filter (\<lambda>i. buf ! i = NL) [0..<min (k * 64) (length buf)])"

lemma filter_upt_split: "a \<le> b \<Longrightarrow> b \<le> c \<Longrightarrow> filter P [a..<c] = filter P [a..<b] @ filter P [b..<c]"
  using upt_add_eq_append [of a b "c - b"] by simp

context wide_crate
begin

lemma scan_block_at:
  assumes at: "phase1_at buf k st" and k: "k * 64 < length buf"
  shows "phase1_at buf (Suc k) (scan_block simd buf k st)"
proof -
  let ?n = "min (length buf - k * 64) 64"
  obtain pb c' where pb: "process_block (p1_classifier st) (find_structural_chars simd (buffer_block buf k)) ?n = (pb, c')"
    by fastforce
  have c: "classifier_at (pad_buffer buf) (k * 64) (p1_classifier st)"
    using at by (simp add: phase1_at_def)
  have masks: "block_masks buf (k * 64) ?n pb" and c': "classifier_at (pad_buffer buf) (Suc k * 64) c'"
    using buffer_block_step [OF k c pb] by blast+
  have in_block: "i < ?n \<longleftrightarrow> k * 64 + i < length buf" if "i < 64" for i
    using that by (auto simp: less_diff_conv add.commute)
  note bits = masks [unfolded block_masks_def, rule_format]
  have nl: "bit (newline pb) i \<longleftrightarrow> k * 64 + i < length buf \<and> buf ! (k * 64 + i) = NL" if "i < 64" for i
    using bits [OF that] in_block [OF that] by blast
  obtain ls rs where loop: "newline_loop buf (k * 64) (newline pb) (p1_line_start st) (p1_line_ranges st) = (ls, rs)"
    by fastforce
  have "(ls, rs) = foldl (range_step buf) (0, []) (filter (\<lambda>i. buf ! i = NL) [0..<min (Suc k * 64) (length buf)])"
    using loop at k filter_upt_split [of 0 "k * 64" "min (Suc k * 64) (length buf)" "\<lambda>i. buf ! i = NL"]
    by (simp add: newline_loop_fold newline_positions_block [OF k nl] phase1_at_def)
  moreover have "masks_ok buf (Suc k) (p1_masks (scan_block simd buf k st))"
    using at bits in_block unfolding phase1_at_def masks_ok_def
    by (simp add: scan_block_def pb loop Let_def mask_list_snoc outside_def)
  moreover have "p1_line_start (scan_block simd buf k st) = ls" "p1_line_ranges (scan_block simd buf k st) = rs"
    "p1_classifier (scan_block simd buf k st) = c'"
    by (simp_all add: scan_block_def pb loop Let_def)
  ultimately show ?thesis
    using c' by (simp only: phase1_at_def)
qed

lemma phase1_fold: "k \<le> num_blocks buf \<Longrightarrow> phase1_at buf k (foldl (\<lambda>st i. scan_block simd buf i st) phase1_init [0..<k])"
proof (induction k)
  case 0
  then show ?case
    by (simp add: phase1_at_def phase1_init_def masks_ok_def mask_list_def classifier_at_new)
next
  case (Suc k)
  then show ?case
    using num_blocks_iff [of k buf] by (simp add: scan_block_at)
qed

end

subsection \<open>The lines\<close>

definition strip_cr :: "bytes \<Rightarrow> bytes" where
  "strip_cr l = (if l \<noteq> [] \<and> last l = CR then butlast l else l)"

text \<open>The lines of an NDJSON buffer: the last one may lack its newline.\<close>

definition ndjson_lines :: "bytes \<Rightarrow> bytes list" where
  "ndjson_lines buf = filter (\<lambda>l. l \<noteq> []) (map strip_cr (complete_lines buf @ [partial_line buf]))"

abbreviation range_bytes :: "bytes \<Rightarrow> (nat \<times> nat) list \<Rightarrow> bytes list" where
  "range_bytes buf ranges \<equiv> map (\<lambda>(s, e). subslice buf s e) ranges"

lemma push_range_bytes:
  assumes "buf = pre @ l @ rest" and "s = length pre" and "e = length pre + length l"
  shows "range_bytes buf (push_range buf s e ranges) =
    range_bytes buf ranges @ filter (\<lambda>l. l \<noteq> []) [strip_cr l]"
proof (cases "l = []")
  case True
  with assms show ?thesis by (simp add: push_range_def line_end_at_def strip_cr_def)
next
  case False
  then obtain l' c where l: "l = l' @ [c]" by (meson rev_exhaust)
  have "buf ! (e - 1) = c" "s < e" "e - 1 < length buf" "e - 1 = length pre + length l'"
    using assms l by (simp_all add: nth_append)
  then show ?thesis
    using assms l by (cases "l' = []") (auto simp: push_range_def line_end_at_def strip_cr_def subslice_def Let_def)
qed

lemma range_fold_lines:
  "foldl (range_step (pre @ xs)) (length pre, ranges) (map ((+) (length pre)) (byte_positions NL xs)) = (ls, ranges') \<Longrightarrow>
   ls = length (pre @ xs) - length (partial_line xs) \<and>
   range_bytes (pre @ xs) ranges' =
     range_bytes (pre @ xs) ranges @ filter (\<lambda>l. l \<noteq> []) (map strip_cr (complete_lines xs))"
proof (induction xs arbitrary: pre ranges rule: line_induct)
  case (partial_case r)
  then show ?case by (simp add: byte_positions_Nil line_simps)
next
  case (line_case l xs)
  let ?buf = "pre @ l @ NL # xs" and ?pre = "pre @ l @ [NL]"
  let ?rs = "push_range ?buf (length pre) (length pre + length l) ranges"
  have "range_step ?buf (length pre, ranges) (length pre + length l) = (length ?pre, ?rs)"
    by (simp add: range_step_def)
  moreover have "map ((+) (length pre)) (byte_positions NL (l @ NL # xs)) =
      (length pre + length l) # map ((+) (length ?pre)) (byte_positions NL xs)"
    using line_case.hyps by (simp add: byte_positions_line comp_def add.assoc)
  ultimately have "foldl (range_step (?pre @ xs)) (length ?pre, ?rs) (map ((+) (length ?pre)) (byte_positions NL xs)) = (ls, ranges')"
    using line_case.prems by simp
  from line_case.IH [OF this] have IH: "ls = length ?buf - length (partial_line xs)"
    "range_bytes ?buf ranges' = range_bytes ?buf ?rs @ filter (\<lambda>l. l \<noteq> []) (map strip_cr (complete_lines xs))"
    by simp_all
  have "range_bytes ?buf ?rs = range_bytes ?buf ranges @ filter (\<lambda>l. l \<noteq> []) [strip_cr l]"
    by (rule push_range_bytes [of _ pre l "NL # xs"]) simp_all
  with IH line_case.hyps show ?case
    by (simp add: line_simps)
qed

lemma partial_line_length: "length buf = length (unlines_nl (complete_lines buf)) + length (partial_line buf)"
  by (metis length_append split_join)

lemma scan_phase1_correct:
  assumes "wide_crate simd" and "scan_phase1 simd buf = (blocks, ranges)"
  shows "masks_ok buf (num_blocks buf) blocks" and "range_bytes buf ranges = ndjson_lines buf"
proof -
  let ?st = "foldl (\<lambda>st i. scan_block simd buf i st) phase1_init [0..<num_blocks buf]"
  have at: "phase1_at buf (num_blocks buf) ?st"
    using wide_crate.phase1_fold [OF assms(1)] by blast
  have "length buf \<le> num_blocks buf * 64"
    using num_blocks_iff [of "num_blocks buf" buf] by simp
  then have st: "(p1_line_start ?st, p1_line_ranges ?st) = foldl (range_step buf) (0, []) (byte_positions NL buf)"
    using at by (simp add: phase1_at_def byte_positions_def)
  have start: "p1_line_start ?st = length buf - length (partial_line buf)"
    and lines: "range_bytes buf (p1_line_ranges ?st) = filter (\<lambda>l. l \<noteq> []) (map strip_cr (complete_lines buf))"
    using range_fold_lines [of "[]" buf "[]" "p1_line_start ?st" "p1_line_ranges ?st"] st
    by (simp_all add: map_idI)
  show "masks_ok buf (num_blocks buf) blocks"
    using assms(2) at by (simp add: scan_phase1_def Let_def phase1_at_def)
  show "range_bytes buf ranges = ndjson_lines buf"
  proof (cases "partial_line buf = []")
    case True
    then have "ranges = p1_line_ranges ?st"
      using assms(2) start by (simp add: scan_phase1_def Let_def)
    with True lines show ?thesis by (simp add: ndjson_lines_def strip_cr_def)
  next
    case False
    let ?pre = "unlines_nl (complete_lines buf)"
    have ls: "p1_line_start ?st = length ?pre"
      using start partial_line_length [of buf] by simp
    then have "p1_line_start ?st < length buf" using False partial_line_length [of buf] by simp
    then have "ranges = push_range buf (p1_line_start ?st) (length buf) (p1_line_ranges ?st)"
      using assms(2) by (simp add: scan_phase1_def Let_def)
    then have "range_bytes buf ranges =
        range_bytes buf (p1_line_ranges ?st) @ filter (\<lambda>l. l \<noteq> []) [strip_cr (partial_line buf)]"
      using push_range_bytes [of buf ?pre "partial_line buf" "[]" "p1_line_start ?st" "length buf"] ls
        partial_line_length [of buf] by (simp add: split_join)
    with lines show ?thesis by (simp add: ndjson_lines_def)
  qed
qed


text \<open>
  Property C36. The scanner sees exactly the NDJSON lines of the buffer: the line ranges of the
  first phase are, in order, the newline-separated lines (the unterminated last one included)
  with one trailing carriage return removed and empty lines dropped.
\<close>

theorem scan_ranges_are_lines:
  assumes "wide_crate simd"
  shows "range_bytes buf (snd (scan_phase1 simd buf)) = ndjson_lines buf"
  using scan_phase1_correct(2) [OF assms, of buf] by (metis prod.collapse)

theorem scan_ranges_are_lines_witness:
  "range_bytes (bstr ''{}'' @ [CR, NL, NL] @ bstr ''[1]'')
     (snd (scan_phase1 scalar_simd_eq (bstr ''{}'' @ [CR, NL, NL] @ bstr ''[1]''))) = [bstr ''{}'', bstr ''[1]'']"
  unfolding scan_ranges_are_lines [OF scalar_wide.wide_crate_axioms]
  by (simp add: ndjson_lines_def complete_lines_def partial_line_def strip_cr_def bstr_def)

subsection \<open>Finding quotes\<close>

lemma mask_list_bit:
  "mask_list buf n P ms \<Longrightarrow> i div 64 < n \<Longrightarrow> bit (ms ! (i div 64)) (i mod 64) \<longleftrightarrow> i < length buf \<and> P i"
  unfolding mask_list_def by (metis div_mult_mod_eq mod_less_divisor zero_less_numeral)

lemma find_skip:
  assumes "p \<le> r" and "\<And>i. p \<le> i \<Longrightarrow> i < r \<Longrightarrow> i < stop \<Longrightarrow> \<not> P i"
  shows "List.find P [p..<stop] = List.find P [r..<stop]"
proof (cases "r \<le> stop")
  case True
  have "[p..<stop] = [p..<r] @ [r..<stop]"
    using assms(1) True upt_add_eq_append [of p r "stop - r"] by simp
  moreover have "List.find P [p..<r] = None"
    using assms(2) True by (auto simp: find_None_iff)
  moreover have "List.find P (xs @ ys) = (case List.find P xs of None \<Rightarrow> List.find P ys | Some x \<Rightarrow> Some x)" for xs ys
    by (induction xs) auto
  ultimately show ?thesis by simp
next
  case False
  then have "List.find P [p..<stop] = None" using assms(2) by (auto simp: find_None_iff)
  with False show ?thesis by simp
qed

lemma next_quote_find:
  assumes ok: "mask_list buf (num_blocks buf) (real_quote_at buf) (sb_real_quotes m)" and stop: "stop \<le> length buf"
  shows "next_quote p stop m = List.find (real_quote_at buf) [p..<stop]"
  using ok stop
proof (induction p stop m rule: next_quote.induct)
  case (1 p stop m)
  note ok = "1.prems"(1) and stop = "1.prems"(2)
  show ?case
  proof (cases "p < stop")
    case False
    then show ?thesis by (simp add: next_quote.simps [of p])
  next
    case True
    let ?block = "p div 64" and ?w = "sb_real_quotes m ! (p div 64)"
    let ?m = "drop_bit (p mod 64) ?w"
    have block: "?block < num_blocks buf" using True "1.prems" num_blocks_iff [of ?block buf]
      by (metis div_mult_mod_eq le_add1 le_less_trans less_le_trans)
    then have len: "?block < length (sb_real_quotes m)" using ok by (simp add: mask_list_def)
    have bits: "bit ?m i \<longleftrightarrow> p + i < length buf \<and> real_quote_at buf (p + i)" if "p mod 64 + i < 64" for i
    proof -
      have "(p + i) div 64 = ?block" "(p + i) mod 64 = p mod 64 + i"
        using that by (metis add.assoc div_mult_mod_eq div_mult_self3 div_less add_0_right zero_neq_numeral,
          metis add.commute mod_add_left_eq mod_less)
      with mask_list_bit [OF ok, of "p + i"] block show ?thesis by (simp add: bit_drop_bit_eq)
    qed
    show ?thesis
    proof (cases "?m = 0")
      case True
      have "\<not> real_quote_at buf i" if "p \<le> i" "i < (?block + 1) * 64" "i < stop" for i
      proof -
        have "r + (i - p) < 64" if "i < (a + 1) * 64" "a * 64 + r = p" "p \<le> i" for a r :: nat
          using that by auto
        from this [OF that(2) div_mult_mod_eq that(1)] have "p mod 64 + (i - p) < 64" .
        from bits [OF this] True stop that show ?thesis by simp
      qed
      then have "List.find (real_quote_at buf) [p..<stop] = List.find (real_quote_at buf) [(?block + 1) * 64..<stop]"
        by (intro find_skip) (simp_all add: dividend_less_div_times less_imp_le)
      with "1.IH" [OF \<open>p < stop\<close> refl refl len refl] True len ok stop \<open>p < stop\<close> show ?thesis
        by (simp add: next_quote.simps [of p])
    next
      case False
      let ?f = "p + trailing_zeros ?m"
      have tz: "bit ?m (trailing_zeros ?m)" "\<And>i. i < trailing_zeros ?m \<Longrightarrow> \<not> bit ?m i"
        using trailing_zeros_eq [OF False] by blast+
      have in_block: "p mod 64 + trailing_zeros ?m < 64"
        using tz(1) bit_imp_le_length by (force simp: bit_drop_bit_eq)
      have "\<not> real_quote_at buf i" if "p \<le> i" "i < ?f" "i < stop" for i
      proof -
        have "p mod 64 + (i - p) < 64" and "i - p < trailing_zeros ?m" using that in_block by simp_all
        from bits [OF this(1)] tz(2) [OF this(2)] stop that show ?thesis by simp
      qed
      then have "List.find (real_quote_at buf) [p..<stop] = List.find (real_quote_at buf) [?f..<stop]"
        by (intro find_skip) simp_all
      with bits [OF in_block] tz(1) False len \<open>p < stop\<close> show ?thesis
        by (simp add: next_quote.simps [of p] Let_def upt_conv_Cons)
    qed
  qed
qed

text \<open>
  Property C37. On the masks the first phase stores, \<^verbatim>\<open>next_quote\<close>, which looks at whole
  64-bit words, finds the first unescaped quote at or after a position and before the end.
\<close>

theorem next_quote_correct:
  assumes "wide_crate simd" and "stop \<le> length buf"
  shows "next_quote p stop (fst (scan_phase1 simd buf)) = List.find (real_quote_at buf) [p..<stop]"
  using next_quote_find [OF _ assms(2)] scan_phase1_correct(1) [OF assms(1), of buf]
  by (metis masks_ok_def prod.collapse)

theorem next_quote_correct_witness:
  "next_quote 1 8 (fst (scan_phase1 scalar_simd_eq (bstr ''ab'' @ [BACKSLASH, QUOTE] @ bstr ''cd'' @ [QUOTE, QUOTE]))) = Some 6"
  by (subst next_quote_correct [OF scalar_wide.wide_crate_axioms]) code_simp+

subsection \<open>Skipping nested values\<close>

text \<open>
  The reference: the same walk with one plain stack of openers and the characters of the
  buffer in place of masks, an array and an overflow vector.
\<close>

definition closer :: "u8 \<Rightarrow> u8" where
  "closer b = (if b = LBRACE then RBRACE else RBRACKET)"

fun stack_step :: "bytes \<Rightarrow> nat \<Rightarrow> nat \<Rightarrow> bytes \<Rightarrow> nat + nat \<times> bytes" where
  "stack_step buf p stop stack =
     (let b = buf ! p
      in if (b = LBRACE \<or> b = LBRACKET) \<and> \<not> in_string_at buf p then Inr (p + 1, b # stack)
         else if (b = RBRACE \<or> b = RBRACKET) \<and> \<not> in_string_at buf p
         then (case stack of
                 [] \<Rightarrow> Inl p
               | opener # rest \<Rightarrow>
                   if b \<noteq> closer opener then Inl p
                   else if rest = [] then Inl (p + 1) else Inr (p + 1, rest))
         else if real_quote_at buf p
         then (case List.find (real_quote_at buf) [p + 1..<stop] of
                 Some close \<Rightarrow> Inr (close + 1, stack)
               | None \<Rightarrow> Inl stop)
         else Inr (p + 1, stack))"

declare stack_step.simps [simp del]

lemma find_upt_range: "List.find P [a..<b] = Some i \<Longrightarrow> a \<le> i \<and> i < b"
  by (metis List.find_Some_iff atLeastLessThan_iff nth_mem set_upt)

lemma stack_step_progress: "stack_step buf p stop stack = Inr (p', stack') \<Longrightarrow> p < p'"
  by (auto simp: stack_step.simps Let_def dest!: find_upt_range split: if_splits option.splits list.splits)

function nested_end :: "bytes \<Rightarrow> nat \<Rightarrow> nat \<Rightarrow> bytes \<Rightarrow> nat" where
  "nested_end buf p stop stack =
     (if p < stop then
        (case stack_step buf p stop stack of
           Inl r \<Rightarrow> r
         | Inr (p', stack') \<Rightarrow> nested_end buf p' stop stack')
      else p)"
  by pat_completeness auto
termination
  by (relation "measure (\<lambda>(buf, p, stop, stack). stop - p)") (auto dest!: stack_step_progress)

declare nested_end.simps [simp del]

definition nest_stack :: "nest_state \<Rightarrow> bytes" where
  "nest_stack n = rev (take (depth n) (opener_stack n) @ (case overflow_stack n of Some v \<Rightarrow> v | None \<Rightarrow> []))"

definition nest_ok :: "nest_state \<Rightarrow> bool" where
  "nest_ok n \<longleftrightarrow> length (opener_stack n) = MAX_TRACKED_DEPTH \<and>
     length (case overflow_stack n of Some v \<Rightarrow> v | None \<Rightarrow> []) = depth n - MAX_TRACKED_DEPTH"

lemma nest_stack_new: "nest_ok nest_new" "nest_stack nest_new = []"
  by (simp_all add: nest_ok_def nest_stack_def nest_new_def)

lemma nest_stack_length: "nest_ok n \<Longrightarrow> length (nest_stack n) = depth n"
  by (simp add: nest_ok_def nest_stack_def)

lemma push_opener_stack:
  assumes "nest_ok n"
  shows "nest_ok (push_opener n b)" and "nest_stack (push_opener n b) = b # nest_stack n"
  using assms
  by (auto simp: nest_ok_def nest_stack_def push_opener_def take_Suc_conv_app_nth split: option.splits)

lemma pop_opener_stack:
  assumes ok: "nest_ok n" and d: "depth n \<noteq> 0"
  obtains n' where "pop_opener n = Some (hd (nest_stack n), n')" "nest_ok n'" "nest_stack n' = tl (nest_stack n)"
proof (cases "MAX_TRACKED_DEPTH < depth n")
  case True
  with ok obtain v where v: "overflow_stack n = Some v" "length v = depth n - MAX_TRACKED_DEPTH"
    by (auto simp: nest_ok_def split: option.splits)
  with True have ne: "v \<noteq> []" by auto
  let ?n = "n\<lparr>depth := depth n - 1, overflow_stack := Some (butlast v)\<rparr>"
  from v ne True ok have "pop_opener n = Some (hd (nest_stack n), ?n)" "nest_ok ?n"
    by (auto simp: pop_opener_def nest_stack_def nest_ok_def hd_rev)
  moreover from v ne True ok have "nest_stack ?n = tl (nest_stack n)"
    by (cases v rule: rev_cases) (auto simp: nest_stack_def nest_ok_def)
  ultimately show thesis using that by blast
next
  case False
  let ?n = "n\<lparr>depth := depth n - 1\<rparr>"
  from False ok have ov: "(case overflow_stack n of Some v \<Rightarrow> v | None \<Rightarrow> []) = []" by (simp add: nest_ok_def)
  from d obtain d' where d': "depth n = Suc d'" using not0_implies_Suc by blast
  have "d' < length (opener_stack n)" using False ok d' by (simp add: nest_ok_def)
  with False ok d' ov have "pop_opener n = Some (hd (nest_stack n), ?n)" "nest_ok ?n" "nest_stack ?n = tl (nest_stack n)"
    by (auto simp: pop_opener_def nest_stack_def nest_ok_def take_Suc_conv_app_nth)
  then show thesis using that by blast
qed

lemma bit_test: "w AND push_bit k 1 \<noteq> (0 :: u64) \<longleftrightarrow> bit w k" 
  by (auto simp: bit_eq_iff [where 'a = u64] bit_simps dest: bit_imp_le_length)

lemma masks_ok_bit:
  assumes "masks_ok buf (num_blocks buf) m" and "p < length buf"
  shows "bit (sb_real_quotes m ! (p div 64)) (p mod 64) \<longleftrightarrow> real_quote_at buf p"
    and "bit (sb_open_brace m ! (p div 64)) (p mod 64) \<longleftrightarrow> outside buf LBRACE p"
    and "bit (sb_close_brace m ! (p div 64)) (p mod 64) \<longleftrightarrow> outside buf RBRACE p"
    and "bit (sb_open_bracket m ! (p div 64)) (p mod 64) \<longleftrightarrow> outside buf LBRACKET p"
    and "bit (sb_close_bracket m ! (p div 64)) (p mod 64) \<longleftrightarrow> outside buf RBRACKET p"
    and "p div 64 < length (sb_real_quotes m)"
proof -
  have "p div 64 < num_blocks buf"
    using assms(2) num_blocks_iff [of "p div 64" buf] by (metis div_mult_mod_eq le_add1 le_less_trans)
  with assms mask_list_bit [of buf "num_blocks buf"] show
    "bit (sb_real_quotes m ! (p div 64)) (p mod 64) \<longleftrightarrow> real_quote_at buf p"
    "bit (sb_open_brace m ! (p div 64)) (p mod 64) \<longleftrightarrow> outside buf LBRACE p"
    "bit (sb_close_brace m ! (p div 64)) (p mod 64) \<longleftrightarrow> outside buf RBRACE p"
    "bit (sb_open_bracket m ! (p div 64)) (p mod 64) \<longleftrightarrow> outside buf LBRACKET p"
    "bit (sb_close_bracket m ! (p div 64)) (p mod 64) \<longleftrightarrow> outside buf RBRACKET p"
    "p div 64 < length (sb_real_quotes m)"
    by (simp_all add: masks_ok_def mask_list_def)
qed

lemma nested_step_simulates:
  assumes ok: "masks_ok buf (num_blocks buf) m" and stop: "stop \<le> length buf" "p < stop" and n: "nest_ok n"
  shows "case nested_step buf p stop m n of
      Inl r \<Rightarrow> stack_step buf p stop (nest_stack n) = Inl r
    | Inr (p', n') \<Rightarrow> nest_ok n' \<and> stack_step buf p stop (nest_stack n) = Inr (p', nest_stack n')"
proof -
  have p: "p < length buf" using stop by simp
  note bits = masks_ok_bit [OF ok p]
  have quote: "real_quote_at buf p \<Longrightarrow> buf ! p = QUOTE" by (simp add: real_quote_at_def)
  have next_q: "next_quote (p + 1) stop m = List.find (real_quote_at buf) [p + 1..<stop]"
    using next_quote_find [OF _ stop(1)] ok by (simp add: masks_ok_def)
  have opener: "(sb_open_brace m ! (p div 64) OR sb_open_bracket m ! (p div 64)) AND push_bit (p mod 64) 1 \<noteq> 0 \<longleftrightarrow>
      (buf ! p = LBRACE \<or> buf ! p = LBRACKET) \<and> \<not> in_string_at buf p"
    unfolding bit_test bit_or_iff bits by (auto simp: outside_def)
  have close: "(sb_close_brace m ! (p div 64) OR sb_close_bracket m ! (p div 64)) AND push_bit (p mod 64) 1 \<noteq> 0 \<longleftrightarrow>
      (buf ! p = RBRACE \<or> buf ! p = RBRACKET) \<and> \<not> in_string_at buf p"
    unfolding bit_test bit_or_iff bits by (auto simp: outside_def)
  have real: "sb_real_quotes m ! (p div 64) AND push_bit (p mod 64) 1 \<noteq> 0 \<longleftrightarrow> real_quote_at buf p"
    unfolding bit_test bits ..
  consider (opens) "(buf ! p = LBRACE \<or> buf ! p = LBRACKET) \<and> \<not> in_string_at buf p"
    | (closes) "(buf ! p = RBRACE \<or> buf ! p = RBRACKET) \<and> \<not> in_string_at buf p"
        "\<not> (buf ! p = LBRACE \<or> buf ! p = LBRACKET)"
    | (other) "\<not> ((buf ! p = LBRACE \<or> buf ! p = LBRACKET) \<and> \<not> in_string_at buf p)"
        "\<not> ((buf ! p = RBRACE \<or> buf ! p = RBRACKET) \<and> \<not> in_string_at buf p)"
    by auto
  then show ?thesis
  proof cases
    case opens
    then have "nested_step buf p stop m n = Inr (p + 1, push_opener n (buf ! p))"
      using bits(6) by (simp only: nested_step_def Let_def opener) simp
    moreover have "stack_step buf p stop (nest_stack n) = Inr (p + 1, buf ! p # nest_stack n)"
      using opens by (simp only: stack_step.simps Let_def) simp
    ultimately show ?thesis using push_opener_stack [OF n] by simp
  next
    case closes
    have step: "nested_step buf p stop m n =
        (if depth n = 0 then Inl p
         else (case pop_opener n of None \<Rightarrow> Inl stop
           | Some (opener, n') \<Rightarrow> if buf ! p \<noteq> closer opener then Inl p
               else if depth n' = 0 then Inl (p + 1) else Inr (p + 1, n')))"
      using bits(6) closes by (simp only: nested_step_def Let_def opener close closer_def) simp
    have ref: "stack_step buf p stop (nest_stack n) =
        (case nest_stack n of [] \<Rightarrow> Inl p
         | opener # rest \<Rightarrow> if buf ! p \<noteq> closer opener then Inl p
             else if rest = [] then Inl (p + 1) else Inr (p + 1, rest))"
      using closes by (simp only: stack_step.simps Let_def) simp
    show ?thesis
    proof (cases "depth n = 0")
      case True
      then have "nest_stack n = []" using nest_stack_length [OF n] by simp
      with True step ref show ?thesis by simp
    next
      case False
      then obtain b rest where st: "nest_stack n = b # rest"
        using nest_stack_length [OF n] by (cases "nest_stack n") auto
      obtain n' where pop: "pop_opener n = Some (b, n')" "nest_ok n'" "nest_stack n' = rest"
        using pop_opener_stack [OF n False] st by auto
      moreover have "rest = [] \<longleftrightarrow> depth n' = 0" using nest_stack_length [OF pop(2)] pop(3) by auto
      ultimately show ?thesis using False step ref st by simp
    qed
  next
    case other
    have "nested_step buf p stop m n =
        (if real_quote_at buf p
         then (case next_quote (p + 1) stop m of Some close \<Rightarrow> Inr (close + 1, n) | None \<Rightarrow> Inl stop)
         else Inr (p + 1, n))"
      using bits(6) other quote by (simp only: nested_step_def Let_def opener close real) auto
    moreover have "stack_step buf p stop (nest_stack n) =
        (if real_quote_at buf p
         then (case List.find (real_quote_at buf) [p + 1..<stop] of
            Some close \<Rightarrow> Inr (close + 1, nest_stack n) | None \<Rightarrow> Inl stop)
         else Inr (p + 1, nest_stack n))"
      using other by (simp only: stack_step.simps Let_def) auto
    ultimately show ?thesis using n next_q by (simp split: option.splits)
  qed
qed

lemma skip_nested_loop_stack:
  assumes "masks_ok buf (num_blocks buf) m" and "stop \<le> length buf" and "nest_ok n"
  shows "skip_nested_loop buf p stop m n = nested_end buf p stop (nest_stack n)"
  using assms
proof (induction buf p stop m n rule: skip_nested_loop.induct)
  case (1 buf p stop m n)
  show ?case
  proof (cases "p < stop")
    case True
    note sim = nested_step_simulates [OF "1.prems"(1,2) True "1.prems"(3)]
    show ?thesis
    proof (cases "nested_step buf p stop m n")
      case (Inl r)
      with sim True show ?thesis by (simp add: skip_nested_loop.simps [of buf p] nested_end.simps [of buf p])
    next
      case (Inr r)
      obtain p' n' where r: "r = (p', n')" by fastforce
      with sim Inr have "nest_ok n'" "stack_step buf p stop (nest_stack n) = Inr (p', nest_stack n')" by simp_all
      with "1.IH" [OF True Inr r [symmetric]] "1.prems" True Inr r show ?thesis
        by (simp add: skip_nested_loop.simps [of buf p] nested_end.simps [of buf p])
    qed
  next
    case False
    then show ?thesis by (simp add: skip_nested_loop.simps [of buf p] nested_end.simps [of buf p])
  qed
qed

text \<open>
  Property C38. \<^verbatim>\<open>skip_nested\<close>, with bit masks for the structural characters, an array for the first
  32 openers and a vector for deeper ones, ends where the walk with one plain stack of openers
  over the characters outside strings ends, at any nesting depth.
\<close>

theorem skip_nested_correct:
  assumes "wide_crate simd" and "stop \<le> length buf"
  shows "skip_nested buf p stop (fst (scan_phase1 simd buf)) = nested_end buf p stop []"
  using skip_nested_loop_stack [OF _ assms(2) nest_stack_new(1)] scan_phase1_correct(1) [OF assms(1), of buf]
  by (metis nest_stack_new(2) prod.collapse skip_nested_def)

theorem skip_nested_correct_witness:
  "skip_nested (bstr ''{[1,]}},'') 0 8 (fst (scan_phase1 scalar_simd_eq (bstr ''{[1,]}},''))) = 6"
  by (subst skip_nested_correct [OF scalar_wide.wide_crate_axioms]) code_simp+

end
