(* ===== verification/Scan_Rows.thy ===== *)
theory Scan_Rows
  imports Scan_Phases
begin

text \<open>
  What a scan means: the rows of a buffer as partial functions from field names to cells, and the
  contract a builder has to satisfy for the scanner to deliver exactly those rows. The contract is
  a locale over the operations of the builder trait; the scanner's loops, with and without a
  predicate, are shown against it once.
\<close>

subsection \<open>Rows\<close>

datatype Cell = CStr bytes | CInt int | CFloat f64 | CBool bool

definition number_cell :: "bytes \<Rightarrow> bool \<Rightarrow> Cell option" where
  "number_cell val is_float =
     (case (if is_float then None else parse_int_fast val) of
        Some n \<Rightarrow> Some (CInt n)
      | None \<Rightarrow> map_option CFloat (parse_float_fast val))"

fun field_cell :: "memchr_ops \<Rightarrow> bytes \<Rightarrow> FieldValue \<Rightarrow> Cell option" where
  "field_cell mc buf (VStr s e) = Some (CStr (unescape mc (subslice buf s e)))"
| "field_cell mc buf (VNested s e) = Some (CStr (subslice buf s e))"
| "field_cell mc buf (VBool x) = Some (CBool x)"
| "field_cell mc buf VNull = None"
| "field_cell mc buf (VNumber s e is_float) = number_cell (subslice buf s e) is_float"
| "field_cell mc buf VMalformed = None"

text \<open>The keys and values of an object, from a position inside it.\<close>

function line_fields :: "memchr_ops \<Rightarrow> bytes \<Rightarrow> nat \<Rightarrow> nat \<Rightarrow> StoredBitmasks \<Rightarrow> (bytes \<times> FieldValue) list" where
  "line_fields mc buf p stop blocks =
     (case scan_field mc buf p stop blocks of
        None \<Rightarrow> []
      | Some (key, v, q) \<Rightarrow> (key, v) # line_fields mc buf (skip_comma buf q stop) stop blocks)"
  by pat_completeness auto
termination
proof (relation "measure (\<lambda>(mc, buf, p, stop, blocks). stop - p)", goal_cases)
  case (2 mc buf p stop blocks fkvq key vq v q)
  then have "p < stop \<and> p < q" using scan_field_progress by metis
  with skip_comma_le [of q buf stop] show ?case by (auto intro: diff_less_mono2)
qed simp

declare line_fields.simps [simp del]

definition object_fields :: "memchr_ops \<Rightarrow> bytes \<Rightarrow> nat \<Rightarrow> nat \<Rightarrow> StoredBitmasks \<Rightarrow> (bytes \<times> FieldValue) list" where
  "object_fields mc buf start stop blocks =
     (let p = skip_whitespace buf start stop
      in if stop \<le> p \<or> buf ! p \<noteq> LBRACE then [] else line_fields mc buf (p + 1) stop blocks)"

text \<open>The first value of a key counts: \<open>map_of\<close> finds the first occurrence.\<close>

definition emitted :: "ScanConfig \<Rightarrow> (bytes \<times> FieldValue) list \<Rightarrow> (bytes \<times> FieldValue) list" where
  "emitted config kvs = filter (\<lambda>(k, v). is_wanted config k \<and> v \<noteq> VMalformed) kvs"

definition row_cells :: "memchr_ops \<Rightarrow> bytes \<Rightarrow> (bytes \<times> FieldValue) list \<Rightarrow> bytes \<rightharpoonup> Cell option" where
  "row_cells mc buf kvs = map_of (map (\<lambda>(k, v). (k, field_cell mc buf v)) kvs)"

definition row_of :: "memchr_ops \<Rightarrow> bytes \<Rightarrow> (bytes \<times> FieldValue) list \<Rightarrow> bytes \<Rightarrow> Cell option" where
  "row_of mc buf kvs k = Option.bind (row_cells mc buf kvs k) id"

text \<open>The values a predicate sees, and whether a line passes.\<close>

definition predicate_fields ::
  "memchr_ops \<Rightarrow> bytes \<Rightarrow> ScanPredicate \<Rightarrow> (bytes \<times> FieldValue) list \<Rightarrow> PredicateScratch" where
  "predicate_fields mc buf predicate kvs =
     List.map_filter (\<lambda>(k, v). if references_field predicate k
                              then map_option (Pair k) (pred_value mc buf v) else None) kvs"

definition line_scratch :: "bytes \<Rightarrow> nat \<Rightarrow> nat \<Rightarrow> ScanConfig \<Rightarrow> ScanPredicate \<Rightarrow> PredicateScratch" where
  "line_scratch buf start stop config predicate =
     (case line_field_name config of
        Some line_name \<Rightarrow>
          if references_field predicate line_name then [(line_name, PStr (subslice buf start stop))] else []
      | None \<Rightarrow> [])"

definition line_passes ::
  "scan_env \<Rightarrow> bytes \<Rightarrow> nat \<Rightarrow> nat \<Rightarrow> ScanConfig \<Rightarrow> (bytes \<times> FieldValue) list \<Rightarrow> bool" where
  "line_passes env buf start stop config kvs =
     (case row_predicate config of
        None \<Rightarrow> True
      | Some predicate \<Rightarrow>
          evaluate (env_memmem env)
            (pred_lookup (line_scratch buf start stop config predicate @
               predicate_fields (env_memchr env) buf predicate kvs)) predicate)"

text \<open>The rows of the line ranges that pass.\<close>

definition scan_rows ::
  "scan_env \<Rightarrow> bytes \<Rightarrow> ScanConfig \<Rightarrow> StoredBitmasks \<Rightarrow> (nat \<times> nat) list \<Rightarrow> (bytes \<Rightarrow> Cell option) list" where
  "scan_rows env buf config blocks ranges =
     map (\<lambda>(start, stop).
            row_of (env_memchr env) buf
              (emitted config (object_fields (env_memchr env) buf start stop blocks)))
       (filter (\<lambda>(start, stop).
            line_passes env buf start stop config (object_fields (env_memchr env) buf start stop blocks)) ranges)"

definition scan_captured ::
  "scan_env \<Rightarrow> bytes \<Rightarrow> ScanConfig \<Rightarrow> StoredBitmasks \<Rightarrow> (nat \<times> nat) list \<Rightarrow> bytes list" where
  "scan_captured env buf config blocks ranges =
     (if captures_line config then
        map (\<lambda>(start, stop). subslice buf start stop)
          (filter (\<lambda>(start, stop).
            line_passes env buf start stop config (object_fields (env_memchr env) buf start stop blocks)) ranges)
      else [])"

subsection \<open>The contract of a builder\<close>

text \<open>What can be observed of a builder: finished rows, the open row, captured lines, column names.\<close>

record builder_view =
  v_rows :: "(bytes \<Rightarrow> Cell option) list"
  v_current :: "bytes \<rightharpoonup> Cell option"
  v_lines :: "bytes list"
  v_names :: "nat \<rightharpoonup> bytes"

definition first_write :: "(bytes \<rightharpoonup> Cell option) \<Rightarrow> bytes \<Rightarrow> Cell option \<Rightarrow> (bytes \<rightharpoonup> Cell option)" where
  "first_write cur k c = (if k \<in> dom cur then cur else cur(k \<mapsto> c))"

definition write_cell :: "bytes \<Rightarrow> Cell option \<Rightarrow> builder_view \<Rightarrow> builder_view" where
  "write_cell k c w = w\<lparr>v_current := first_write (v_current w) k c\<rparr>"

text \<open>
  \<open>ok st r m b\<close> says that the builder is in protocol state \<open>st\<close> and has room for \<open>r\<close> more rows and
  \<open>m\<close> more decoded bytes. The \<^verbatim>\<open>append\<close> operations take effect on the first write of a key in a row.
\<close>

locale scan_builder =
  fixes sb :: "'b ScanBuilder"
    and ok :: "BuilderState \<Rightarrow> nat \<Rightarrow> nat \<Rightarrow> 'b \<Rightarrow> bool"
    and view :: "'b \<Rightarrow> builder_view"
    and input :: bytes
    and capture :: bool
  assumes ok_less: "ok st r m b \<Longrightarrow> r' \<le> r \<Longrightarrow> m' \<le> m \<Longrightarrow> ok st r' m' b"
    and begin_row: "ok InBatch (Suc r) m b \<Longrightarrow>
      ok InRow r m (begin_row sb b) \<and> view (begin_row sb b) = (view b)\<lparr>v_current := Map.empty\<rparr>"
    and end_row: "ok InRow r m b \<Longrightarrow>
      ok InBatch r m (end_row sb b) \<and>
      view (end_row sb b) =
        (view b)\<lparr>v_rows := v_rows (view b) @ [\<lambda>k. Option.bind (v_current (view b) k) id], v_current := Map.empty\<rparr>"
    and resolve_field: "ok st r m b \<Longrightarrow> st \<noteq> Idle \<Longrightarrow> valid_utf8 key \<Longrightarrow> resolve_field sb key b = (idx, b') \<Longrightarrow>
      ok st r m b' \<and> view b' = (view b)\<lparr>v_names := v_names (view b')\<rparr> \<and>
      v_names (view b') idx = Some key \<and> v_names (view b) \<subseteq>\<^sub>m v_names (view b')"
    and append_str: "ok InRow r m b \<Longrightarrow> v_names (view b) idx = Some key \<Longrightarrow> s \<le> e \<Longrightarrow> e \<le> length input \<Longrightarrow>
      valid_utf8 (subslice input s e) \<Longrightarrow> b' = append_str_by_idx sb idx (slice_of input s e) b \<Longrightarrow>
      ok InRow r m b' \<and> view b' = write_cell key (Some (CStr (subslice input s e))) (view b)"
    and append_decoded_str: "ok InRow r (length v + m) b \<Longrightarrow> v_names (view b) idx = Some key \<Longrightarrow> valid_utf8 v \<Longrightarrow>
      b' = append_decoded_str_by_idx sb idx v b \<Longrightarrow>
      ok InRow r m b' \<and> view b' = write_cell key (Some (CStr v)) (view b)"
    and append_int: "ok InRow r m b \<Longrightarrow> v_names (view b) idx = Some key \<Longrightarrow> parse_int_fast v = Some n \<Longrightarrow>
      b' = append_int_by_idx sb idx v b \<Longrightarrow>
      ok InRow r m b' \<and> view b' = write_cell key (Some (CInt n)) (view b)"
    and append_float: "ok InRow r m b \<Longrightarrow> v_names (view b) idx = Some key \<Longrightarrow>
      b' = append_float_by_idx sb idx v b \<Longrightarrow>
      ok InRow r m b' \<and> view b' = write_cell key (map_option CFloat (parse_float_fast v)) (view b)"
    and append_bool: "ok InRow r m b \<Longrightarrow> v_names (view b) idx = Some key \<Longrightarrow>
      b' = append_bool_by_idx sb idx x b \<Longrightarrow>
      ok InRow r m b' \<and> view b' = write_cell key (Some (CBool x)) (view b)"
    and append_null: "ok InRow r m b \<Longrightarrow> v_names (view b) idx = Some key \<Longrightarrow>
      b' = append_null_by_idx sb idx b \<Longrightarrow>
      ok InRow r m b' \<and> view b' = write_cell key None (view b)"
    and append_line: "ok InBatch (Suc r) m b \<Longrightarrow> capture \<Longrightarrow> s \<le> e \<Longrightarrow> e \<le> length input \<Longrightarrow>
      valid_utf8 (subslice input s e) \<Longrightarrow> b' = append_line sb (slice_of input s e) (begin_row sb b) \<Longrightarrow>
      ok InRow r m b' \<and>
      view b' = (view b)\<lparr>v_current := Map.empty, v_lines := v_lines (view b) @ [subslice input s e]\<rparr>"

subsection \<open>Values the builder can take\<close>

definition field_ok :: "memchr_ops \<Rightarrow> bytes \<Rightarrow> FieldValue \<Rightarrow> bool" where
  "field_ok mc buf v =
     (case v of
        VStr s e \<Rightarrow> s \<le> e \<and> e \<le> length buf \<and> valid_utf8 (unescape mc (subslice buf s e))
      | VNested s e \<Rightarrow> s \<le> e \<and> e \<le> length buf \<and> valid_utf8 (subslice buf s e)
      | _ \<Rightarrow> True)"

definition field_cost :: "FieldValue \<Rightarrow> nat" where
  "field_cost v = (case v of VStr s e \<Rightarrow> e - s | _ \<Rightarrow> 0)"

definition fields_cost :: "(bytes \<times> FieldValue) list \<Rightarrow> nat" where
  "fields_cost kvs = sum_list (map (\<lambda>(k, v). field_cost v) kvs)"

definition fields_ok :: "memchr_ops \<Rightarrow> bytes \<Rightarrow> (bytes \<times> FieldValue) list \<Rightarrow> bool" where
  "fields_ok mc buf kvs = list_all (\<lambda>(k, v). valid_utf8 k \<and> field_ok mc buf v) kvs"

lemma fields_simps [simp]:
  "fields_cost [] = 0" "fields_cost ((k, v) # kvs) = field_cost v + fields_cost kvs"
  "fields_ok mc buf []" "fields_ok mc buf ((k, v) # kvs) \<longleftrightarrow> valid_utf8 k \<and> field_ok mc buf v \<and> fields_ok mc buf kvs"
  "emitted config [] = []"
  "emitted config ((k, v) # kvs) =
     (if is_wanted config k \<and> v \<noteq> VMalformed then (k, v) # emitted config kvs else emitted config kvs)"
  "predicate_fields mc buf predicate [] = []"
  "predicate_fields mc buf predicate ((k, v) # kvs) =
     (if references_field predicate k
      then (case pred_value mc buf v of Some x \<Rightarrow> (k, x) # predicate_fields mc buf predicate kvs
                                      | None \<Rightarrow> predicate_fields mc buf predicate kvs)
      else predicate_fields mc buf predicate kvs)"
  by (simp_all add: fields_cost_def fields_ok_def emitted_def predicate_fields_def map_filter_simps split: option.splits)

text \<open>Writing the fields of a row one after the other keeps the first value of every key.\<close>

definition write_fields :: "memchr_ops \<Rightarrow> bytes \<Rightarrow> (bytes \<times> FieldValue) list \<Rightarrow> builder_view \<Rightarrow> builder_view" where
  "write_fields mc buf kvs w = foldl (\<lambda>w (k, v). write_cell k (field_cell mc buf v) w) w kvs"

lemma write_fields_simps [simp]:
  "write_fields mc buf [] w = w"
  "write_fields mc buf ((k, v) # kvs) w = write_fields mc buf kvs (write_cell k (field_cell mc buf v) w)"
  by (simp_all add: write_fields_def)

lemma row_cells_first_write:
  "row_cells mc buf ((k, v) # kvs) ++ cur = row_cells mc buf kvs ++ first_write cur k (field_cell mc buf v)"
  by (rule ext) (auto simp: row_cells_def first_write_def map_add_def split: option.splits)

lemma write_fields_current:
  "write_fields mc buf kvs w = w\<lparr>v_current := row_cells mc buf kvs ++ v_current w\<rparr>"
proof (induction kvs arbitrary: w)
  case Nil
  then show ?case by (simp add: row_cells_def)
next
  case (Cons kv kvs)
  then show ?case
    by (cases kv) (simp add: write_cell_def row_cells_first_write)
qed

lemma write_fields_names [simp]: "v_names (write_fields mc buf kvs w) = v_names w"
  by (simp add: write_fields_current)

lemma write_cell_names [simp]: "v_names (write_cell k c w) = v_names w"
  by (simp add: write_cell_def)

lemma write_cell_set_names: "write_cell k c (w\<lparr>v_names := ns\<rparr>) = (write_cell k c w)\<lparr>v_names := ns\<rparr>"
  by (simp add: write_cell_def)

lemma write_fields_set_names: "write_fields mc buf kvs (w\<lparr>v_names := ns\<rparr>) = (write_fields mc buf kvs w)\<lparr>v_names := ns\<rparr>"
  by (simp add: write_fields_current)

lemma decode_length: "length (decode_json_escapes raw) \<le> length raw"
  using decode_loop_length [of 0 raw "[]"] by (simp add: decode_json_escapes_def)


lemma names_extend_refl: "\<exists>ns. v_names w \<subseteq>\<^sub>m ns \<and> w = w\<lparr>v_names := ns\<rparr>"
  by (rule exI [of _ "v_names w"]) simp

text \<open>A deferred write is the write of the value it stands for; emitting is resolving, then writing.\<close>

definition deferred_for :: "memchr_ops \<Rightarrow> bytes \<Rightarrow> (nat \<rightharpoonup> bytes) \<Rightarrow> DeferredField \<Rightarrow> bytes \<times> FieldValue \<Rightarrow> bool" where
  "deferred_for mc buf names d kv \<longleftrightarrow>
     names (deferred_idx d) = Some (fst kv) \<and> deferred_kind d = deferred_value mc buf (snd kv)"

lemma deferred_for_mono: "deferred_for mc buf names d kv \<Longrightarrow> names \<subseteq>\<^sub>m names' \<Longrightarrow> deferred_for mc buf names' d kv"
  by (auto simp: deferred_for_def map_le_def dom_def)

lemma emit_value_replay:
  assumes "resolve_field sb key b = (idx, b1)" and "v \<noteq> VMalformed"
  shows "emit_value mc sb buf key v b =
    replay_field buf sb \<lparr>deferred_idx = idx, deferred_kind = deferred_value mc buf v\<rparr> b1"
  using assms by (cases v) (simp_all add: emit_value_def replay_field_def deferred_value_def Let_def)

lemma emitted_cost: "fields_cost (emitted config kvs) \<le> fields_cost kvs"
  by (induction kvs) auto

lemma emitted_ok: "fields_ok mc buf kvs \<Longrightarrow> fields_ok mc buf (emitted config kvs)"
  by (auto simp: fields_ok_def emitted_def list_all_iff)

lemma emitted_well: "VMalformed \<notin> snd ` set (emitted config kvs)"
  by (auto simp: emitted_def)

context scan_builder begin

lemma replay_field_ok:
  assumes b: "ok InRow r (field_cost v + m) b" and v: "field_ok mc input v" "v \<noteq> VMalformed"
    and d: "deferred_for mc input (v_names (view b)) d (key, v)" and b': "b' = replay_field input sb d b"
  shows "ok InRow r m b' \<and> view b' = write_cell key (field_cell mc input v) (view b)"
proof -
  have okm: "ok InRow r m b" using ok_less [OF b] by simp
  have idx: "v_names (view b) (deferred_idx d) = Some key" and kind: "deferred_kind d = deferred_value mc input v"
    using d by (simp_all add: deferred_for_def)
  show ?thesis
  proof (cases v)
    case (VStr s e)
    let ?raw = "subslice input s e"
    show ?thesis
    proof (cases "memchr mc BACKSLASH ?raw \<noteq> None")
      case True
      have "length (decode_json_escapes ?raw) \<le> field_cost v"
        using decode_length [of ?raw] v(1) VStr by (simp add: field_ok_def field_cost_def)
      then have "ok InRow r (length (decode_json_escapes ?raw) + m) b" using ok_less [OF b] by simp
      from append_decoded_str [OF this idx _ refl] show ?thesis
        using VStr True v(1) b' kind by (simp add: replay_field_def deferred_value_def Let_def field_ok_def unescape_def)
    next
      case False
      from append_str [OF okm idx _ _ _ refl] show ?thesis
        using VStr False v(1) b' kind by (simp add: replay_field_def deferred_value_def Let_def field_ok_def unescape_def)
    qed
  next
    case (VNested s e)
    from append_str [OF okm idx _ _ _ refl] show ?thesis
      using VNested v(1) b' kind by (simp add: replay_field_def deferred_value_def field_ok_def)
  next
    case (VNumber s e f)
    show ?thesis
    proof (cases "f \<or> parse_int_fast (subslice input s e) = None")
      case True
      then have "number_cell (subslice input s e) f = map_option CFloat (parse_float_fast (subslice input s e))"
        by (auto simp: number_cell_def)
      with append_float [OF okm idx refl] True show ?thesis
        using VNumber b' kind by (auto simp: replay_field_def deferred_value_def)
    next
      case False
      then obtain n where n: "parse_int_fast (subslice input s e) = Some n" by auto
      with append_int [OF okm idx n refl] False show ?thesis
        using VNumber b' kind by (simp add: replay_field_def deferred_value_def number_cell_def)
    qed
  next
    case (VBool x)
    with append_bool [OF okm idx refl] b' kind show ?thesis by (simp add: replay_field_def deferred_value_def)
  next
    case VNull
    with append_null [OF okm idx refl] b' kind show ?thesis by (simp add: replay_field_def deferred_value_def)
  qed (use v(2) in simp)
qed

lemma emit_value_ok:
  assumes b: "ok InRow r (field_cost v + m) b" and v: "field_ok mc input v" "v \<noteq> VMalformed" and key: "valid_utf8 key"
    and b': "b' = emit_value mc sb input key v b"
  shows "ok InRow r m b' \<and>
    (\<exists>ns. v_names (view b) \<subseteq>\<^sub>m ns \<and> view b' = (write_cell key (field_cell mc input v) (view b))\<lparr>v_names := ns\<rparr>)"
proof -
  obtain idx b1 where res: "resolve_field sb key b = (idx, b1)" by fastforce
  have ok1: "ok InRow r (field_cost v + m) b1" "v_names (view b1) idx = Some key"
      "v_names (view b) \<subseteq>\<^sub>m v_names (view b1)" "view b1 = (view b)\<lparr>v_names := v_names (view b1)\<rparr>"
    using resolve_field [OF b _ key res] by simp_all
  from replay_field_ok [OF ok1(1) v _ b' [unfolded emit_value_replay [OF res v(2)]]] ok1(2)
  have "ok InRow r m b' \<and> view b' = write_cell key (field_cell mc input v) (view b1)"
    by (simp add: deferred_for_def)
  then show ?thesis using ok1(3,4) by (metis write_cell_set_names)
qed

lemma replay_ok:
  assumes "ok InRow r (fields_cost kvs + m) b" and "fields_ok mc input kvs" and "VMalformed \<notin> snd ` set kvs"
    and "list_all2 (deferred_for mc input (v_names (view b))) ds kvs"
    and "b' = foldl (\<lambda>b d. replay_field input sb d b) b ds"
  shows "ok InRow r m b' \<and> view b' = write_fields mc input kvs (view b)"
  using assms
proof (induction kvs arbitrary: b ds)
  case Nil
  then show ?case by simp
next
  case (Cons kv kvs)
  obtain k v where kv: "kv = (k, v)" by fastforce
  from Cons.prems(4) obtain d ds' where ds: "ds = d # ds'" "deferred_for mc input (v_names (view b)) d (k, v)"
      "list_all2 (deferred_for mc input (v_names (view b))) ds' kvs"
    by (auto simp: kv list_all2_Cons2)
  from Cons.prems have "ok InRow r (field_cost v + (fields_cost kvs + m)) b" "field_ok mc input v" "v \<noteq> VMalformed"
    by (auto simp: kv add.assoc)
  from replay_field_ok [OF this ds(2) refl] have step: "ok InRow r (fields_cost kvs + m) (replay_field input sb d b)"
      "view (replay_field input sb d b) = write_cell k (field_cell mc input v) (view b)" by simp_all
  from Cons.IH [OF step(1) _ _ _ ] Cons.prems(2,3,5) ds step(2) show ?case by (simp add: kv)
qed

lemma scan_fields_ok:
  assumes "ok InRow r (fields_cost (line_fields mc input p stop blocks) + m) b"
    and "fields_ok mc input (line_fields mc input p stop blocks)"
    and "b' = scan_fields mc input p stop blocks config sb b"
  shows "ok InRow r m b' \<and>
    (\<exists>ns. v_names (view b) \<subseteq>\<^sub>m ns \<and>
      view b' = (write_fields mc input (emitted config (line_fields mc input p stop blocks)) (view b))\<lparr>v_names := ns\<rparr>)"
  using assms
proof (induction "stop - p" arbitrary: p b rule: less_induct)
  case less
  show ?case
  proof (cases "scan_field mc input p stop blocks")
    case None
    with less.prems names_extend_refl [of "view b"] show ?thesis
      by (simp add: line_fields.simps [of mc input p] scan_fields.simps [of mc input p])
  next
    case (Some kvq)
    obtain key v q where kvq: "kvq = (key, v, q)" by (metis prod_cases3)
    let ?p = "skip_comma input q stop"
    let ?kvs = "line_fields mc input ?p stop blocks"
    let ?b1 = "if is_wanted config key then emit_value mc sb input key v b else b"
    have lf: "line_fields mc input p stop blocks = (key, v) # ?kvs"
      using Some kvq by (simp add: line_fields.simps [of mc input p])
    have dec: "stop - ?p < stop - p"
      using scan_field_progress [OF Some [unfolded kvq]] skip_comma_le [of q input stop] by (auto intro: diff_less_mono2)
    have cost: "ok InRow r (field_cost v + (fields_cost ?kvs + m)) b" and fok: "field_ok mc input v" "fields_ok mc input ?kvs" "valid_utf8 key"
      using less.prems lf by (simp_all add: add.assoc)
    have step: "ok InRow r (fields_cost ?kvs + m) ?b1 \<and> (\<exists>ns. v_names (view b) \<subseteq>\<^sub>m ns \<and>
        view ?b1 = (write_fields mc input (emitted config [(key, v)]) (view b))\<lparr>v_names := ns\<rparr>)"
    proof (cases "is_wanted config key \<and> v \<noteq> VMalformed")
      case True
      with emit_value_ok [OF cost fok(1) _ fok(3) refl] show ?thesis by simp
    next
      case False
      then have "?b1 = b" "emitted config [(key, v)] = []" by (auto simp: emit_value_def)
      with ok_less [OF cost] names_extend_refl [of "view b"] show ?thesis by simp
    qed
    then obtain ns where ns: "v_names (view b) \<subseteq>\<^sub>m ns"
        "view ?b1 = (write_fields mc input (emitted config [(key, v)]) (view b))\<lparr>v_names := ns\<rparr>" by blast
    have b': "b' = scan_fields mc input ?p stop blocks config sb ?b1"
      using less.prems(3) Some kvq by (simp add: scan_fields.simps [of mc input p])
    from less.hyps [OF dec conjunct1 [OF step] fok(2) b'] obtain ns' where ns': "ok InRow r m b'" "v_names (view ?b1) \<subseteq>\<^sub>m ns'"
        "view b' = (write_fields mc input (emitted config ?kvs) (view ?b1))\<lparr>v_names := ns'\<rparr>" by blast
    have "v_names (view b) \<subseteq>\<^sub>m ns'" using ns ns'(2) by (auto intro: map_le_trans)
    moreover have "view b' = (write_fields mc input (emitted config (line_fields mc input p stop blocks)) (view b))\<lparr>v_names := ns'\<rparr>"
      using ns(2) ns'(3) by (simp add: lf write_fields_set_names)
    ultimately show ?thesis using ns'(1) by blast
  qed
qed


lemma scan_fields_deferred_ok:
  assumes "ok InBatch r m b"
    and "scan_fields_deferred mc input p stop blocks config predicate sb b pred ds = (b', pred', ds')"
    and "list_all2 (deferred_for mc input (v_names (view b))) ds kvs"
    and "fields_ok mc input (line_fields mc input p stop blocks)"
  shows "ok InBatch r m b' \<and>
    pred' = pred @ predicate_fields mc input predicate (line_fields mc input p stop blocks) \<and>
    (\<exists>ns. v_names (view b) \<subseteq>\<^sub>m ns \<and> view b' = (view b)\<lparr>v_names := ns\<rparr> \<and>
      list_all2 (deferred_for mc input ns) ds' (kvs @ emitted config (line_fields mc input p stop blocks)))"
  using assms
proof (induction "stop - p" arbitrary: p b pred ds kvs rule: less_induct)
  case less
  show ?case
  proof (cases "scan_field mc input p stop blocks")
    case None
    with less.prems have "b' = b" "pred' = pred" "ds' = ds" "line_fields mc input p stop blocks = []"
      by (simp_all add: line_fields.simps [of mc input p] scan_fields_deferred.simps [of mc input p])
    with less.prems show ?thesis by (auto intro!: exI [of _ "v_names (view b)"])
  next
    case (Some kvq)
    obtain key v q where kvq: "kvq = (key, v, q)" by (metis prod_cases3)
    let ?p = "skip_comma input q stop"
    let ?kvs = "line_fields mc input ?p stop blocks"
    let ?pred = "pred @ predicate_fields mc input predicate [(key, v)]"
    obtain b1 ds1 where step: "(b1, ds1) =
        (if is_wanted config key \<and> v \<noteq> VMalformed
         then (case resolve_field sb key b of (idx, b) \<Rightarrow>
                 (b, ds @ [\<lparr>deferred_idx = idx, deferred_kind = deferred_value mc input v\<rparr>]))
         else (b, ds))" by (metis prod.exhaust)
    have lf: "line_fields mc input p stop blocks = (key, v) # ?kvs"
      using Some kvq by (simp add: line_fields.simps [of mc input p])
    have dec: "stop - ?p < stop - p"
      using scan_field_progress [OF Some [unfolded kvq]] skip_comma_le [of q input stop] by (auto intro: diff_less_mono2)
    have rec: "scan_fields_deferred mc input ?p stop blocks config predicate sb b1 ?pred ds1 = (b', pred', ds')"
      using less.prems(2) Some kvq step [symmetric]
      by (cases "references_field predicate key"; cases "pred_value mc input v")
        (simp_all add: scan_fields_deferred.simps [of mc input p] Let_def)
    have b1: "ok InBatch r m b1 \<and> (\<exists>ns. v_names (view b) \<subseteq>\<^sub>m ns \<and> view b1 = (view b)\<lparr>v_names := ns\<rparr> \<and>
        list_all2 (deferred_for mc input ns) ds1 (kvs @ emitted config [(key, v)]))"
    proof (cases "is_wanted config key \<and> v \<noteq> VMalformed")
      case True
      obtain idx b2 where res: "resolve_field sb key b = (idx, b2)" by fastforce
      with True step have eq: "b1 = b2" "ds1 = ds @ [\<lparr>deferred_idx = idx, deferred_kind = deferred_value mc input v\<rparr>]"
        by simp_all
      have "valid_utf8 key" using less.prems(4) lf by simp
      from resolve_field [OF less.prems(1) _ this res] have rf: "ok InBatch r m b2" "view b2 = (view b)\<lparr>v_names := v_names (view b2)\<rparr>"
          "v_names (view b2) idx = Some key" "v_names (view b) \<subseteq>\<^sub>m v_names (view b2)"
        by simp_all
      have "list_all2 (deferred_for mc input (v_names (view b2))) ds kvs"
        using less.prems(3) rf by (auto intro: list_all2_mono deferred_for_mono)
      then have "list_all2 (deferred_for mc input (v_names (view b2))) ds1 (kvs @ emitted config [(key, v)])"
        using True rf by (simp add: eq list_all2_appendI deferred_for_def)
      with rf eq show ?thesis by blast
    next
      case False
      with step less.prems show ?thesis by (auto intro!: exI [of _ "v_names (view b)"])
    qed
    then obtain ns where ns: "v_names (view b) \<subseteq>\<^sub>m ns" "view b1 = (view b)\<lparr>v_names := ns\<rparr>"
        "list_all2 (deferred_for mc input ns) ds1 (kvs @ emitted config [(key, v)])" by blast
    have names: "v_names (view b1) = ns" using ns(2) by simp
    have "fields_ok mc input ?kvs" using less.prems(4) lf by simp
    from less.hyps [OF dec conjunct1 [OF b1] rec ns(3) [folded names] this]
    obtain ns' where ns': "ok InBatch r m b'" "ns \<subseteq>\<^sub>m ns'" "view b' = (view b1)\<lparr>v_names := ns'\<rparr>"
        "pred' = ?pred @ predicate_fields mc input predicate ?kvs"
        "list_all2 (deferred_for mc input ns') ds' ((kvs @ emitted config [(key, v)]) @ emitted config ?kvs)"
      using names by auto
    have "v_names (view b) \<subseteq>\<^sub>m ns'" using ns(1) ns'(2) by (rule map_le_trans)
    moreover have "view b' = (view b)\<lparr>v_names := ns'\<rparr>" using ns(2) ns'(3) by simp
    moreover have "list_all2 (deferred_for mc input ns') ds' (kvs @ emitted config (line_fields mc input p stop blocks))"
      using ns'(5) by (auto simp: lf split: if_splits)
    ultimately show ?thesis using ns'(1,4) by (auto simp: lf split: option.splits)
  qed
qed


lemma open_row_ok:
  assumes "ok InBatch (Suc r) m b" and "start \<le> stop" "stop \<le> length input" and "capture = captures_line config"
    and "capture \<Longrightarrow> valid_utf8 (subslice input start stop)"
    and "b' = emit_line input start stop config sb (begin_row sb b)"
  shows "ok InRow r m b' \<and> view b' = (view b)\<lparr>v_current := Map.empty,
    v_lines := v_lines (view b) @ (if captures_line config then [subslice input start stop] else [])\<rparr>"
proof (cases capture)
  case True
  from append_line [OF assms(1) True assms(2,3) assms(5) [OF True] refl] True assms(4,6) show ?thesis
    by (simp add: emit_line_def)
next
  case False
  with begin_row [OF assms(1)] assms(4,6) show ?thesis by (simp add: emit_line_def)
qed

lemma close_row_ok:
  assumes "ok InRow r m b1" and "view b1 = (write_fields mc input kvs (w\<lparr>v_current := Map.empty, v_lines := ls\<rparr>))\<lparr>v_names := ns\<rparr>"
  shows "ok InBatch r m (end_row sb b1) \<and> v_rows (view (end_row sb b1)) = v_rows w @ [row_of mc input kvs] \<and>
    v_lines (view (end_row sb b1)) = ls"
proof -
  have "(\<lambda>k. Option.bind (row_cells mc input kvs k) id) = row_of mc input kvs"
    by (simp add: fun_eq_iff row_of_def)
  with end_row [OF assms(1)] assms(2) show ?thesis by (simp add: write_fields_current)
qed

lemma scan_line_plain_ok:
  assumes pre: "ok InBatch (Suc r) (fields_cost (object_fields (env_memchr env) input start stop blocks) + m) b"
      "start \<le> stop" "stop \<le> length input" "capture = captures_line config"
      "capture \<Longrightarrow> valid_utf8 (subslice input start stop)"
    and f: "fields_ok (env_memchr env) input (object_fields (env_memchr env) input start stop blocks)"
    and none: "row_predicate config = None"
    and b': "b' = scan_line env input start stop blocks config sb b"
  shows "ok InBatch r m b' \<and>
    v_rows (view b') = v_rows (view b) @ scan_rows env input config blocks [(start, stop)] \<and>
    v_lines (view b') = v_lines (view b) @ scan_captured env input config blocks [(start, stop)]"
proof -
  let ?mc = "env_memchr env" and ?p = "skip_whitespace input start stop"
  let ?kvs = "object_fields ?mc input start stop blocks"
  define b1 where "b1 = emit_line input start stop config sb (begin_row sb b)"
  note op = open_row_ok [OF pre(1-4) pre(5) b1_def]
  have "\<exists>b2 ns. b' = end_row sb b2 \<and> ok InRow r m b2 \<and>
      view b2 = (write_fields ?mc input (emitted config ?kvs) (view b1))\<lparr>v_names := ns\<rparr>"
  proof (cases "stop \<le> ?p \<or> input ! ?p \<noteq> LBRACE")
    case True
    then have "b' = end_row sb b1" "?kvs = []"
      using b' none by (auto simp: scan_line_def object_fields_def Let_def b1_def)
    with op show ?thesis by (intro exI [of _ b1] exI [of _ "v_names (view b1)"]) simp
  next
    case False
    define b2 where "b2 = scan_fields ?mc input (?p + 1) stop blocks config sb b1"
    have kvs: "?kvs = line_fields ?mc input (?p + 1) stop blocks" and eq: "b' = end_row sb b2"
      using False b' none by (simp_all add: scan_line_def object_fields_def Let_def b1_def b2_def)
    from scan_fields_ok [OF _ _ b2_def] op f show ?thesis unfolding kvs eq by blast
  qed
  then obtain b2 ns where b2: "b' = end_row sb b2" "ok InRow r m b2"
      "view b2 = (write_fields ?mc input (emitted config ?kvs) (view b1))\<lparr>v_names := ns\<rparr>" by blast
  from close_row_ok [OF b2(2)] b2(1,3) op none show ?thesis
    by (simp add: scan_rows_def scan_captured_def line_passes_def)
qed


lemma scan_line_predicate_ok:
  assumes pre: "ok InBatch (Suc r) (fields_cost (object_fields (env_memchr env) input start stop blocks) + m) b"
      "start \<le> stop" "stop \<le> length input" "capture = captures_line config"
      "capture \<Longrightarrow> valid_utf8 (subslice input start stop)"
    and f: "fields_ok (env_memchr env) input (object_fields (env_memchr env) input start stop blocks)"
    and pred: "row_predicate config = Some predicate"
    and b': "b' = scan_line env input start stop blocks config sb b"
  shows "ok InBatch r m b' \<and>
    v_rows (view b') = v_rows (view b) @ scan_rows env input config blocks [(start, stop)] \<and>
    v_lines (view b') = v_lines (view b) @ scan_captured env input config blocks [(start, stop)]"
proof -
  let ?mc = "env_memchr env" and ?p = "skip_whitespace input start stop"
  let ?kvs = "object_fields ?mc input start stop blocks"
  let ?passes = "line_passes env input start stop config ?kvs"
  let ?open = "\<lambda>b. emit_line input start stop config sb (begin_row sb b)"
  have "\<exists>b1 ns ds. ok InBatch (Suc r) (fields_cost ?kvs + m) b1 \<and> view b1 = (view b)\<lparr>v_names := ns\<rparr> \<and>
      list_all2 (deferred_for ?mc input ns) ds (emitted config ?kvs) \<and>
      b' = (if ?passes then end_row sb (foldl (\<lambda>b d. replay_field input sb d b) (?open b1) ds) else b1)"
  proof (cases "stop \<le> ?p \<or> input ! ?p \<noteq> LBRACE")
    case True
    then have "?kvs = []" by (auto simp: object_fields_def Let_def)
    moreover from True b' pred have "b' = (if ?passes then end_row sb (?open b) else b)"
      by (auto simp: scan_line_def scan_line_with_predicate_def line_passes_def line_scratch_def object_fields_def Let_def)
    ultimately show ?thesis using pre(1) by (intro exI [of _ b] exI [of _ "v_names (view b)"] exI [of _ "[]"]) simp
  next
    case False
    let ?scratch = "line_scratch input start stop config predicate"
    have kvs: "?kvs = line_fields ?mc input (?p + 1) stop blocks" using False by (simp add: object_fields_def Let_def)
    obtain b1 pred' ds where sc:
      "scan_fields_deferred ?mc input (?p + 1) stop blocks config predicate sb b ?scratch [] = (b1, pred', ds)"
      by (metis prod_cases3)
    from scan_fields_deferred_ok [OF pre(1) sc _ f [unfolded kvs]] obtain ns where
      "ok InBatch (Suc r) (fields_cost ?kvs + m) b1" "pred' = ?scratch @ predicate_fields ?mc input predicate ?kvs"
      "view b1 = (view b)\<lparr>v_names := ns\<rparr>" "list_all2 (deferred_for ?mc input ns) ds (emitted config ?kvs)"
      unfolding kvs by force
    moreover from this(2) have "b' = (if ?passes then end_row sb (foldl (\<lambda>b d. replay_field input sb d b) (?open b1) ds) else b1)"
      using False b' pred sc unfolding line_scratch_def
      by (simp add: scan_line_def scan_line_with_predicate_def line_passes_def line_scratch_def Let_def)
    ultimately show ?thesis by blast
  qed
  then obtain b1 ns ds where b1: "ok InBatch (Suc r) (fields_cost ?kvs + m) b1" "view b1 = (view b)\<lparr>v_names := ns\<rparr>"
      "list_all2 (deferred_for ?mc input ns) ds (emitted config ?kvs)"
      "b' = (if ?passes then end_row sb (foldl (\<lambda>b d. replay_field input sb d b) (?open b1) ds) else b1)" by blast
  show ?thesis
  proof (cases ?passes)
    case True
    define b2 where "b2 = foldl (\<lambda>b d. replay_field input sb d b) (?open b1) ds"
    note op = open_row_ok [OF b1(1) pre(2-4) pre(5) refl]
    have "ok InRow r (fields_cost (emitted config ?kvs) + m) (?open b1)"
      using ok_less [OF conjunct1 [OF op]] emitted_cost [of config ?kvs] by simp
    from replay_ok [OF this emitted_ok [OF f] emitted_well _ b2_def] b1(2,3) op
    have b2: "ok InRow r m b2" "view b2 = write_fields ?mc input (emitted config ?kvs) (view (?open b1))" by simp_all
    then have "view b2 = (write_fields ?mc input (emitted config ?kvs) ((view b)\<lparr>v_current := Map.empty,
        v_lines := v_lines (view b) @ (if captures_line config then [subslice input start stop] else [])\<rparr>))\<lparr>v_names := ns\<rparr>"
      using op b1(2) by (simp add: write_fields_current)
    from close_row_ok [OF b2(1) this] b1(4) True b2_def show ?thesis
      by (simp add: scan_rows_def scan_captured_def)
  next
    case False
    with b1 ok_less [OF b1(1)] show ?thesis by (simp add: scan_rows_def scan_captured_def)
  qed
qed

lemmas scan_line_ok = scan_line_plain_ok scan_line_predicate_ok

lemma scan_ranges_ok:
  assumes "ok InBatch (length ranges + r)
      (sum_list (map (\<lambda>(s, e). fields_cost (object_fields (env_memchr env) input s e blocks)) ranges) + m) b"
    and "capture = captures_line config"
    and "\<And>s e. (s, e) \<in> set ranges \<Longrightarrow> s \<le> e \<and> e \<le> length input \<and> valid_utf8 (subslice input s e) \<and>
      fields_ok (env_memchr env) input (object_fields (env_memchr env) input s e blocks)"
    and "b' = foldl (\<lambda>b (s, e). scan_line env input s e blocks config sb b) b ranges"
  shows "ok InBatch r m b' \<and>
    v_rows (view b') = v_rows (view b) @ scan_rows env input config blocks ranges \<and>
    v_lines (view b') = v_lines (view b) @ scan_captured env input config blocks ranges"
  using assms
proof (induction ranges arbitrary: b)
  case Nil
  then show ?case by (simp add: scan_rows_def scan_captured_def)
next
  case (Cons se ranges)
  obtain s e where se: "se = (s, e)" by fastforce
  let ?b1 = "scan_line env input s e blocks config sb b"
  let ?m = "sum_list (map (\<lambda>(s, e). fields_cost (object_fields (env_memchr env) input s e blocks)) ranges) + m"
  have "ok InBatch (Suc (length ranges + r)) (fields_cost (object_fields (env_memchr env) input s e blocks) + ?m) b"
    using Cons.prems(1) by (simp add: se add.assoc)
  note line = scan_line_ok [OF this _ _ Cons.prems(2) _ _ _ refl]
  have step: "ok InBatch (length ranges + r) ?m ?b1 \<and>
      v_rows (view ?b1) = v_rows (view b) @ scan_rows env input config blocks [(s, e)] \<and>
      v_lines (view ?b1) = v_lines (view b) @ scan_captured env input config blocks [(s, e)]"
    using line Cons.prems(3) [of s e] se by (cases "row_predicate config") simp_all
  from Cons.IH [OF conjunct1 [OF step] Cons.prems(2,3)] Cons.prems(4) step se show ?case
    by (simp add: scan_rows_def scan_captured_def)
qed

end

end
