(* ===== verification/Streaming_Builder.thy ===== *)
theory Streaming_Builder
  imports Scan_Rows
begin

text \<open>
  The columnar builder behind the scanner: the row protocol of
  \<^verbatim>\<open>ffwd-arrow/src/columnar/row_protocol.rs\<close>, the duplicate-key bits of
  \<^verbatim>\<open>ffwd-arrow/src/lib.rs\<close>, \<^verbatim>\<open>ffwd-arrow/src/streaming_builder/mod.rs\<close> and the trait
  implementation of \<^verbatim>\<open>ffwd-arrow/src/scanner.rs\<close>.

  An operation returns \<open>None\<close> where the source panics: a failed \<^verbatim>\<open>assert\<close> or \<^verbatim>\<open>debug_assert\<close>,
  an index out of range, the overflow of the row counter. Row numbers, offsets and lengths are
  \<^verbatim>\<open>u32\<close> and kept at that width.
\<close>

subsection \<open>Row protocol\<close>

record RowLifecycle =
  lc_state :: BuilderState
  row_count :: u32
  written_bits :: u64
  line_written_this_row :: bool

definition lifecycle_new :: RowLifecycle where
  "lifecycle_new = \<lparr>lc_state = Idle, row_count = 0, written_bits = 0, line_written_this_row = False\<rparr>"

definition lifecycle_begin_batch :: "RowLifecycle \<Rightarrow> RowLifecycle option" where
  "lifecycle_begin_batch lc =
     (if lc_state lc = Idle \<or> lc_state lc = InBatch
      then Some (lc\<lparr>lc_state := InBatch, row_count := 0, written_bits := 0\<rparr>)
      else None)"

definition lifecycle_begin_row :: "RowLifecycle \<Rightarrow> RowLifecycle option" where
  "lifecycle_begin_row lc =
     (if lc_state lc = InBatch
      then Some (lc\<lparr>written_bits := 0, line_written_this_row := False, lc_state := InRow\<rparr>)
      else None)"

definition checked_add_u32 :: "u32 \<Rightarrow> u32 \<Rightarrow> u32 option" where
  "checked_add_u32 a b = (if a \<le> a + b then Some (a + b) else None)"

definition lifecycle_end_row :: "RowLifecycle \<Rightarrow> RowLifecycle option" where
  "lifecycle_end_row lc =
     (if lc_state lc = InRow
      then (case checked_add_u32 (row_count lc) 1 of
              Some n \<Rightarrow> Some (lc\<lparr>row_count := n, lc_state := InBatch\<rparr>)
            | None \<Rightarrow> None)
      else None)"

definition lifecycle_finish_batch :: "RowLifecycle \<Rightarrow> RowLifecycle option" where
  "lifecycle_finish_batch lc = (if lc_state lc = InBatch then Some (lc\<lparr>lc_state := Idle\<rparr>) else None)"

definition lifecycle_discard :: "RowLifecycle \<Rightarrow> RowLifecycle" where
  "lifecycle_discard lc = lc\<lparr>lc_state := Idle, row_count := 0, written_bits := 0\<rparr>"

text \<open>The written bits of the first 64 fields of a row: whether the field was written, and the new bits.\<close>

definition check_dup_bits :: "u64 \<Rightarrow> nat \<Rightarrow> bool \<times> u64" where
  "check_dup_bits bits idx =
     (if 64 \<le> idx then (False, bits)
      else (let b = push_bit idx 1
            in if bits AND b \<noteq> 0 then (True, bits) else (False, bits OR b)))"

subsection \<open>State\<close>

definition u32_try_from :: "nat \<Rightarrow> u32 option" where
  "u32_try_from n = (if int n < 2 ^ 32 then Some (of_nat n) else None)"

record FieldColumns =
  fc_name :: bytes
  str_views :: "(u32 \<times> u32 \<times> u32) list"
  int_values :: "(u32 \<times> int) list"
  float_values :: "(u32 \<times> f64) list"
  bool_values :: "(u32 \<times> bool) list"
  has_str :: bool
  has_int :: bool
  has_float :: bool
  has_bool :: bool
  last_row :: u32

definition field_columns_new :: "bytes \<Rightarrow> FieldColumns" where
  "field_columns_new name =
     \<lparr>fc_name = name, str_views = [], int_values = [], float_values = [], bool_values = [],
      has_str = False, has_int = False, has_float = False, has_bool = False, last_row = -1\<rparr>"

definition field_columns_clear :: "FieldColumns \<Rightarrow> FieldColumns" where
  "field_columns_clear fc =
     fc\<lparr>str_views := [], int_values := [], float_values := [], bool_values := [],
        has_str := False, has_int := False, has_float := False, has_bool := False, last_row := -1\<rparr>"

record StreamingBuilder =
  columns :: "FieldColumns list"
  field_index :: "bytes \<rightharpoonup> nat"
  num_active :: nat
  lifecycle :: RowLifecycle
  input_buf :: bytes
  decoded_buf :: bytes
  line_column :: "bytes option"
  line_views :: "(u32 \<times> u32) list"
  resource_attrs :: "(bytes \<times> bytes) list"

definition streaming_new :: "bytes option \<Rightarrow> StreamingBuilder" where
  "streaming_new name =
     \<lparr>columns = [], field_index = Map.empty, num_active = 0, lifecycle = lifecycle_new,
      input_buf = [], decoded_buf = [], line_column = name, line_views = [], resource_attrs = []\<rparr>"

definition set_resource_attributes :: "(bytes \<times> bytes) list \<Rightarrow> StreamingBuilder \<Rightarrow> StreamingBuilder" where
  "set_resource_attributes attrs b = b\<lparr>resource_attrs := attrs\<rparr>"

subsection \<open>Batch and row\<close>

definition streaming_begin_batch :: "bytes \<Rightarrow> StreamingBuilder \<Rightarrow> StreamingBuilder option" where
  "streaming_begin_batch buf b =
     (if u32_try_from (length buf) = None \<or> length (columns b) < num_active b then None
      else (case lifecycle_begin_batch (lifecycle b) of
              None \<Rightarrow> None
            | Some lc \<Rightarrow>
                Some (b\<lparr>input_buf := buf, decoded_buf := [], lifecycle := lc,
                        columns := map field_columns_clear (take (num_active b) (columns b)) @
                          drop (num_active b) (columns b),
                        field_index := Map.empty, num_active := 0, line_views := []\<rparr>)))"

definition streaming_begin_row :: "StreamingBuilder \<Rightarrow> StreamingBuilder option" where
  "streaming_begin_row b = map_option (\<lambda>lc. b\<lparr>lifecycle := lc\<rparr>) (lifecycle_begin_row (lifecycle b))"

definition streaming_end_row :: "StreamingBuilder \<Rightarrow> StreamingBuilder option" where
  "streaming_end_row b = map_option (\<lambda>lc. b\<lparr>lifecycle := lc\<rparr>) (lifecycle_end_row (lifecycle b))"

definition streaming_resolve_field :: "bytes \<Rightarrow> StreamingBuilder \<Rightarrow> (nat \<times> StreamingBuilder) option" where
  "streaming_resolve_field key b =
     (if lc_state (lifecycle b) \<noteq> InBatch \<and> lc_state (lifecycle b) \<noteq> InRow then None
      else (case field_index b key of
              Some idx \<Rightarrow> Some (idx, b)
            | None \<Rightarrow>
                (let idx = num_active b;
                     cols = (if idx < length (columns b)
                             then (columns b)[idx := (columns b ! idx)\<lparr>fc_name := key\<rparr>]
                             else columns b @ [field_columns_new key])
                 in Some (idx, b\<lparr>columns := cols, num_active := num_active b + 1,
                                 field_index := (field_index b)(key \<mapsto> idx)\<rparr>))))"

subsection \<open>Values\<close>

text \<open>The position of a slice in the input buffer.\<close>

definition offset_of :: "StreamingBuilder \<Rightarrow> slice \<Rightarrow> u32 option" where
  "offset_of b v =
     (if fst v + length (snd v) \<le> length (input_buf b) then u32_try_from (fst v) else None)"

definition in_row :: "StreamingBuilder \<Rightarrow> bool" where
  "in_row b \<longleftrightarrow> lc_state (lifecycle b) = InRow"

definition rows_done :: "StreamingBuilder \<Rightarrow> u32" where
  "rows_done b = row_count (lifecycle b)"

text \<open>
  \<^verbatim>\<open>check_dup_bits(self.lifecycle.written_bits_mut(), idx)\<close> on the builder.
\<close>

definition mark_written :: "nat \<Rightarrow> StreamingBuilder \<Rightarrow> bool \<times> StreamingBuilder" where
  "mark_written idx b =
     (case check_dup_bits (written_bits (lifecycle b)) idx of
        (dup, bits) \<Rightarrow> (dup, b\<lparr>lifecycle := (lifecycle b)\<lparr>written_bits := bits\<rparr>\<rparr>))"

definition update_column :: "nat \<Rightarrow> (FieldColumns \<Rightarrow> FieldColumns) \<Rightarrow> StreamingBuilder \<Rightarrow> StreamingBuilder" where
  "update_column idx f b = b\<lparr>columns := (columns b)[idx := f (columns b ! idx)]\<rparr>"

text \<open>Remember the row of a write to a field beyond the bit mask.\<close>

definition touch_row :: "nat \<Rightarrow> StreamingBuilder \<Rightarrow> StreamingBuilder" where
  "touch_row idx b = (if 64 \<le> idx then update_column idx (\<lambda>fc. fc\<lparr>last_row := rows_done b\<rparr>) b else b)"

definition push_view :: "nat \<Rightarrow> u32 \<Rightarrow> u32 \<Rightarrow> StreamingBuilder \<Rightarrow> StreamingBuilder" where
  "push_view idx off len b =
     update_column idx (\<lambda>fc. fc\<lparr>has_str := True, str_views := str_views fc @ [(rows_done b, off, len)]\<rparr>) b"

definition streaming_append_str :: "nat \<Rightarrow> slice \<Rightarrow> StreamingBuilder \<Rightarrow> StreamingBuilder option" where
  "streaming_append_str idx v b =
     (if \<not> in_row b then None
      else (case mark_written idx b of (dup, b) \<Rightarrow>
        if dup then Some b
        else if 64 \<le> idx \<and> length (columns b) \<le> idx then None
        else if 64 \<le> idx \<and> last_row (columns b ! idx) = rows_done b then Some b
        else if \<not> valid_utf8 (snd v) then Some b
        else (case u32_try_from (length (snd v)) of
                None \<Rightarrow> Some b
              | Some len \<Rightarrow>
                  (let b = touch_row idx b
                   in case offset_of b v of
                        None \<Rightarrow> None
                      | Some off \<Rightarrow>
                          if length (columns b) \<le> idx then None else Some (push_view idx off len b)))))"

definition append_validated_str_by_idx :: "nat \<Rightarrow> slice \<Rightarrow> StreamingBuilder \<Rightarrow> StreamingBuilder option" where
  "append_validated_str_by_idx idx v b = streaming_append_str idx v b"

text \<open>The offset in the combined buffer where decoded bytes are appended.\<close>

definition combined_offset :: "StreamingBuilder \<Rightarrow> u32 option" where
  "combined_offset b =
     (case u32_try_from (length (decoded_buf b)) of
        None \<Rightarrow> None
      | Some decoded_offset \<Rightarrow>
          (case u32_try_from (length (input_buf b)) of
             None \<Rightarrow> None
           | Some buf_len \<Rightarrow> checked_add_u32 buf_len decoded_offset))"

definition append_decoded_str_inner :: "nat \<Rightarrow> bytes \<Rightarrow> StreamingBuilder \<Rightarrow> StreamingBuilder option" where
  "append_decoded_str_inner idx v b =
     (case u32_try_from (length v) of
        None \<Rightarrow> Some b
      | Some len \<Rightarrow>
          (case combined_offset b of
             None \<Rightarrow> Some b
           | Some off \<Rightarrow>
               if length (columns b) \<le> idx then None
               else Some (push_view idx off len ((touch_row idx b)\<lparr>decoded_buf := decoded_buf b @ v\<rparr>))))"

definition streaming_append_decoded_str :: "nat \<Rightarrow> bytes \<Rightarrow> StreamingBuilder \<Rightarrow> StreamingBuilder option" where
  "streaming_append_decoded_str idx v b =
     (if \<not> in_row b then None
      else (case mark_written idx b of (dup, b) \<Rightarrow>
        if dup then Some b
        else if 64 \<le> idx \<and> length (columns b) \<le> idx then None
        else if 64 \<le> idx \<and> last_row (columns b ! idx) = rows_done b then Some b
        else if \<not> valid_utf8 v then Some b
        else append_decoded_str_inner idx v b))"

text \<open>The value is a \<^verbatim>\<open>&str\<close>, valid UTF-8 by its type.\<close>

definition append_prevalidated_str_by_idx :: "nat \<Rightarrow> bytes \<Rightarrow> StreamingBuilder \<Rightarrow> StreamingBuilder option" where
  "append_prevalidated_str_by_idx idx v b =
     (if \<not> in_row b then None
      else (case mark_written idx b of (dup, b) \<Rightarrow>
        if dup then Some b
        else if 64 \<le> idx \<and> length (columns b) \<le> idx then None
        else if 64 \<le> idx \<and> last_row (columns b ! idx) = rows_done b then Some b
        else append_decoded_str_inner idx v b))"

definition append_validated_decoded_str_by_idx :: "nat \<Rightarrow> bytes \<Rightarrow> StreamingBuilder \<Rightarrow> StreamingBuilder option" where
  "append_validated_decoded_str_by_idx idx v b = streaming_append_decoded_str idx v b"

text \<open>
  The prologue shared by the scalar appends: the duplicate checks, and the record of the row for
  fields beyond the bit mask. \<open>f\<close> is what the append does to the column, given the row.
\<close>

definition append_scalar ::
  "nat \<Rightarrow> (u32 \<Rightarrow> FieldColumns \<Rightarrow> FieldColumns) \<Rightarrow> StreamingBuilder \<Rightarrow> StreamingBuilder option" where
  "append_scalar idx f b =
     (if \<not> in_row b then None
      else (case mark_written idx b of (dup, b) \<Rightarrow>
        if dup then Some b
        else if length (columns b) \<le> idx then None
        else if 64 \<le> idx \<and> last_row (columns b ! idx) = rows_done b then Some b
        else Some (update_column idx (f (rows_done b)) (touch_row idx b))))"

definition push_int :: "int \<Rightarrow> u32 \<Rightarrow> FieldColumns \<Rightarrow> FieldColumns" where
  "push_int v row fc = fc\<lparr>has_int := True, int_values := int_values fc @ [(row, v)]\<rparr>"

definition push_float :: "f64 \<Rightarrow> u32 \<Rightarrow> FieldColumns \<Rightarrow> FieldColumns" where
  "push_float v row fc = fc\<lparr>has_float := True, float_values := float_values fc @ [(row, v)]\<rparr>"

definition push_bool :: "bool \<Rightarrow> u32 \<Rightarrow> FieldColumns \<Rightarrow> FieldColumns" where
  "push_bool v row fc = fc\<lparr>has_bool := True, bool_values := bool_values fc @ [(row, v)]\<rparr>"

definition streaming_append_int :: "nat \<Rightarrow> bytes \<Rightarrow> StreamingBuilder \<Rightarrow> StreamingBuilder option" where
  "streaming_append_int idx v =
     append_scalar idx (case parse_int_fast v of Some n \<Rightarrow> push_int n | None \<Rightarrow> (\<lambda>row fc. fc))"

definition append_i64_value_by_idx :: "nat \<Rightarrow> int \<Rightarrow> StreamingBuilder \<Rightarrow> StreamingBuilder option" where
  "append_i64_value_by_idx idx v = append_scalar idx (push_int v)"

definition streaming_append_float :: "nat \<Rightarrow> bytes \<Rightarrow> StreamingBuilder \<Rightarrow> StreamingBuilder option" where
  "streaming_append_float idx v =
     append_scalar idx (case parse_float_fast v of Some x \<Rightarrow> push_float x | None \<Rightarrow> (\<lambda>row fc. fc))"

definition append_f64_value_by_idx :: "nat \<Rightarrow> f64 \<Rightarrow> StreamingBuilder \<Rightarrow> StreamingBuilder option" where
  "append_f64_value_by_idx idx v = append_scalar idx (push_float v)"

definition streaming_append_bool :: "nat \<Rightarrow> bool \<Rightarrow> StreamingBuilder \<Rightarrow> StreamingBuilder option" where
  "streaming_append_bool idx v = append_scalar idx (push_bool v)"

definition streaming_append_null :: "nat \<Rightarrow> StreamingBuilder \<Rightarrow> StreamingBuilder option" where
  "streaming_append_null idx b =
     (if \<not> in_row b then None
      else (case mark_written idx b of (dup, b) \<Rightarrow>
        if length (columns b) \<le> idx then None else Some (touch_row idx b)))"

text \<open>The whole line; bytes that are not UTF-8 are replaced and kept in the decoded buffer.\<close>

definition push_line_view :: "u32 \<times> u32 \<Rightarrow> StreamingBuilder \<Rightarrow> StreamingBuilder" where
  "push_line_view view b =
     b\<lparr>line_views := line_views b @ [view],
       lifecycle := (lifecycle b)\<lparr>line_written_this_row := True\<rparr>\<rparr>"

definition streaming_append_line :: "slice \<Rightarrow> StreamingBuilder \<Rightarrow> StreamingBuilder option" where
  "streaming_append_line line b =
     (if \<not> in_row b then None
      else if line_column b = None \<or> line_written_this_row (lifecycle b) then Some b
      else if valid_utf8 (snd line) then
        (case u32_try_from (length (snd line)) of
           None \<Rightarrow> Some b
         | Some len \<Rightarrow>
             (case offset_of b line of None \<Rightarrow> None | Some off \<Rightarrow> Some (push_line_view (off, len) b)))
      else
        (let lossy = from_utf8_lossy (snd line)
         in case u32_try_from (length lossy) of
              None \<Rightarrow> Some b
            | Some len \<Rightarrow>
                (case combined_offset b of
                   None \<Rightarrow> Some b
                 | Some off \<Rightarrow> Some (push_line_view (off, len) (b\<lparr>decoded_buf := decoded_buf b @ lossy\<rparr>)))))"

text \<open>The trait implementation; a panic stops the scan.\<close>

definition streaming_ops :: "StreamingBuilder option ScanBuilder" where
  "streaming_ops =
     \<lparr>begin_row = (\<lambda>b. Option.bind b streaming_begin_row),
      end_row = (\<lambda>b. Option.bind b streaming_end_row),
      resolve_field = (\<lambda>key b. (case Option.bind b (streaming_resolve_field key) of
                                  Some (idx, b) \<Rightarrow> (idx, Some b) | None \<Rightarrow> (0, None))),
      append_str_by_idx = (\<lambda>idx v b. Option.bind b (streaming_append_str idx v)),
      append_decoded_str_by_idx = (\<lambda>idx v b. Option.bind b (streaming_append_decoded_str idx v)),
      append_int_by_idx = (\<lambda>idx v b. Option.bind b (streaming_append_int idx v)),
      append_float_by_idx = (\<lambda>idx v b. Option.bind b (streaming_append_float idx v)),
      append_bool_by_idx = (\<lambda>idx v b. Option.bind b (streaming_append_bool idx v)),
      append_null_by_idx = (\<lambda>idx b. Option.bind b (streaming_append_null idx)),
      append_line = (\<lambda>line b. Option.bind b (streaming_append_line line))\<rparr>"

end
