(* ===== verification/Utf8_Scan.thy ===== *)
theory Utf8_Scan
  imports Scan_Rows
begin

text \<open>
  UTF-8 through the scanner: on a buffer that is valid UTF-8, every line, key and value the
  scanner cuts out of it is valid UTF-8, and decoding escapes keeps it so. The positions the
  scanner cuts at are next to ASCII bytes, which is where a valid buffer can be cut.
\<close>

subsection \<open>Encoded characters\<close>

lemma below_check:
  fixes x :: u8
  assumes "list_all P (map of_nat [0..<n])" and "unat x < n"
  shows "P x"
proof -
  have "(of_nat (unat x) :: u8) \<in> of_nat ` set [0..<n]" using assms(2) by (intro imageI) simp
  then have "x \<in> of_nat ` set [0..<n]" by simp
  with assms(1) show ?thesis by (auto simp: list_all_iff)
qed

lemma or_offset:
  fixes x :: u8
  shows "unat x < 32 \<Longrightarrow> unat (192 OR x) = 192 + unat x" and "unat x < 16 \<Longrightarrow> unat (224 OR x) = 224 + unat x"
    and "unat x < 8 \<Longrightarrow> unat (240 OR x) = 240 + unat x" and "unat x < 64 \<Longrightarrow> unat (128 OR x) = 128 + unat x"
proof -
  have "list_all (\<lambda>x. uint (192 OR x) = uint (192 + x) \<and> 192 \<le> 192 + x) (map of_nat [0..<32] :: u8 list)" by code_simp
  from below_check [OF this] show "unat x < 32 \<Longrightarrow> unat (192 OR x) = 192 + unat x"
    by (auto simp: word_uint_eq_iff [symmetric] unat_plus_simple)
  have "list_all (\<lambda>x. uint (224 OR x) = uint (224 + x) \<and> 224 \<le> 224 + x) (map of_nat [0..<16] :: u8 list)" by code_simp
  from below_check [OF this] show "unat x < 16 \<Longrightarrow> unat (224 OR x) = 224 + unat x"
    by (auto simp: word_uint_eq_iff [symmetric] unat_plus_simple)
  have "list_all (\<lambda>x. uint (240 OR x) = uint (240 + x) \<and> 240 \<le> 240 + x) (map of_nat [0..<8] :: u8 list)" by code_simp
  from below_check [OF this] show "unat x < 8 \<Longrightarrow> unat (240 OR x) = 240 + unat x"
    by (auto simp: word_uint_eq_iff [symmetric] unat_plus_simple)
  have "list_all (\<lambda>x. uint (128 OR x) = uint (128 + x) \<and> 128 \<le> 128 + x) (map of_nat [0..<64] :: u8 list)" by code_simp
  from below_check [OF this] show "unat x < 64 \<Longrightarrow> unat (128 OR x) = 128 + unat x"
    by (auto simp: word_uint_eq_iff [symmetric] unat_plus_simple)
qed

lemma unat_byte_of: "unat (ucast (drop_bit k c) :: u8) = (unat (c :: u32) div 2 ^ k) mod 256"
  unfolding unsigned_ucast_eq unat_drop_bit_eq by (simp add: take_bit_eq_mod drop_bit_eq_div)

lemma unat_low6: "unat ((b :: u8) AND 63) = unat b mod 64"
proof -
  have "b AND 63 = take_bit 6 b" by (simp add: take_bit_eq_mask mask_eq_exp_minus_1)
  then show ?thesis by (simp add: unsigned_take_bit_eq take_bit_eq_mod unat_mod)
qed

lemma unat_cont: "unat (128 OR (b AND 63) :: u8) = 128 + unat b mod 64"
  by (subst or_offset(4)) (simp_all add: unat_low6)

lemmas unat_utf8 = unat_cont or_offset unat_byte_of [where k = 6] unat_byte_of [where k = 12] unat_byte_of [where k = 18]
  unat_byte_of [where k = 0, simplified]

lemmas byte_order = word_le_nat_alt word_less_nat_alt word_unat_eq_iff

lemma digits64: "n = k * (a * 64) + (n div a mod 64) * a + n mod a" if "n div (a * 64) = k" for n a k :: nat
  using that div_mult_mod_eq [of n "a * 64"] mod_mult2_eq [of n a 64] by (simp add: mult.commute)

lemma is_continuation_cont: "is_continuation (128 OR (b AND 63))"
  using unat_cont [of b] by (simp add: is_continuation_def word_le_nat_alt)

lemma encode_utf8_valid:
  assumes "char_from_u32 n = Some c"
  shows "valid_utf8 (encode_utf8 c)"
proof -
  let ?n = "unat c"
  have rng: "?n \<le> 0x10FFFF" "\<not> (0xD800 \<le> ?n \<and> ?n \<le> 0xDFFF)"
    using assms by (auto simp: char_from_u32_def word_less_nat_alt word_le_nat_alt split: if_splits)
  consider (1) "?n < 0x80" | (2) "0x80 \<le> ?n" "?n < 0x800" | (3) "0x800 \<le> ?n" "?n < 0x10000" | (4) "0x10000 \<le> ?n" by linarith
  then show ?thesis
  proof cases
    case 1
    then have "encode_utf8 c = [ucast c]" "unat (ucast c :: u8) = ?n"
      by (simp_all add: encode_utf8_def word_less_nat_alt unat_byte_of [where k = 0, simplified])
    with 1 show ?thesis by (simp add: valid_utf8_ascii word_le_nat_alt)
  next
    case 2
    let ?a = "192 OR ucast (drop_bit 6 c) :: u8"
    have x: "unat (ucast (drop_bit 6 c) :: u8) = ?n div 64" using 2 by (simp add: unat_byte_of)
    have "unat ?a = 192 + ?n div 64" using or_offset(1) [of "ucast (drop_bit 6 c)"] 2 x by simp
    then have "\<not> ?a \<le> 127" "194 \<le> ?a" "?a \<le> 223" using 2 by (simp_all add: word_le_nat_alt)
    moreover have "encode_utf8 c = [?a, 128 OR (ucast c AND 63)]" using 2 by (simp add: encode_utf8_def word_less_nat_alt)
    ultimately show ?thesis by (simp add: valid_utf8_two is_continuation_cont)
  next
    case 3
    let ?a = "224 OR ucast (drop_bit 12 c) :: u8" and ?b = "128 OR (ucast (drop_bit 6 c) AND 63) :: u8"
    have x: "unat (ucast (drop_bit 12 c) :: u8) = ?n div 4096" using 3 by (simp add: unat_byte_of)
    have a: "unat ?a = 224 + ?n div 4096" using or_offset(2) [of "ucast (drop_bit 12 c)"] 3 x by simp
    have b: "unat ?b = 128 + ?n div 64 mod 64" by (simp add: unat_cont unat_byte_of mod_mod_cancel)
    have m: "?n mod 64 < 64" by simp
    have "32 \<le> ?n div 64 mod 64" if "?n div 4096 = 0"
    proof -
      have "?n = 0 * (64 * 64) + (?n div 64 mod 64) * 64 + ?n mod 64" by (rule digits64) (simp add: that)
      with 3 m show ?thesis by linarith
    qed
    moreover have "?n div 64 mod 64 \<le> 31" if "?n div 4096 = 13"
    proof -
      have "?n = 13 * (64 * 64) + (?n div 64 mod 64) * 64 + ?n mod 64" by (rule digits64) (simp add: that)
      with 3 rng(2) m show ?thesis by linarith
    qed
    ultimately have "second_byte_ok ?a ?b" using a b is_continuation_cont [of "ucast (drop_bit 6 c)"] 3
      by (auto simp: second_byte_ok_def word_le_nat_alt word_unat_eq_iff)
    moreover have "\<not> ?a \<le> 127" "\<not> ?a \<le> 223" "224 \<le> ?a" "?a \<le> 239" "?a \<noteq> 240" "?a \<noteq> 244"
      using a 3 by (auto simp: word_le_nat_alt word_unat_eq_iff)
    moreover have "encode_utf8 c = [?a, ?b, 128 OR (ucast c AND 63)]" using 3 by (simp add: encode_utf8_def word_less_nat_alt)
    ultimately show ?thesis by (simp add: valid_utf8_three is_continuation_cont)
  next
    case 4
    let ?a = "240 OR ucast (drop_bit 18 c) :: u8" and ?b = "128 OR (ucast (drop_bit 12 c) AND 63) :: u8"
    have x: "unat (ucast (drop_bit 18 c) :: u8) = ?n div 262144" using rng by (simp add: unat_byte_of)
    have a: "unat ?a = 240 + ?n div 262144" using or_offset(3) [of "ucast (drop_bit 18 c)"] rng x by simp
    have b: "unat ?b = 128 + ?n div 4096 mod 64" by (simp add: unat_cont unat_byte_of mod_mod_cancel)
    have m: "?n mod 4096 < 4096" by simp
    have "16 \<le> ?n div 4096 mod 64" if "?n div 262144 = 0"
    proof -
      have "?n = 0 * (4096 * 64) + (?n div 4096 mod 64) * 4096 + ?n mod 4096" by (rule digits64) (simp add: that)
      with 4 m show ?thesis by linarith
    qed
    moreover have "?n div 4096 mod 64 \<le> 15" if "?n div 262144 = 4"
    proof -
      have "?n = 4 * (4096 * 64) + (?n div 4096 mod 64) * 4096 + ?n mod 4096" by (rule digits64) (simp add: that)
      with rng(1) m show ?thesis by linarith
    qed
    ultimately have "second_byte_ok ?a ?b" using a b is_continuation_cont [of "ucast (drop_bit 12 c)"] rng
      by (auto simp: second_byte_ok_def word_le_nat_alt word_unat_eq_iff)
    moreover have "\<not> ?a \<le> 127" "\<not> ?a \<le> 223" "\<not> ?a \<le> 239" "240 \<le> ?a" "?a \<le> 244" "?a \<noteq> 224" "?a \<noteq> 237"
      using a rng by (auto simp: word_le_nat_alt word_unat_eq_iff)
    moreover have "encode_utf8 c = [?a, ?b, 128 OR (ucast (drop_bit 6 c) AND 63), 128 OR (ucast c AND 63)]"
      using 4 by (simp add: encode_utf8_def word_less_nat_alt)
    ultimately show ?thesis by (simp add: valid_utf8_four is_continuation_cont)
  qed
qed

subsection \<open>Decoding escapes\<close>

lemma valid_utf8_replace:
  assumes "valid_utf8 (out @ xs @ rest)" and "xs \<noteq> []" and "\<forall>x\<in>set xs. x \<le> 127" and "valid_utf8 ys"
  shows "valid_utf8 ((out @ ys) @ rest)"
proof -
  obtain c xs' where xs: "xs = c # xs'" using assms(2) by (cases xs) auto
  have out: "valid_utf8 out" using assms(1,3) xs by (auto intro: valid_utf8_split_ascii [of _ c])
  then have "valid_utf8 (xs @ rest)" using assms(1) valid_utf8_append by blast
  then have "valid_utf8 rest" using assms(3)
  proof (induction xs)
    case (Cons x xs)
    then show ?case using valid_utf8_ascii [of x "xs @ rest"] by simp
  qed simp
  with out assms(4) show ?thesis by (simp add: valid_utf8_append)
qed

lemma hex_value_ascii: "hex_value b = Some v \<Longrightarrow> b \<le> 127"
  by (auto simp: hex_value_def word_le_nat_alt split: if_splits)

lemma parse_hex4_ascii: "parse_hex4 bs = Some cp \<Longrightarrow> x \<in> set (take 4 bs) \<Longrightarrow> x \<le> 127"
proof -
  have "hex_loop n acc xs = Some v \<Longrightarrow> x \<in> set (take n xs) \<Longrightarrow> x \<le> 127" for n acc xs v
    by (induction n acc xs rule: hex_loop.induct) (auto simp: take_Cons' hex_value_ascii split: option.splits if_splits)
  then show "parse_hex4 bs = Some cp \<Longrightarrow> x \<in> set (take 4 bs) \<Longrightarrow> x \<le> 127"
    by (auto simp: parse_hex4_def split: if_splits)
qed

lemma drop_slice: "i \<le> j \<Longrightarrow> j \<le> length xs \<Longrightarrow> drop i xs = subslice xs i j @ drop j xs"
  by (metis append_take_drop_id diff_add_inverse2 drop_drop le_add_diff_inverse2 subslice_def add.commute)

lemma unicode_escape_ascii:
  assumes "input ! i = BACKSLASH" and "input ! (i + 1) = 117" and "i + 6 \<le> length input"
    and "parse_hex4 (subslice input (i + 2) (i + 6)) = Some cp"
  shows "\<forall>x\<in>set (subslice input i (i + 6)). x \<le> 127"
proof -
  have "subslice input i (i + 6) = BACKSLASH # 117 # subslice input (i + 2) (i + 6)"
    using assms(1-3) by (simp add: slice_Suc)
  moreover have "x \<le> 127" if "x \<in> set (subslice input (i + 2) (i + 6))" for x
    using parse_hex4_ascii [OF assms(4), of x] that assms(3) by simp
  ultimately show ?thesis by auto
qed

definition decode_valid :: "bytes \<Rightarrow> nat \<times> bytes \<Rightarrow> bool" where
  "decode_valid input r \<longleftrightarrow> valid_utf8 (snd r @ drop (fst r) input)"

lemma decode_valid_copy:
  "decode_valid input (i, out) \<Longrightarrow> i \<le> j \<Longrightarrow> j \<le> length input \<Longrightarrow> decode_valid input (j, out @ subslice input i j)"
  by (simp add: decode_valid_def drop_slice [of i j input])

lemma decode_valid_byte:
  "decode_valid input (i, out) \<Longrightarrow> i < length input \<Longrightarrow> decode_valid input (i + 1, out @ [input ! i])"
  using decode_valid_copy [of input i out "i + 1"] by (simp add: slice_Suc slice_empty)

lemma decode_valid_replace:
  assumes "decode_valid input (i, out)" and "i < j" "j \<le> length input" and "\<forall>x\<in>set (subslice input i j). x \<le> 127"
    and "valid_utf8 ys"
  shows "decode_valid input (j, out @ ys)"
proof -
  have "subslice input i j \<noteq> []" using assms(2,3) by (simp add: slice_Suc)
  moreover have "valid_utf8 (out @ subslice input i j @ drop j input)"
    using assms(1-3) by (simp add: decode_valid_def drop_slice [of i j input])
  ultimately show ?thesis using valid_utf8_replace assms(4,5) by (simp add: decode_valid_def)
qed

lemma decode_valid_two:
  assumes "decode_valid input (i, out)" "i + 1 < length input" "input ! i = BACKSLASH" "input ! (i + 1) \<le> 127" "x \<le> 127"
  shows "decode_valid input (i + 2, out @ [x])"
proof (rule decode_valid_replace [OF assms(1)])
  have "subslice input i (i + 2) = [BACKSLASH, input ! (i + 1)]" using assms(2,3) by (simp add: slice_Suc slice_empty)
  then show "\<forall>x\<in>set (subslice input i (i + 2)). x \<le> 127" using assms(4) by simp
qed (use assms in \<open>simp_all add: valid_utf8_ascii\<close>)

lemma decode_unicode_escape_valid:
  assumes v: "decode_valid input (i, out)" and esc: "input ! i = BACKSLASH" "input ! (i + 1) = 117" "i + 1 < length input"
  shows "decode_valid input (decode_unicode_escape input i out)"
proof (cases "i + 6 \<le> length input \<and> parse_hex4 (subslice input (i + 2) (i + 6)) \<noteq> None")
  case False
  then have "decode_unicode_escape input i out = (i + 1, out @ [BACKSLASH])"
    by (auto simp: decode_unicode_escape_def)
  with decode_valid_byte [OF v] esc show ?thesis by simp
next
  case True
  then obtain cp where cp: "parse_hex4 (subslice input (i + 2) (i + 6)) = Some cp" and len: "i + 6 \<le> length input" by blast
  note ascii = unicode_escape_ascii [OF esc(1,2) len cp]
  have raw: "decode_valid input (i + 6, out @ subslice input i (i + 6))"
    using decode_valid_copy [OF v] len by simp
  have bmp: "char_from_u32 n = Some c \<Longrightarrow> decode_valid input (i + 6, out @ encode_utf8 c)" for n c
    using decode_valid_replace [OF v _ len ascii] encode_utf8_valid by simp
  have pair: "decode_valid input (i + 12, out @ encode_utf8 c)"
    if c: "char_from_u32 n = Some c" and lo: "parse_hex4 (subslice input (i + 8) (i + 12)) = Some lo"
      "i + 12 \<le> length input" "input ! (i + 6) = BACKSLASH" "input ! (i + 7) = 117" for n c lo
  proof (rule decode_valid_replace [OF v])
    have "subslice input i (i + 12) = subslice input i (i + 6) @ subslice input (i + 6) (i + 12)"
      by (rule slice_join [symmetric]) simp_all
    moreover have "\<forall>x\<in>set (subslice input (i + 6) (i + 6 + 6)). x \<le> 127"
      by (rule unicode_escape_ascii [of _ _ lo]) (use lo in \<open>simp_all add: add.commute [of i]\<close>)
    ultimately show "\<forall>x\<in>set (subslice input i (i + 12)). x \<le> 127"
      using ascii by (auto simp: add.commute [of i])
  qed (use c lo in \<open>simp_all add: encode_utf8_valid\<close>)
  show ?thesis
    using cp len raw bmp pair by (auto simp: decode_unicode_escape_def Let_def split: option.split if_split)
qed

lemma decode_step_valid:
  assumes "decode_valid input (i, out)" and "i < length input"
  shows "decode_valid input (decode_step input i out)"
proof (cases "input ! i \<noteq> BACKSLASH \<or> length input \<le> i + 1")
  case True
  with decode_valid_byte [OF assms] show ?thesis by (simp add: decode_step_def)
next
  case False
  then have i: "input ! i = BACKSLASH" "i + 1 < length input" by simp_all
  have "input ! (i + 1) \<in> {QUOTE, BACKSLASH, SLASH, 98, 102, 110, 114, 116} \<Longrightarrow> input ! (i + 1) \<le> 127"
    by auto
  with decode_valid_two [OF assms(1) i(2,1)] decode_unicode_escape_valid [OF assms(1) i(1) _ i(2)]
    decode_valid_byte [OF assms] i show ?thesis
    by (simp add: decode_step_def Let_def)
qed

lemma decode_loop_valid: "decode_valid input (i, out) \<Longrightarrow> i \<le> length input \<Longrightarrow> valid_utf8 (decode_loop input i out)"
proof (induction input i out rule: decode_loop.induct)
  case (1 input i out)
  show ?case
  proof (cases "i < length input")
    case True
    obtain i' out' where step: "decode_step input i out = (i', out')" by fastforce
    have "decode_valid input (i', out')" using decode_step_valid [OF "1.prems"(1) True] step by simp
    moreover have "i' \<le> length input" using decode_step_fits [OF True, of out] by (simp add: step decode_fits_def)
    ultimately show ?thesis using "1.IH" [OF True step [symmetric]] decode_loop_step [OF True step] by simp
  next
    case False
    with 1 show ?thesis by (simp add: decode_loop_end decode_valid_def)
  qed
qed

lemma decode_json_escapes_valid: "valid_utf8 raw \<Longrightarrow> valid_utf8 (decode_json_escapes raw)"
  by (simp add: decode_json_escapes_def decode_loop_valid decode_valid_def)

subsection \<open>Where a buffer can be cut\<close>

definition char_cut :: "bytes \<Rightarrow> nat \<Rightarrow> bool" where
  "char_cut buf i \<longleftrightarrow> i \<le> length buf \<and> valid_utf8 (take i buf)"

lemma cut_slice: "char_cut buf i \<Longrightarrow> char_cut buf j \<Longrightarrow> i \<le> j \<Longrightarrow> valid_utf8 (subslice buf i j)"
proof -
  assume "char_cut buf i" "char_cut buf j" "i \<le> j"
  moreover from this have "take j buf = take i buf @ subslice buf i j"
    by (simp add: subslice_def flip: take_add)
  ultimately show ?thesis by (simp add: char_cut_def valid_utf8_append)
qed

lemma cut_before:
  assumes "valid_utf8 buf" "i < length buf" "buf ! i \<le> 127"
  shows "char_cut buf i" and "char_cut buf (Suc i)"
proof -
  have "buf = take i buf @ buf ! i # drop (Suc i) buf" using assms(2) by (rule id_take_nth_drop)
  then have "valid_utf8 (take i buf @ buf ! i # drop (Suc i) buf)" using assms(1) by simp
  from valid_utf8_split_ascii [OF this assms(3)] have "valid_utf8 (take i buf)" .
  then show "char_cut buf i" and "char_cut buf (Suc i)"
    using assms(2,3) by (simp_all add: char_cut_def take_Suc_conv_app_nth valid_utf8_append valid_utf8_ascii)
qed

lemma cut_ends: "char_cut buf 0" "valid_utf8 buf \<Longrightarrow> char_cut buf (length buf)"
  by (simp_all add: char_cut_def)

subsection \<open>Values\<close>

lemma stack_step_cut:
  assumes "valid_utf8 buf" and "char_cut buf stop" and "p < stop"
  shows "stack_step buf p stop stack = Inl r \<Longrightarrow> char_cut buf r \<and> p \<le> r \<and> r \<le> stop"
    and "stack_step buf p stop stack = Inr (p', stack') \<Longrightarrow> p < p' \<and> p' \<le> stop"
proof -
  have p: "p < length buf" using assms(2,3) by (simp add: char_cut_def)
  have c: "char_cut buf p" "char_cut buf (Suc p)" if "buf ! p = RBRACE \<or> buf ! p = RBRACKET"
    using cut_before [OF assms(1) p] that by auto
  show "stack_step buf p stop stack = Inl r \<Longrightarrow> char_cut buf r \<and> p \<le> r \<and> r \<le> stop"
    using assms(2,3) c by (auto simp: stack_step.simps Let_def split: if_splits option.splits list.splits)
  show "stack_step buf p stop stack = Inr (p', stack') \<Longrightarrow> p < p' \<and> p' \<le> stop"
    using assms(3)
    by (auto simp: stack_step.simps Let_def dest!: find_upt_range split: if_splits option.splits list.splits)
qed

lemma nested_end_cut:
  "valid_utf8 buf \<Longrightarrow> char_cut buf stop \<Longrightarrow> p \<le> stop \<Longrightarrow>
   char_cut buf (nested_end buf p stop stack) \<and> p \<le> nested_end buf p stop stack \<and> nested_end buf p stop stack \<le> stop"
proof (induction buf p stop stack rule: nested_end.induct)
  case (1 buf p stop stack)
  show ?case
  proof (cases "p < stop")
    case True
    note step = stack_step_cut [OF "1.prems"(1,2) True, of stack]
    show ?thesis
    proof (cases "stack_step buf p stop stack")
      case (Inl r)
      with step(1) True show ?thesis by (simp add: nested_end.simps [of buf p])
    next
      case (Inr r)
      obtain p' stack' where r: "r = (p', stack')" by fastforce
      with step(2) Inr have "p < p'" "p' \<le> stop" by auto
      with "1.IH" [OF True Inr r [symmetric] "1.prems"(1,2)] True Inr r show ?thesis
        by (simp add: nested_end.simps [of buf p])
    qed
  next
    case False
    with "1.prems" show ?thesis by (simp add: nested_end.simps [of buf stop])
  qed
qed

lemma find_Some_holds: "List.find P xs = Some x \<Longrightarrow> P x"
  by (auto simp: find_Some_iff)

text \<open>The masks of the whole buffer, valid UTF-8, and a line end inside it.\<close>

definition scan_ready :: "bytes \<Rightarrow> StoredBitmasks \<Rightarrow> nat \<Rightarrow> bool" where
  "scan_ready buf blocks stop \<longleftrightarrow> valid_utf8 buf \<and> masks_ok buf (num_blocks buf) blocks \<and> char_cut buf stop"

lemma next_quote_cut:
  assumes "scan_ready buf blocks stop" and "next_quote p stop blocks = Some q"
  shows "p \<le> q \<and> q < stop \<and> char_cut buf q"
proof -
  have stop: "stop \<le> length buf" using assms(1) by (simp add: scan_ready_def char_cut_def)
  then have "List.find (real_quote_at buf) [p..<stop] = Some q"
    using next_quote_find [of buf blocks stop p] assms by (simp add: scan_ready_def masks_ok_def)
  then have "real_quote_at buf q" by (rule find_Some_holds)
  moreover have "p \<le> q \<and> q < stop" using next_quote_range [OF assms(2)] by simp
  ultimately show ?thesis
    using cut_before(1) [of buf q] assms(1) stop by (simp add: scan_ready_def real_quote_at_def)
qed

lemma unescape_valid: "valid_utf8 raw \<Longrightarrow> valid_utf8 (unescape mc raw)"
  by (simp add: unescape_def decode_json_escapes_valid)

lemma quoted_valid:
  assumes ready: "scan_ready buf blocks stop" and "p < stop" "buf ! p = QUOTE" and "next_quote (p + 1) stop blocks = Some e"
  shows "valid_utf8 (subslice buf (p + 1) e)" and "p + 1 \<le> e" and "e < stop"
proof -
  have "valid_utf8 buf" "p < length buf" using ready assms(2) by (simp_all add: scan_ready_def char_cut_def)
  then have "char_cut buf (Suc p)" using cut_before(2) [of buf p] assms(3) by simp
  with next_quote_cut [OF ready assms(4)] cut_slice [of buf "Suc p" e]
  show "valid_utf8 (subslice buf (p + 1) e)" and "p + 1 \<le> e" and "e < stop" by auto
qed

lemma scan_value_ok:
  assumes ready: "scan_ready buf blocks stop" and p: "p < stop" and v: "scan_value buf p stop blocks = Some (v, q)"
  shows "field_ok mc buf v" and "field_cost v + p \<le> q" and "field_cost v \<noteq> 0 \<Longrightarrow> q \<le> stop"
proof -
  have buf: "valid_utf8 buf" "stop \<le> length buf" using ready by (simp_all add: scan_ready_def char_cut_def)
  have "field_ok mc buf v \<and> field_cost v + p \<le> q \<and> (field_cost v \<noteq> 0 \<longrightarrow> q \<le> stop)"
  proof (cases "buf ! p = QUOTE")
    case True
    then obtain e where e: "next_quote (p + 1) stop blocks = Some e" "v = VStr (p + 1) e" "q = e + 1"
      using v by (auto simp: scan_value_def Let_def split: option.splits)
    note quoted_valid [OF ready p True e(1)]
    with e buf(2) show ?thesis by (auto simp: field_ok_def field_cost_def unescape_valid)
  next
    case False
    show ?thesis
    proof (cases "buf ! p = LBRACE \<or> buf ! p = LBRACKET")
      case True
      then have vq: "v = VNested p q" "q = skip_nested buf p stop blocks"
        using v False by (auto simp: scan_value_def Let_def)
      have "q = nested_end buf p stop []"
        using skip_nested_loop_stack [of buf blocks stop nest_new p] ready buf(2) vq(2)
        by (simp add: skip_nested_def nest_stack_new scan_ready_def)
      then have "char_cut buf q" "p \<le> q" "q \<le> stop" using nested_end_cut [of buf stop p "[]"] ready p by (simp_all add: scan_ready_def)
      moreover have "char_cut buf p" using cut_before(1) [OF buf(1), of p] True p buf(2) by auto
      ultimately show ?thesis using vq(1) buf(2) cut_slice [of buf p q] by (simp add: field_ok_def field_cost_def)
    next
      case other: False
      then have "\<not> (\<exists>s e. v = VStr s e \<or> v = VNested s e)" using v False
        by (auto simp: scan_value_def Let_def split: if_splits prod.splits)
      then have "field_ok mc buf v" "field_cost v = 0" by (auto simp: field_ok_def field_cost_def split: FieldValue.splits)
      with scan_value_progress [OF p v] show ?thesis by simp
    qed
  qed
  then show "field_ok mc buf v" and "field_cost v + p \<le> q" and "field_cost v \<noteq> 0 \<Longrightarrow> q \<le> stop" by blast+
qed


lemma scan_field_value:
  assumes "scan_ready buf blocks stop" and "scan_field mc buf p stop blocks = Some (key, v, q)"
  obtains p' where "p < p'" "p' < stop" "scan_value buf p' stop blocks = Some (v, q)" "valid_utf8 key"
proof -
  let ?p1 = "skip_whitespace buf p stop"
  from assms(2) obtain key_end where k: "next_quote (?p1 + 1) stop blocks = Some key_end" "?p1 < stop"
      "buf ! ?p1 = QUOTE" "key = unescape mc (subslice buf (?p1 + 1) key_end)"
    by (auto simp: scan_field_def Let_def not_le split: if_splits option.splits)
  let ?p2 = "skip_whitespace buf (key_end + 1) stop"
  let ?p3 = "skip_whitespace buf (?p2 + 1) stop"
  from assms(2) k have "scan_value buf ?p3 stop blocks = Some (v, q)" "?p3 < stop"
    by (auto simp: scan_field_def Let_def not_le split: if_splits option.splits)
  moreover have "p < ?p3"
    using skip_whitespace_le [of p buf stop] skip_whitespace_le [of "key_end + 1" buf stop]
      skip_whitespace_le [of "?p2 + 1" buf stop] next_quote_range [OF k(1)] by linarith
  moreover have "valid_utf8 key" using quoted_valid(1) [OF assms(1) k(2,3,1)] k(4) unescape_valid by blast
  ultimately show thesis using that by blast
qed

lemma line_fields_ok:
  assumes "scan_ready buf blocks stop"
  shows "fields_ok mc buf (line_fields mc buf p stop blocks) \<and> fields_cost (line_fields mc buf p stop blocks) \<le> stop - p"
  using assms
proof (induction mc buf p stop blocks rule: line_fields.induct)
  case (1 mc buf p stop blocks)
  show ?case
  proof (cases "scan_field mc buf p stop blocks")
    case None
    then show ?thesis by (simp add: line_fields.simps [of mc buf p])
  next
    case (Some kvq)
    obtain key v q where kvq: "kvq = (key, v, q)" by (metis prod_cases3)
    obtain p' where p': "p < p'" "p' < stop" "scan_value buf p' stop blocks = Some (v, q)" and key: "valid_utf8 key"
      using scan_field_value [OF "1.prems"] Some kvq by blast
    note ok = scan_value_ok [OF "1.prems" p'(2,3)]
    have IH: "fields_ok mc buf (line_fields mc buf (skip_comma buf q stop) stop blocks)"
        "fields_cost (line_fields mc buf (skip_comma buf q stop) stop blocks) \<le> stop - skip_comma buf q stop"
      using "1.IH" [OF Some kvq [symmetric] refl "1.prems"] by blast+
    have "field_cost v + (stop - skip_comma buf q stop) \<le> stop - p"
      using ok(2,3) p'(1) skip_comma_le [of q buf stop] by (cases "field_cost v = 0") auto
    with IH ok(1) key Some kvq show ?thesis by (simp add: line_fields.simps [of mc buf p])
  qed
qed

lemma object_fields_ok:
  assumes "scan_ready buf blocks stop"
  shows "fields_ok mc buf (object_fields mc buf start stop blocks)"
    and "fields_cost (object_fields mc buf start stop blocks) \<le> stop - start"
  using line_fields_ok [OF assms, of mc "skip_whitespace buf start stop + 1"] skip_whitespace_le [of start buf stop]
  by (auto simp: object_fields_def Let_def)

subsection \<open>Line ranges\<close>

definition ranges_ok :: "bytes \<Rightarrow> nat \<times> (nat \<times> nat) list \<Rightarrow> bool" where
  "ranges_ok buf st \<longleftrightarrow> char_cut buf (fst st) \<and> sum_list (map (\<lambda>(s, e). e - s) (snd st)) \<le> fst st \<and>
     (\<forall>(s, e)\<in>set (snd st). s < e \<and> char_cut buf s \<and> char_cut buf e)"

lemma push_range_ok:
  assumes "ranges_ok buf (ls, rs)" and "ls \<le> i" and "valid_utf8 buf" and "char_cut buf i"
  shows "sum_list (map (\<lambda>(s, e). e - s) (push_range buf ls i rs)) \<le> i"
    and "\<forall>(s, e)\<in>set (push_range buf ls i rs). s < e \<and> char_cut buf s \<and> char_cut buf e"
proof -
  have "char_cut buf (line_end_at buf ls i) \<and> line_end_at buf ls i \<le> i"
    using assms(4) cut_before(1) [OF assms(3), of "i - 1"] by (auto simp: line_end_at_def)
  with assms show "sum_list (map (\<lambda>(s, e). e - s) (push_range buf ls i rs)) \<le> i"
    and "\<forall>(s, e)\<in>set (push_range buf ls i rs). s < e \<and> char_cut buf s \<and> char_cut buf e"
    by (auto simp: ranges_ok_def push_range_def Let_def)
qed

lemma range_fold_ok:
  assumes "valid_utf8 buf" and "n \<le> length buf"
  shows "ranges_ok buf (foldl (range_step buf) (0, []) (filter (\<lambda>i. buf ! i = NL) [0..<n])) \<and>
    fst (foldl (range_step buf) (0, []) (filter (\<lambda>i. buf ! i = NL) [0..<n])) \<le> n"
  using assms(2)
proof (induction n)
  case 0
  then show ?case by (simp add: ranges_ok_def cut_ends)
next
  case (Suc n)
  obtain ls rs where st: "foldl (range_step buf) (0, []) (filter (\<lambda>i. buf ! i = NL) [0..<n]) = (ls, rs)" by fastforce
  with Suc have IH: "ranges_ok buf (ls, rs)" "ls \<le> n" by simp_all
  show ?case
  proof (cases "buf ! n = NL")
    case True
    have cuts: "char_cut buf n" "char_cut buf (Suc n)" using cut_before [OF assms(1), of n] Suc.prems True by simp_all
    from push_range_ok [OF IH assms(1) cuts(1)] cuts True st show ?thesis
      by (simp add: ranges_ok_def range_step_def)
  next
    case False
    with IH st show ?thesis by simp
  qed
qed

lemma scan_phase1_ranges:
  assumes "wide_crate simd" and "scan_phase1 simd buf = (blocks, ranges)" and "valid_utf8 buf"
  shows "sum_list (map (\<lambda>(s, e). e - s) ranges) \<le> length buf"
    and "(s, e) \<in> set ranges \<Longrightarrow> s < e \<and> char_cut buf s \<and> char_cut buf e"
proof -
  let ?st = "foldl (\<lambda>st i. scan_block simd buf i st) phase1_init [0..<num_blocks buf]"
  have "length buf \<le> num_blocks buf * 64" using num_blocks_iff [of "num_blocks buf" buf] by simp
  then have st: "(p1_line_start ?st, p1_line_ranges ?st) =
      foldl (range_step buf) (0, []) (filter (\<lambda>i. buf ! i = NL) [0..<length buf])"
    using wide_crate.phase1_fold [OF assms(1), of "num_blocks buf" buf] by (simp add: phase1_at_def)
  have ok: "ranges_ok buf (p1_line_start ?st, p1_line_ranges ?st)" "p1_line_start ?st \<le> length buf"
    using range_fold_ok [OF assms(3) order_refl] unfolding st [symmetric] by simp_all
  have "sum_list (map (\<lambda>(s, e). e - s) ranges) \<le> length buf \<and>
      (\<forall>(s, e)\<in>set ranges. s < e \<and> char_cut buf s \<and> char_cut buf e)"
  proof (cases "p1_line_start ?st < length buf")
    case True
    then have "ranges = push_range buf (p1_line_start ?st) (length buf) (p1_line_ranges ?st)"
      using assms(2) by (simp add: scan_phase1_def Let_def)
    with push_range_ok [OF ok assms(3) cut_ends(2) [OF assms(3)]] show ?thesis by simp
  next
    case False
    then have "ranges = p1_line_ranges ?st" using assms(2) by (simp add: scan_phase1_def Let_def)
    with ok show ?thesis by (auto simp: ranges_ok_def)
  qed
  then show "sum_list (map (\<lambda>(s, e). e - s) ranges) \<le> length buf"
    and "(s, e) \<in> set ranges \<Longrightarrow> s < e \<and> char_cut buf s \<and> char_cut buf e" by auto
qed

end
