(* ===== verification/Streaming_Rows.thy ===== *)
theory Streaming_Rows
  imports Streaming_Builder Utf8_Scan
begin

text \<open>
  The streaming builder satisfies the scanner's contract: an invariant over its columns, name
  index and written marks that every operation keeps, the rows it stands for, and the
  interpretation of the builder contract on it.
\<close>

subsection \<open>Columns\<close>

text \<open>A view lies in the input or in the decoded bytes, not across both, and is UTF-8.\<close>

definition view_bytes :: "bytes \<Rightarrow> bytes \<Rightarrow> u32 \<times> u32 \<Rightarrow> bytes" where
  "view_bytes inp dec v = subslice (inp @ dec) (unat (fst v)) (unat (fst v) + unat (snd v))"

definition view_ok :: "bytes \<Rightarrow> bytes \<Rightarrow> u32 \<times> u32 \<Rightarrow> bool" where
  "view_ok inp dec v \<longleftrightarrow>
     (unat (fst v) + unat (snd v) \<le> length inp \<or>
      length inp \<le> unat (fst v) \<and> unat (fst v) + unat (snd v) \<le> length inp + length dec) \<and>
     valid_utf8 (view_bytes inp dec v)"

lemma view_ok_extend:
  assumes "view_ok inp dec v"
  shows "view_bytes inp (dec @ d) v = view_bytes inp dec v" and "view_ok inp (dec @ d) v"
proof -
  show "view_bytes inp (dec @ d) v = view_bytes inp dec v"
    using assms slice_append_left [of "unat (fst v) + unat (snd v)" "inp @ dec" d]
    by (auto simp: view_ok_def view_bytes_def)
  with assms show "view_ok inp (dec @ d) v" by (auto simp: view_ok_def)
qed

definition column_cells :: "bytes \<Rightarrow> bytes \<Rightarrow> FieldColumns \<Rightarrow> (u32 \<times> Cell) list" where
  "column_cells inp dec fc =
     map (\<lambda>(r, n). (r, CInt n)) (int_values fc) @ map (\<lambda>(r, x). (r, CFloat x)) (float_values fc) @
     map (\<lambda>(r, v). (r, CStr (view_bytes inp dec v))) (str_views fc) @ map (\<lambda>(r, x). (r, CBool x)) (bool_values fc)"

definition column_rows :: "FieldColumns \<Rightarrow> u32 list" where
  "column_rows fc = map fst (int_values fc) @ map fst (float_values fc) @ map fst (str_views fc) @ map fst (bool_values fc)"

lemma column_cells_rows: "map fst (column_cells inp dec fc) = column_rows fc"
  by (simp add: column_cells_def column_rows_def comp_def case_prod_beta)

definition column_ok :: "bytes \<Rightarrow> bytes \<Rightarrow> u32 \<Rightarrow> FieldColumns \<Rightarrow> bool" where
  "column_ok inp dec row fc \<longleftrightarrow>
     distinct (column_rows fc) \<and> (\<forall>r\<in>set (column_rows fc). r \<le> row) \<and>
     sorted (map fst (int_values fc)) \<and> sorted (map fst (float_values fc)) \<and>
     sorted (map fst (str_views fc)) \<and> sorted (map fst (bool_values fc)) \<and>
     (has_int fc \<longleftrightarrow> int_values fc \<noteq> []) \<and> (has_float fc \<longleftrightarrow> float_values fc \<noteq> []) \<and>
     (has_str fc \<longleftrightarrow> str_views fc \<noteq> []) \<and> (has_bool fc \<longleftrightarrow> bool_values fc \<noteq> []) \<and>
     list_all (\<lambda>(r, v). view_ok inp dec v) (str_views fc)"

lemma column_ok_extend:
  assumes "column_ok inp dec row fc"
  shows "column_cells inp (dec @ d) fc = column_cells inp dec fc" and "column_ok inp (dec @ d) row fc"
  using assms by (auto simp: column_ok_def column_cells_def list_all_iff view_ok_extend)

lemma column_ok_row: "column_ok inp dec row fc \<Longrightarrow> row \<le> row' \<Longrightarrow> column_ok inp dec row' fc"
  by (fastforce simp: column_ok_def)

definition column_clear :: "FieldColumns \<Rightarrow> bool" where
  "column_clear fc \<longleftrightarrow>
     str_views fc = [] \<and> int_values fc = [] \<and> float_values fc = [] \<and> bool_values fc = [] \<and>
     \<not> has_str fc \<and> \<not> has_int fc \<and> \<not> has_float fc \<and> \<not> has_bool fc \<and> last_row fc = -1"

lemma column_clear_simps:
  "column_clear (field_columns_clear fc)" "column_clear (field_columns_new name)"
  "column_clear fc \<Longrightarrow> column_clear (fc\<lparr>fc_name := name\<rparr>)"
  by (simp_all add: column_clear_def field_columns_clear_def field_columns_new_def)

lemma column_clear_empty:
  assumes "column_clear fc"
  shows "column_rows fc = []" "column_cells inp dec fc = []" "column_ok inp dec row fc" "last_row fc = -1"
  using assms by (simp_all add: column_clear_def column_rows_def column_cells_def column_ok_def)

text \<open>Adding the value of the current row.\<close>

lemma map_of_insert:
  assumes "r \<notin> fst ` set (xs @ ys)"
  shows "map_of (xs @ (r, v) # ys) = (map_of (xs @ ys))(r \<mapsto> v)"
proof
  fix k
  have "map_of xs r = None" using assms by (auto simp: map_of_eq_None_iff)
  then show "map_of (xs @ (r, v) # ys) k = ((map_of (xs @ ys))(r \<mapsto> v)) k"
    by (simp add: map_add_def split: option.splits)
qed

lemma sorted_snoc_max: "sorted xs \<Longrightarrow> \<forall>x\<in>set xs. x \<le> r \<Longrightarrow> sorted (xs @ [r])" for r :: u32
  by (simp add: sorted_append)

lemma column_push:
  assumes ok: "column_ok inp dec row fc" and new: "row \<notin> set (column_rows fc)"
  shows "column_ok inp dec row (push_int n row fc)" and "column_ok inp dec row (push_float x row fc)"
    and "column_ok inp dec row (push_bool y row fc)"
    and "view_ok inp dec v \<Longrightarrow> column_ok inp dec row (fc\<lparr>has_str := True, str_views := str_views fc @ [(row, v)]\<rparr>)"
  using ok new
  by (auto simp: column_ok_def push_int_def push_float_def push_bool_def column_rows_def intro!: sorted_snoc_max)

lemma column_push_cells:
  assumes "row \<notin> set (column_rows fc)"
  shows "map_of (column_cells inp dec (push_int n row fc)) = (map_of (column_cells inp dec fc))(row \<mapsto> CInt n)"
    and "map_of (column_cells inp dec (push_float x row fc)) = (map_of (column_cells inp dec fc))(row \<mapsto> CFloat x)"
    and "map_of (column_cells inp dec (push_bool y row fc)) = (map_of (column_cells inp dec fc))(row \<mapsto> CBool y)"
    and "map_of (column_cells inp dec (fc\<lparr>has_str := True, str_views := str_views fc @ [(row, v)]\<rparr>)) =
      (map_of (column_cells inp dec fc))(row \<mapsto> CStr (view_bytes inp dec v))"
proof -
  let ?i = "map (\<lambda>(r, n). (r, CInt n)) (int_values fc)" and ?f = "map (\<lambda>(r, x). (r, CFloat x)) (float_values fc)"
  let ?s = "map (\<lambda>(r, v). (r, CStr (view_bytes inp dec v))) (str_views fc)" and ?b = "map (\<lambda>(r, x). (r, CBool x)) (bool_values fc)"
  have new: "row \<notin> fst ` set (?i @ ?f @ ?s @ ?b)"
    using assms by (metis column_cells_def column_cells_rows set_map)
  show "map_of (column_cells inp dec (push_int n row fc)) = (map_of (column_cells inp dec fc))(row \<mapsto> CInt n)"
    using map_of_insert [of row ?i "?f @ ?s @ ?b"] new by (simp add: column_cells_def push_int_def)
  show "map_of (column_cells inp dec (push_float x row fc)) = (map_of (column_cells inp dec fc))(row \<mapsto> CFloat x)"
    using map_of_insert [of row "?i @ ?f" "?s @ ?b"] new by (simp add: column_cells_def push_float_def)
  show "map_of (column_cells inp dec (push_bool y row fc)) = (map_of (column_cells inp dec fc))(row \<mapsto> CBool y)"
    using map_of_insert [of row "?i @ ?f @ ?s @ ?b" "[]"] new by (simp add: column_cells_def push_bool_def)
  show "map_of (column_cells inp dec (fc\<lparr>has_str := True, str_views := str_views fc @ [(row, v)]\<rparr>)) =
      (map_of (column_cells inp dec fc))(row \<mapsto> CStr (view_bytes inp dec v))"
    using map_of_insert [of row "?i @ ?f @ ?s" ?b] new by (simp add: column_cells_def)
qed

lemma unat_of_nat_u32: "n < 2 ^ 32 \<Longrightarrow> unat (of_nat n :: u32) = n"
  by (simp add: unat_of_nat take_bit_nat_eq_self)

lemma of_nat_below: "n < unat r \<Longrightarrow> of_nat n \<noteq> r" for r :: u32
proof
  assume n: "n < unat r" and "of_nat n = r"
  then have "unat (of_nat n :: u32) = unat r" by simp
  moreover have "unat r < 2 ^ 32" using unsigned_less [of r] by simp
  ultimately show False using n unat_of_nat_u32 [of n] by simp
qed

subsection \<open>The invariant\<close>

definition written :: "StreamingBuilder \<Rightarrow> nat \<Rightarrow> bool" where
  "written b i \<longleftrightarrow>
     (if i < 64 then bit (written_bits (lifecycle b)) i else last_row (columns b ! i) = rows_done b)"

definition builder_inv :: "StreamingBuilder \<Rightarrow> bool" where
  "builder_inv b \<longleftrightarrow>
     num_active b \<le> length (columns b) \<and>
     (\<forall>k i. field_index b k = Some i \<longleftrightarrow> i < num_active b \<and> fc_name (columns b ! i) = k) \<and>
     (\<forall>i<num_active b. column_ok (input_buf b) (decoded_buf b) (rows_done b) (columns b ! i)) \<and>
     (\<forall>i<num_active b. rows_done b \<in> set (column_rows (columns b ! i)) \<longrightarrow> in_row b \<and> written b i) \<and>
     (\<forall>i<num_active b. last_row (columns b ! i) = -1 \<or> last_row (columns b ! i) < rows_done b \<or>
        in_row b \<and> last_row (columns b ! i) = rows_done b) \<and>
     (\<forall>i. num_active b \<le> i \<and> i < length (columns b) \<longrightarrow> column_clear (columns b ! i)) \<and>
     (in_row b \<longrightarrow> (\<forall>i<64. bit (written_bits (lifecycle b)) i \<longrightarrow> i < num_active b)) \<and>
     list_all (view_ok (input_buf b) (decoded_buf b)) (line_views b) \<and>
     (\<forall>i<num_active b. valid_utf8 (fc_name (columns b ! i)))"

lemma builder_invD:
  assumes "builder_inv b"
  shows "num_active b \<le> length (columns b)"
    and "field_index b k = Some i \<longleftrightarrow> i < num_active b \<and> fc_name (columns b ! i) = k"
    and "i < num_active b \<Longrightarrow> column_ok (input_buf b) (decoded_buf b) (rows_done b) (columns b ! i)"
    and "i < num_active b \<Longrightarrow> rows_done b \<in> set (column_rows (columns b ! i)) \<Longrightarrow> in_row b \<and> written b i"
    and "i < num_active b \<Longrightarrow> last_row (columns b ! i) = -1 \<or> last_row (columns b ! i) < rows_done b \<or>
        in_row b \<and> last_row (columns b ! i) = rows_done b"
    and "num_active b \<le> i \<Longrightarrow> i < length (columns b) \<Longrightarrow> column_clear (columns b ! i)"
    and "in_row b \<Longrightarrow> i < 64 \<Longrightarrow> bit (written_bits (lifecycle b)) i \<Longrightarrow> i < num_active b"
    and "list_all (view_ok (input_buf b) (decoded_buf b)) (line_views b)"
    and "i < num_active b \<Longrightarrow> valid_utf8 (fc_name (columns b ! i))"
  using assms by (auto simp: builder_inv_def)

text \<open>The rows the columns stand for.\<close>

definition cell_at :: "StreamingBuilder \<Rightarrow> u32 \<Rightarrow> bytes \<Rightarrow> Cell option" where
  "cell_at b r k =
     (case field_index b k of
        Some i \<Rightarrow> map_of (column_cells (input_buf b) (decoded_buf b) (columns b ! i)) r
      | None \<Rightarrow> None)"

definition open_row :: "StreamingBuilder \<Rightarrow> bytes \<rightharpoonup> Cell option" where
  "open_row b k =
     (case field_index b k of
        Some i \<Rightarrow> if in_row b \<and> written b i then Some (cell_at b (rows_done b) k) else None
      | None \<Rightarrow> None)"

definition streaming_view :: "StreamingBuilder \<Rightarrow> builder_view" where
  "streaming_view b =
     \<lparr>v_rows = map (\<lambda>n. cell_at b (of_nat n)) [0..<unat (rows_done b)],
      v_current = open_row b,
      v_lines = map (view_bytes (input_buf b) (decoded_buf b)) (line_views b),
      v_names = (\<lambda>i. if i < num_active b then Some (fc_name (columns b ! i)) else None)\<rparr>"

text \<open>
  A write to a column not yet written in the open row: the column gains the cell, or none for a
  null, and is marked. Decoded bytes may have been appended.
\<close>

definition mark_bits :: "nat \<Rightarrow> u64 \<Rightarrow> u64" where
  "mark_bits i bits = (if i < 64 then bits OR push_bit i 1 else bits)"

lemma bit_mark_bits: "i < 64 \<Longrightarrow> bit (mark_bits j bits) i \<longleftrightarrow> bit bits i \<or> i = j"
  by (auto simp: mark_bits_def bit_simps)

definition wrote :: "nat \<Rightarrow> FieldColumns \<Rightarrow> bytes \<Rightarrow> StreamingBuilder \<Rightarrow> StreamingBuilder" where
  "wrote i fc d b =
     b\<lparr>columns := (columns b)[i := fc], decoded_buf := decoded_buf b @ d,
       lifecycle := (lifecycle b)\<lparr>written_bits := mark_bits i (written_bits (lifecycle b))\<rparr>\<rparr>"

lemma wrote_simps [simp]:
  "resource_attrs (wrote i fc d b) = resource_attrs b"
  "length (columns (wrote i fc d b)) = length (columns b)" "decoded_buf (wrote i fc d b) = decoded_buf b @ d"
  "input_buf (wrote i fc d b) = input_buf b" "num_active (wrote i fc d b) = num_active b"
  "field_index (wrote i fc d b) = field_index b" "line_views (wrote i fc d b) = line_views b"
  "line_column (wrote i fc d b) = line_column b"
  "rows_done (wrote i fc d b) = rows_done b" "in_row (wrote i fc d b) = in_row b"
  "lc_state (lifecycle (wrote i fc d b)) = lc_state (lifecycle b)"
  "written_bits (lifecycle (wrote i fc d b)) = mark_bits i (written_bits (lifecycle b))"
  by (simp_all add: wrote_def rows_done_def in_row_def)

lemma wrote_column: "i < length (columns b) \<Longrightarrow> columns (wrote i fc d b) ! j = (if j = i then fc else columns b ! j)"
  by (simp add: wrote_def)

lemma wrote_written:
  assumes "i < length (columns b)" and "64 \<le> i \<Longrightarrow> last_row fc = rows_done b" and "last_row fc = last_row (columns b ! i) \<or> 64 \<le> i"
  shows "written (wrote i fc d b) j \<longleftrightarrow> written b j \<or> j = i"
  using assms by (auto simp: written_def bit_mark_bits wrote_column)

lemma wrote_ok:
  assumes inv: "builder_inv b" and row: "in_row b" and i: "i < num_active b" and new: "\<not> written b i"
    and name: "fc_name fc = fc_name (columns b ! i)"
    and last: "last_row fc = (if 64 \<le> i then rows_done b else last_row (columns b ! i))"
    and ok: "column_ok (input_buf b) (decoded_buf b @ d) (rows_done b) fc"
    and cells: "map_of (column_cells (input_buf b) (decoded_buf b @ d) fc) =
      (case c of None \<Rightarrow> map_of (column_cells (input_buf b) (decoded_buf b) (columns b ! i))
       | Some x \<Rightarrow> (map_of (column_cells (input_buf b) (decoded_buf b) (columns b ! i)))(rows_done b \<mapsto> x))"
  shows "builder_inv (wrote i fc d b)"
    and "streaming_view (wrote i fc d b) = write_cell (fc_name (columns b ! i)) c (streaming_view b)"
proof -
  let ?b = "wrote i fc d b"
  note D = builder_invD [OF inv]
  have len: "i < length (columns b)" using D(1) i by simp
  have wr: "written ?b j \<longleftrightarrow> written b j \<or> j = i" for j
    by (rule wrote_written [OF len]) (use last in auto)
  have col: "columns ?b ! j = (if j = i then fc else columns b ! j)" for j using len by (rule wrote_column)
  have names: "fc_name (columns ?b ! j) = fc_name (columns b ! j)" for j using name by (simp add: col)
  have okj: "column_ok (input_buf b) (decoded_buf b @ d) (rows_done b) (columns ?b ! j)" if "j < num_active b" for j
    using ok column_ok_extend(2) D(3) [OF that] by (simp add: col)
  show "builder_inv ?b"
    unfolding builder_inv_def
  proof (intro conjI allI impI)
    show "field_index ?b k = Some j \<longleftrightarrow> j < num_active ?b \<and> fc_name (columns ?b ! j) = k" for k j
      using D(2) [of k j] by (simp add: names)
    show "list_all (view_ok (input_buf ?b) (decoded_buf ?b)) (line_views ?b)"
      using D(8) by (auto simp: list_all_iff view_ok_extend)
    show "rows_done ?b \<in> set (column_rows (columns ?b ! j)) \<Longrightarrow> written ?b j" if "j < num_active ?b" for j
      using D(4) [of j] that row by (cases "j = i") (simp_all add: wr add: col)
    show "last_row (columns ?b ! j) = -1 \<or> last_row (columns ?b ! j) < rows_done ?b \<or>
        in_row ?b \<and> last_row (columns ?b ! j) = rows_done ?b" if "j < num_active ?b" for j
      using D(5) [of j] that row last by (auto simp: col)
    show "column_clear (columns ?b ! j)" if "num_active ?b \<le> j \<and> j < length (columns ?b)" for j
      using D(6) [of j] that i by (auto simp: col)
  qed (use D(1,7,9) i okj row names in \<open>auto simp: bit_mark_bits\<close>)
  have cellsj: "map_of (column_cells (input_buf b) (decoded_buf b @ d) (columns ?b ! j)) r =
      (if j = i \<and> r = rows_done b \<and> c \<noteq> None then c else map_of (column_cells (input_buf b) (decoded_buf b) (columns b ! j)) r)"
    if "j < num_active b" for j r
    using cells column_ok_extend(1) [OF D(3) [OF that]] by (auto simp: col split: option.splits)
  have cell: "cell_at ?b r k =
      (if k = fc_name (columns b ! i) \<and> r = rows_done b \<and> c \<noteq> None then c else cell_at b r k)" for r k
  proof (cases "field_index b k")
    case None
    then have "k \<noteq> fc_name (columns b ! i)" using D(2) [of "fc_name (columns b ! i)" i] i by auto
    with None show ?thesis by (simp add: cell_at_def)
  next
    case (Some j)
    then have j: "j < num_active b" "j = i \<longleftrightarrow> k = fc_name (columns b ! i)"
      using D(2) [of k j] D(2) [of k i] i by auto
    with Some cellsj [OF j(1), of r] show ?thesis by (auto simp: cell_at_def)
  qed
  have old: "cell_at b (rows_done b) (fc_name (columns b ! i)) = None"
  proof -
    have "rows_done b \<notin> set (column_rows (columns b ! i))" using D(4) [OF i] new by blast
    then have "map_of (column_cells (input_buf b) (decoded_buf b) (columns b ! i)) (rows_done b) = None"
      by (metis column_cells_rows map_of_eq_None_iff set_map)
    moreover have "field_index b (fc_name (columns b ! i)) = Some i" using D(2) i by simp
    ultimately show ?thesis by (simp add: cell_at_def)
  qed
  have "of_nat n \<noteq> rows_done b" if "n < unat (rows_done b)" for n by (rule of_nat_below [OF that])
  then have "v_rows (streaming_view ?b) = v_rows (streaming_view b)"
    by (auto simp: streaming_view_def cell fun_eq_iff)
  moreover have "open_row ?b = first_write (open_row b) (fc_name (columns b ! i)) c"
  proof
    fix k
    show "open_row ?b k = first_write (open_row b) (fc_name (columns b ! i)) c k"
    proof (cases "k = fc_name (columns b ! i)")
      case True
      then have "field_index b k = Some i" using D(2) i by simp
      with True new row old show ?thesis by (auto simp: open_row_def first_write_def wr cell dom_def)
    next
      case False
      then have "field_index b k \<noteq> Some i" using D(2) by simp
      with False row show ?thesis by (auto simp: open_row_def first_write_def wr cell split: option.splits)
    qed
  qed
  moreover have "map (view_bytes (input_buf b) (decoded_buf b @ d)) (line_views b) =
      map (view_bytes (input_buf b) (decoded_buf b)) (line_views b)"
    using D(8) by (auto simp: list_all_iff view_ok_extend)
  ultimately show "streaming_view ?b = write_cell (fc_name (columns b ! i)) c (streaming_view b)"
    by (simp add: streaming_view_def write_cell_def names cong: if_cong)
qed

subsection \<open>The append operations\<close>

definition touched :: "nat \<Rightarrow> StreamingBuilder \<Rightarrow> FieldColumns" where
  "touched i b = (if 64 \<le> i then (columns b ! i)\<lparr>last_row := rows_done b\<rparr> else columns b ! i)"

lemma touched_simps [simp]:
  "fc_name (touched i b) = fc_name (columns b ! i)" "column_rows (touched i b) = column_rows (columns b ! i)"
  "column_cells inp dec (touched i b) = column_cells inp dec (columns b ! i)"
  "column_ok inp dec row (touched i b) = column_ok inp dec row (columns b ! i)"
  "last_row (touched i b) = (if 64 \<le> i then rows_done b else last_row (columns b ! i))"
  by (simp_all add: touched_def column_rows_def column_cells_def column_ok_def)

lemma mark_written_new: "\<not> written b i \<Longrightarrow> mark_written i b =
    (False, b\<lparr>lifecycle := (lifecycle b)\<lparr>written_bits := mark_bits i (written_bits (lifecycle b))\<rparr>\<rparr>)"
  unfolding mark_written_def check_dup_bits_def Let_def bit_test
  by (auto simp: written_def mark_bits_def split: if_splits)

lemma mark_written_old: "written b i \<Longrightarrow> mark_written i b = (i < 64, b)"
  unfolding mark_written_def check_dup_bits_def Let_def bit_test
  by (auto simp: written_def split: if_splits)

lemma written_last: "written b i \<Longrightarrow> 64 \<le> i \<Longrightarrow> last_row (columns b ! i) = rows_done b"
  by (simp add: written_def)

lemma not_written_last: "\<not> written b i \<Longrightarrow> \<not> (64 \<le> i \<and> last_row (columns b ! i) = rows_done b)"
  by (auto simp: written_def)

text \<open>What each operation does to a field that is, and is not, written in the open row.\<close>

lemma append_scalar_cases:
  assumes "in_row b" and "i < length (columns b)"
  shows "written b i \<Longrightarrow> append_scalar i f b = Some b"
    and "\<not> written b i \<Longrightarrow> append_scalar i f b = Some (wrote i (f (rows_done b) (touched i b)) [] b)"
  using assms not_written_last [of b i] written_last [of b i]
  by (auto simp: append_scalar_def mark_written_old mark_written_new rows_done_def update_column_def touch_row_def
      wrote_def touched_def)

lemma append_null_cases:
  assumes "in_row b" and "i < length (columns b)"
  shows "written b i \<Longrightarrow> streaming_append_null i b = Some b"
    and "\<not> written b i \<Longrightarrow> streaming_append_null i b = Some (wrote i (touched i b) [] b)"
proof -
  have "update_column i (\<lambda>fc. fc\<lparr>last_row := rows_done b\<rparr>) b = b" if "last_row (columns b ! i) = rows_done b"
    unfolding update_column_def that [symmetric] by simp
  then show "written b i \<Longrightarrow> streaming_append_null i b = Some b"
    using assms written_last [of b i] by (auto simp: streaming_append_null_def mark_written_old touch_row_def)
  show "\<not> written b i \<Longrightarrow> streaming_append_null i b = Some (wrote i (touched i b) [] b)"
    using assms by (auto simp: streaming_append_null_def mark_written_new rows_done_def update_column_def touch_row_def
        wrote_def touched_def)
qed

lemma combined_fits:
  assumes "a + c < 2 ^ 32"
  shows "checked_add_u32 (of_nat a) (of_nat c) = Some (of_nat (a + c))"
proof -
  have "unat (of_nat a :: u32) = a" "unat (of_nat a + of_nat c :: u32) = a + c"
    using assms unat_of_nat_u32 [of a] unat_of_nat_u32 [of "a + c"] by simp_all
  then show ?thesis by (simp add: checked_add_u32_def word_le_nat_alt)
qed

lemma append_decoded_cases:
  assumes "in_row b" and "i < length (columns b)" and "valid_utf8 v"
    and "length (input_buf b) + length (decoded_buf b) + length v < 2 ^ 32"
  shows "written b i \<Longrightarrow> streaming_append_decoded_str i v b = Some b"
    and "\<not> written b i \<Longrightarrow> streaming_append_decoded_str i v b =
      Some (wrote i ((touched i b)\<lparr>has_str := True, str_views := str_views (touched i b) @
        [(rows_done b, of_nat (length (input_buf b) + length (decoded_buf b)), of_nat (length v))]\<rparr>) v b)"
proof -
  show "written b i \<Longrightarrow> streaming_append_decoded_str i v b = Some b"
    using assms(1,2) written_last [of b i] by (auto simp: streaming_append_decoded_str_def mark_written_old)
  assume new: "\<not> written b i"
  let ?b = "b\<lparr>lifecycle := (lifecycle b)\<lparr>written_bits := mark_bits i (written_bits (lifecycle b))\<rparr>\<rparr>"
  have "combined_offset ?b = Some (of_nat (length (input_buf b) + length (decoded_buf b)))"
    using assms(4) combined_fits [of "length (input_buf b)" "length (decoded_buf b)"]
    by (simp add: combined_offset_def u32_try_from_def)
  then show "streaming_append_decoded_str i v b =
      Some (wrote i ((touched i b)\<lparr>has_str := True, str_views := str_views (touched i b) @
        [(rows_done b, of_nat (length (input_buf b) + length (decoded_buf b)), of_nat (length v))]\<rparr>) v b)"
    using assms new not_written_last [OF new]
    by (auto simp: streaming_append_decoded_str_def mark_written_new append_decoded_str_inner_def u32_try_from_def
        push_view_def rows_done_def update_column_def touch_row_def wrote_def touched_def)
qed


lemma append_str_cases:
  assumes "in_row b" and "i < length (columns b)" and "valid_utf8 (subslice (input_buf b) s e)"
    and "s \<le> e" "e \<le> length (input_buf b)" "length (input_buf b) < 2 ^ 32"
  shows "written b i \<Longrightarrow> streaming_append_str i (slice_of (input_buf b) s e) b = Some b"
    and "\<not> written b i \<Longrightarrow> streaming_append_str i (slice_of (input_buf b) s e) b =
      Some (wrote i ((touched i b)\<lparr>has_str := True, str_views := str_views (touched i b) @
        [(rows_done b, of_nat s, of_nat (e - s))]\<rparr>) [] b)"
proof -
  have len: "length (subslice (input_buf b) s e) = e - s" using assms(4,5) by simp
  show "written b i \<Longrightarrow> streaming_append_str i (slice_of (input_buf b) s e) b = Some b"
    using assms(1,2) written_last [of b i] by (auto simp: streaming_append_str_def mark_written_old)
  assume new: "\<not> written b i"
  then show "streaming_append_str i (slice_of (input_buf b) s e) b =
      Some (wrote i ((touched i b)\<lparr>has_str := True, str_views := str_views (touched i b) @
        [(rows_done b, of_nat s, of_nat (e - s))]\<rparr>) [] b)"
    using assms not_written_last [OF new] len
    by (auto simp: streaming_append_str_def mark_written_new u32_try_from_def offset_of_def slice_of_def Let_def
        push_view_def rows_done_def update_column_def touch_row_def wrote_def touched_def simp del: length_slice)
qed

subsection \<open>The contract\<close>

text \<open>What an operation inside a row leaves alone.\<close>

definition same_frame :: "bytes \<Rightarrow> StreamingBuilder \<Rightarrow> StreamingBuilder \<Rightarrow> bool" where
  "same_frame d b b' \<longleftrightarrow>
     input_buf b' = input_buf b \<and> line_column b' = line_column b \<and> resource_attrs b' = resource_attrs b \<and>
     lc_state (lifecycle b') = lc_state (lifecycle b) \<and> rows_done b' = rows_done b \<and>
     length (decoded_buf b') \<le> length (decoded_buf b) + length d"

lemma write_again:
  assumes "builder_inv b" and "in_row b" and "i < num_active b" and "written b i"
  shows "write_cell (fc_name (columns b ! i)) c (streaming_view b) = streaming_view b"
proof -
  have "field_index b (fc_name (columns b ! i)) = Some i" using builder_invD(2) [OF assms(1)] assms(3) by simp
  then have "fc_name (columns b ! i) \<in> dom (open_row b)" using assms(2,4) by (simp add: open_row_def dom_def)
  then show ?thesis by (simp add: write_cell_def first_write_def streaming_view_def)
qed

lemma write_result:
  assumes inv: "builder_inv b" "in_row b" "i < num_active b" and old: "written b i \<Longrightarrow> r = Some b"
    and new: "\<not> written b i \<Longrightarrow> r = Some (wrote i fc d b)"
    and fc: "fc_name fc = fc_name (columns b ! i)" "last_row fc = (if 64 \<le> i then rows_done b else last_row (columns b ! i))"
    and ok: "rows_done b \<notin> set (column_rows (columns b ! i)) \<Longrightarrow>
      column_ok (input_buf b) (decoded_buf b @ d) (rows_done b) fc \<and>
      map_of (column_cells (input_buf b) (decoded_buf b @ d) fc) =
        (case c of None \<Rightarrow> map_of (column_cells (input_buf b) (decoded_buf b) (columns b ! i))
         | Some x \<Rightarrow> (map_of (column_cells (input_buf b) (decoded_buf b) (columns b ! i)))(rows_done b \<mapsto> x))"
  shows "\<exists>b'. r = Some b' \<and> builder_inv b' \<and> same_frame d b b' \<and>
    streaming_view b' = write_cell (fc_name (columns b ! i)) c (streaming_view b)"
proof (cases "written b i")
  case True
  with old inv write_again [OF inv True] show ?thesis by (simp add: same_frame_def)
next
  case False
  then have "rows_done b \<notin> set (column_rows (columns b ! i))" using builder_invD(4) [OF inv(1,3)] by blast
  from wrote_ok [OF inv False fc conjunct1 [OF ok [OF this]] conjunct2 [OF ok [OF this]]] new [OF False]
  show ?thesis by (simp add: same_frame_def)
qed

lemma scalar_result:
  assumes inv: "builder_inv b" "in_row b" "i < num_active b"
    and f: "(f, c) = (push_int n, Some (CInt n)) \<or> (f, c) = (push_float x, Some (CFloat x)) \<or>
      (f, c) = (push_bool y, Some (CBool y)) \<or> (f, c) = ((\<lambda>row fc. fc), None)"
  shows "\<exists>b'. append_scalar i f b = Some b' \<and> builder_inv b' \<and> same_frame [] b b' \<and>
    streaming_view b' = write_cell (fc_name (columns b ! i)) c (streaming_view b)"
proof (rule write_result [OF inv, where fc = "f (rows_done b) (touched i b)"])
  note ok = builder_invD(3) [OF inv(1,3)]
  have len: "i < length (columns b)" using builder_invD(1) [OF inv(1)] inv(3) by simp
  show "written b i \<Longrightarrow> append_scalar i f b = Some b"
    and "\<not> written b i \<Longrightarrow> append_scalar i f b = Some (wrote i (f (rows_done b) (touched i b)) [] b)"
    using append_scalar_cases [OF inv(2) len] by blast+
  show "fc_name (f (rows_done b) (touched i b)) = fc_name (columns b ! i)"
    "last_row (f (rows_done b) (touched i b)) = (if 64 \<le> i then rows_done b else last_row (columns b ! i))"
    using f by (auto simp: push_int_def push_float_def push_bool_def)
  assume "rows_done b \<notin> set (column_rows (columns b ! i))"
  then have new: "rows_done b \<notin> set (column_rows (touched i b))" by simp
  have ok': "column_ok (input_buf b) (decoded_buf b) (rows_done b) (touched i b)" using ok by simp
  show "column_ok (input_buf b) (decoded_buf b @ []) (rows_done b) (f (rows_done b) (touched i b)) \<and>
      map_of (column_cells (input_buf b) (decoded_buf b @ []) (f (rows_done b) (touched i b))) =
        (case c of None \<Rightarrow> map_of (column_cells (input_buf b) (decoded_buf b) (columns b ! i))
         | Some x \<Rightarrow> (map_of (column_cells (input_buf b) (decoded_buf b) (columns b ! i)))(rows_done b \<mapsto> x))"
    using f ok column_push [OF ok' new] column_push_cells [OF new] by auto
qed

lemma null_result:
  assumes inv: "builder_inv b" "in_row b" "i < num_active b"
  shows "\<exists>b'. streaming_append_null i b = Some b' \<and> builder_inv b' \<and> same_frame [] b b' \<and>
    streaming_view b' = write_cell (fc_name (columns b ! i)) None (streaming_view b)"
proof (rule write_result [OF inv, where fc = "touched i b"])
  have len: "i < length (columns b)" using builder_invD(1) [OF inv(1)] inv(3) by simp
  show "written b i \<Longrightarrow> streaming_append_null i b = Some b"
    and "\<not> written b i \<Longrightarrow> streaming_append_null i b = Some (wrote i (touched i b) [] b)"
    using append_null_cases [OF inv(2) len] by blast+
qed (use builder_invD(3) [OF inv(1,3)] in simp_all)

lemma str_result:
  assumes inv: "builder_inv b" "in_row b" "i < num_active b"
    and sl: "valid_utf8 (subslice (input_buf b) s e)" "s \<le> e" "e \<le> length (input_buf b)" "length (input_buf b) < 2 ^ 32"
  shows "\<exists>b'. streaming_append_str i (slice_of (input_buf b) s e) b = Some b' \<and> builder_inv b' \<and> same_frame [] b b' \<and>
    streaming_view b' = write_cell (fc_name (columns b ! i)) (Some (CStr (subslice (input_buf b) s e))) (streaming_view b)"
proof -
  let ?v = "(of_nat s, of_nat (e - s)) :: u32 \<times> u32"
  let ?fc = "(touched i b)\<lparr>has_str := True, str_views := str_views (touched i b) @ [(rows_done b, ?v)]\<rparr>"
  note ok = builder_invD(3) [OF inv(1,3)]
  have len: "i < length (columns b)" using builder_invD(1) [OF inv(1)] inv(3) by simp
  have bounds: "unat (of_nat s :: u32) = s" "unat (of_nat (e - s) :: u32) = e - s"
    using sl by (simp_all add: unat_of_nat_u32 del: of_nat_diff)
  have bytes: "view_bytes (input_buf b) (decoded_buf b) ?v = subslice (input_buf b) s e"
    using sl(2,3) by (simp add: view_bytes_def bounds slice_append_left del: of_nat_diff)
  then have view: "view_ok (input_buf b) (decoded_buf b) ?v" using sl by (simp add: view_ok_def bounds del: of_nat_diff)
  show ?thesis
  proof (rule write_result [OF inv, where fc = ?fc])
    show "written b i \<Longrightarrow> streaming_append_str i (slice_of (input_buf b) s e) b = Some b"
      and "\<not> written b i \<Longrightarrow> streaming_append_str i (slice_of (input_buf b) s e) b = Some (wrote i ?fc [] b)"
      using append_str_cases [OF inv(2) len sl] by blast+
    assume "rows_done b \<notin> set (column_rows (columns b ! i))"
    then have new: "rows_done b \<notin> set (column_rows (touched i b))" by simp
    have ok': "column_ok (input_buf b) (decoded_buf b) (rows_done b) (touched i b)" using ok by simp
    show "column_ok (input_buf b) (decoded_buf b @ []) (rows_done b) ?fc \<and>
      map_of (column_cells (input_buf b) (decoded_buf b @ []) ?fc) =
        (case Some (CStr (subslice (input_buf b) s e)) of
           None \<Rightarrow> map_of (column_cells (input_buf b) (decoded_buf b) (columns b ! i))
         | Some x \<Rightarrow> (map_of (column_cells (input_buf b) (decoded_buf b) (columns b ! i)))(rows_done b \<mapsto> x))"
      using column_push(4) [OF ok' new view] column_push_cells(4) [OF new, where v = ?v] bytes by simp
  qed simp_all
qed

lemma decoded_result:
  assumes inv: "builder_inv b" "in_row b" "i < num_active b" and v: "valid_utf8 v"
    and room: "length (input_buf b) + length (decoded_buf b) + length v < 2 ^ 32"
  shows "\<exists>b'. streaming_append_decoded_str i v b = Some b' \<and> builder_inv b' \<and> same_frame v b b' \<and>
    streaming_view b' = write_cell (fc_name (columns b ! i)) (Some (CStr v)) (streaming_view b)"
proof -
  let ?off = "length (input_buf b) + length (decoded_buf b)"
  let ?v = "(of_nat ?off, of_nat (length v)) :: u32 \<times> u32"
  let ?fc = "(touched i b)\<lparr>has_str := True, str_views := str_views (touched i b) @ [(rows_done b, ?v)]\<rparr>"
  have ok: "column_ok (input_buf b) (decoded_buf b @ v) (rows_done b) (touched i b)"
    and cells: "column_cells (input_buf b) (decoded_buf b @ v) (touched i b) =
      column_cells (input_buf b) (decoded_buf b) (columns b ! i)"
    using column_ok_extend [OF builder_invD(3) [OF inv(1,3)]] by simp_all
  have len: "i < length (columns b)" using builder_invD(1) [OF inv(1)] inv(3) by simp
  have bounds: "unat (of_nat ?off :: u32) = ?off" "unat (of_nat (length v) :: u32) = length v"
    using room by (simp_all add: unat_of_nat_u32 del: of_nat_add)
  have bytes: "view_bytes (input_buf b) (decoded_buf b @ v) ?v = v"
    by (simp add: view_bytes_def bounds subslice_def del: of_nat_add)
  then have view: "view_ok (input_buf b) (decoded_buf b @ v) ?v"
    using v by (simp add: view_ok_def bounds del: of_nat_add)
  show ?thesis
  proof (rule write_result [OF inv, where fc = ?fc])
    show "written b i \<Longrightarrow> streaming_append_decoded_str i v b = Some b"
      and "\<not> written b i \<Longrightarrow> streaming_append_decoded_str i v b = Some (wrote i ?fc v b)"
      using append_decoded_cases [OF inv(2) len v room] by blast+
    assume "rows_done b \<notin> set (column_rows (columns b ! i))"
    then have new: "rows_done b \<notin> set (column_rows (touched i b))" by simp
    show "column_ok (input_buf b) (decoded_buf b @ v) (rows_done b) ?fc \<and>
      map_of (column_cells (input_buf b) (decoded_buf b @ v) ?fc) =
        (case Some (CStr v) of
           None \<Rightarrow> map_of (column_cells (input_buf b) (decoded_buf b) (columns b ! i))
         | Some x \<Rightarrow> (map_of (column_cells (input_buf b) (decoded_buf b) (columns b ! i)))(rows_done b \<mapsto> x))"
      using column_push(4) [OF ok new view] column_push_cells(4) [OF new, where v = ?v] bytes cells
      by (simp del: of_nat_add)
  qed simp_all
qed

subsection \<open>Rows, names and lines\<close>

lemma u32_not_max: "unat r + 1 < 2 ^ 32 \<Longrightarrow> r \<noteq> -1" for r :: u32
proof
  assume "unat r + 1 < 2 ^ 32" "r = -1"
  moreover have "(-1 :: u32) = of_nat (2 ^ 32 - 1)" by simp
  ultimately show False using unat_of_nat_u32 [of "2 ^ 32 - 1"] by simp
qed

lemma unat_suc_u32: "unat r + 1 < 2 ^ 32 \<Longrightarrow> unat (r + 1) = unat r + 1" for r :: u32
  using unat_of_nat_u32 [of "unat r + 1"] by (simp add: add.commute)

lemma cell_at_cong:
  "field_index b' = field_index b \<Longrightarrow> columns b' = columns b \<Longrightarrow> input_buf b' = input_buf b \<Longrightarrow>
   decoded_buf b' = decoded_buf b \<Longrightarrow> cell_at b' = cell_at b"
  by (simp add: cell_at_def fun_eq_iff cong: option.case_cong)

lemma begin_row_result:
  assumes inv: "builder_inv b" and st: "lc_state (lifecycle b) = InBatch" and room: "unat (rows_done b) + 1 < 2 ^ 32"
  shows "\<exists>b'. streaming_begin_row b = Some b' \<and> builder_inv b' \<and> in_row b' \<and> \<not> line_written_this_row (lifecycle b') \<and>
    input_buf b' = input_buf b \<and> line_column b' = line_column b \<and> resource_attrs b' = resource_attrs b \<and>
    rows_done b' = rows_done b \<and>
    decoded_buf b' = decoded_buf b \<and> streaming_view b' = (streaming_view b)\<lparr>v_current := Map.empty\<rparr>"
proof -
  let ?b = "b\<lparr>lifecycle := (lifecycle b)\<lparr>written_bits := 0, line_written_this_row := False, lc_state := InRow\<rparr>\<rparr>"
  note D = builder_invD [OF inv]
  have out: "\<not> in_row b" using st by (simp add: in_row_def)
  have max: "rows_done b \<noteq> -1" using room by (rule u32_not_max)
  have eq: "streaming_begin_row b = Some ?b" using st by (simp add: streaming_begin_row_def lifecycle_begin_row_def)
  have last: "last_row (columns b ! i) \<noteq> rows_done b" if "i < num_active b" for i
    using D(5) [OF that] out max by auto
  have wr: "\<not> written ?b i" if "i < num_active b" for i
    using last [OF that] by (simp add: written_def rows_done_def)
  have rows: "rows_done b \<notin> set (column_rows (columns b ! i))" if "i < num_active b" for i
    using D(4) [OF that] out by blast
  have "builder_inv ?b"
    using D rows out by (auto simp: builder_inv_def rows_done_def in_row_def)
  moreover have "open_row ?b = Map.empty"
    using wr D(2) by (auto simp: open_row_def fun_eq_iff split: option.splits)
  moreover have "cell_at ?b = cell_at b" by (rule cell_at_cong) simp_all
  ultimately show ?thesis
    using eq by (simp add: streaming_view_def rows_done_def in_row_def cong: if_cong)
qed

lemma end_row_result:
  assumes inv: "builder_inv b" and row: "in_row b" and room: "unat (rows_done b) + 1 < 2 ^ 32"
  shows "\<exists>b'. streaming_end_row b = Some b' \<and> builder_inv b' \<and> lc_state (lifecycle b') = InBatch \<and>
    input_buf b' = input_buf b \<and> line_column b' = line_column b \<and> resource_attrs b' = resource_attrs b \<and>
    unat (rows_done b') = unat (rows_done b) + 1 \<and>
    decoded_buf b' = decoded_buf b \<and>
    streaming_view b' = (streaming_view b)\<lparr>v_rows := v_rows (streaming_view b) @
      [\<lambda>k. Option.bind (v_current (streaming_view b) k) id], v_current := Map.empty\<rparr>"
proof -
  let ?r = "rows_done b + 1"
  let ?b = "b\<lparr>lifecycle := (lifecycle b)\<lparr>row_count := ?r, lc_state := InBatch\<rparr>\<rparr>"
  note D = builder_invD [OF inv]
  have r: "unat ?r = unat (rows_done b) + 1"
    using room by (rule unat_suc_u32)
  then have less: "rows_done b < ?r" by (simp add: word_less_nat_alt)
  have "checked_add_u32 (rows_done b) 1 = Some ?r" using less by (simp add: checked_add_u32_def)
  then have eq: "streaming_end_row b = Some ?b"
    using row by (simp add: streaming_end_row_def lifecycle_end_row_def in_row_def rows_done_def)
  have rows: "rows_done ?b = ?r" "\<not> in_row ?b" by (simp_all add: rows_done_def in_row_def)
  have old: "x \<le> rows_done b" if "i < num_active b" "x \<in> set (column_rows (columns b ! i))" for i x
    using D(3) [OF that(1)] that(2) by (simp add: column_ok_def)
  then have fresh: "?r \<notin> set (column_rows (columns b ! i))" if "i < num_active b" for i
    using that less by fastforce
  have "last_row (columns b ! i) = -1 \<or> last_row (columns b ! i) < ?r" if "i < num_active b" for i
    using D(5) [OF that] less by auto
  moreover have "column_ok (input_buf b) (decoded_buf b) ?r (columns b ! i)" if "i < num_active b" for i
    using column_ok_row [OF D(3) [OF that]] less by simp
  ultimately have "builder_inv ?b"
    using D(1,2,6,8,9) fresh rows(2) unfolding builder_inv_def rows(1) by auto
  moreover have cell: "cell_at ?b = cell_at b" by (rule cell_at_cong) simp_all
  moreover have "cell_at b (rows_done b) k = Option.bind (open_row b k) id" for k
  proof (cases "field_index b k")
    case (Some i)
    have "map_of (column_cells (input_buf b) (decoded_buf b) (columns b ! i)) (rows_done b) = None" if "\<not> written b i"
      using D(4) [of i] D(2) [of k i] Some that by (metis column_cells_rows map_of_eq_None_iff set_map)
    with Some row show ?thesis by (simp add: open_row_def cell_at_def)
  qed (simp add: open_row_def cell_at_def)
  moreover have "of_nat (unat (rows_done b)) = rows_done b" by simp
  moreover have "open_row ?b = Map.empty" using rows(2) by (auto simp: open_row_def fun_eq_iff split: option.splits)
  ultimately show ?thesis
    using eq r by (simp add: streaming_view_def rows fun_eq_iff cong: if_cong)
qed

text \<open>A new column in the first free slot.\<close>

definition with_column :: "FieldColumns \<Rightarrow> StreamingBuilder \<Rightarrow> StreamingBuilder" where
  "with_column fc b =
     b\<lparr>columns := take (num_active b) (columns b) @ fc # drop (Suc (num_active b)) (columns b),
       num_active := num_active b + 1, field_index := (field_index b)(fc_name fc \<mapsto> num_active b)\<rparr>"

lemma with_column_simps [simp]:
  "num_active (with_column fc b) = Suc (num_active b)" "rows_done (with_column fc b) = rows_done b"
  "in_row (with_column fc b) = in_row b" "lifecycle (with_column fc b) = lifecycle b"
  "input_buf (with_column fc b) = input_buf b" "decoded_buf (with_column fc b) = decoded_buf b"
  "line_views (with_column fc b) = line_views b" "line_column (with_column fc b) = line_column b"
  "resource_attrs (with_column fc b) = resource_attrs b"
  "field_index (with_column fc b) = (field_index b)(fc_name fc \<mapsto> num_active b)"
  by (simp_all add: with_column_def rows_done_def in_row_def)

lemma with_column_nth:
  assumes "num_active b \<le> length (columns b)"
  shows "i < num_active b \<Longrightarrow> columns (with_column fc b) ! i = columns b ! i"
    and "columns (with_column fc b) ! num_active b = fc"
    and "num_active b < i \<Longrightarrow> i < length (columns b) \<Longrightarrow> columns (with_column fc b) ! i = columns b ! i"
    and "length (columns (with_column fc b)) = max (Suc (num_active b)) (length (columns b))"
  using assms by (auto simp: with_column_def nth_append nth_Cons' min_def)

lemma with_column_resolve:
  assumes "builder_inv b" and "lc_state (lifecycle b) \<noteq> Idle" and "field_index b key = None"
  obtains fc where "column_clear fc" "fc_name fc = key" "streaming_resolve_field key b = Some (num_active b, with_column fc b)"
proof (cases "num_active b < length (columns b)")
  case True
  let ?fc = "(columns b ! num_active b)\<lparr>fc_name := key\<rparr>"
  have "column_clear ?fc" using builder_invD(6) [OF assms(1) order_refl True] by (rule column_clear_simps(3))
  moreover have "streaming_resolve_field key b = Some (num_active b, with_column ?fc b)"
    using True assms(2,3)
    by (cases "lc_state (lifecycle b)") (simp_all add: streaming_resolve_field_def with_column_def upd_conv_take_nth_drop Let_def)
  ultimately show thesis using that [of ?fc] by simp
next
  case False
  with builder_invD(1) [OF assms(1)] have "num_active b = length (columns b)" by simp
  then have "streaming_resolve_field key b = Some (num_active b, with_column (field_columns_new key) b)"
    using assms(2,3)
    by (cases "lc_state (lifecycle b)") (simp_all add: streaming_resolve_field_def with_column_def field_columns_new_def Let_def)
  then show thesis using that [OF column_clear_simps(2)] by (simp add: field_columns_new_def)
qed

lemma with_column_inv:
  assumes inv: "builder_inv b" and fc: "column_clear fc" "field_index b (fc_name fc) = None" "valid_utf8 (fc_name fc)"
  shows "builder_inv (with_column fc b)"
proof -
  note D = builder_invD [OF inv]
  note nth = with_column_nth [OF D(1), where fc = fc]
  note empty = column_clear_empty [OF fc(1)]
  have wr: "written (with_column fc b) i = written b i" if "i < num_active b" for i
    using that nth(1) by (simp add: written_def)
  have index: "((field_index b)(fc_name fc \<mapsto> num_active b)) k = Some i \<longleftrightarrow>
      i < Suc (num_active b) \<and> fc_name (columns (with_column fc b) ! i) = k" for k i
    using D(2) [of k i] D(2) [of "fc_name fc" i] fc(2) nth(1) [of i] nth(2) by (auto simp: less_Suc_eq)
  have clear: "column_clear (columns (with_column fc b) ! i)"
    if "Suc (num_active b) \<le> i" "i < length (columns (with_column fc b))" for i
    using that D(6) [of i] nth(3,4) by simp
  let ?b = "with_column fc b"
  show ?thesis
    unfolding builder_inv_def with_column_simps
  proof (intro conjI)
    show "Suc (num_active b) \<le> length (columns ?b)" by (simp add: nth(4))
    show "\<forall>k i. ((field_index b)(fc_name fc \<mapsto> num_active b)) k = Some i \<longleftrightarrow> i < Suc (num_active b) \<and> fc_name (columns ?b ! i) = k"
      using index by blast
    show "\<forall>i<Suc (num_active b). column_ok (input_buf b) (decoded_buf b) (rows_done b) (columns ?b ! i)"
      using D(3) by (simp add: All_less_Suc nth(1,2) empty(3))
    show "\<forall>i<Suc (num_active b). rows_done b \<in> set (column_rows (columns ?b ! i)) \<longrightarrow> in_row b \<and> written ?b i"
      using D(4) by (simp add: All_less_Suc nth(1,2) empty(1) wr)
    show "\<forall>i<Suc (num_active b). last_row (columns ?b ! i) = -1 \<or> last_row (columns ?b ! i) < rows_done b \<or>
        in_row b \<and> last_row (columns ?b ! i) = rows_done b"
      using D(5) by (simp add: All_less_Suc nth(1,2) empty(4))
    show "\<forall>i. Suc (num_active b) \<le> i \<and> i < length (columns ?b) \<longrightarrow> column_clear (columns ?b ! i)" using clear by blast
    show "in_row b \<longrightarrow> (\<forall>i<64. bit (written_bits (lifecycle b)) i \<longrightarrow> i < Suc (num_active b))"
      using D(7) by (simp add: less_Suc_eq)
    show "list_all (view_ok (input_buf b) (decoded_buf b)) (line_views b)" by (rule D(8))
    show "\<forall>i<Suc (num_active b). valid_utf8 (fc_name (columns ?b ! i))"
      using D(9) fc(3) by (simp add: All_less_Suc nth(1,2))
  qed
qed

lemma with_column_view:
  assumes inv: "builder_inv b" and fc: "column_clear fc" "field_index b (fc_name fc) = None"
    and room: "in_row b \<Longrightarrow> unat (rows_done b) + 1 < 2 ^ 32"
  shows "streaming_view (with_column fc b) = (streaming_view b)\<lparr>v_names := v_names (streaming_view (with_column fc b))\<rparr>"
    and "v_names (streaming_view (with_column fc b)) (num_active b) = Some (fc_name fc)"
    and "v_names (streaming_view b) \<subseteq>\<^sub>m v_names (streaming_view (with_column fc b))"
proof -
  note D = builder_invD [OF inv]
  note nth = with_column_nth [OF D(1), where fc = fc]
  have cell: "cell_at (with_column fc b) r k = cell_at b r k" for r k
  proof (cases "field_index b k")
    case (Some i)
    then have "i < num_active b" "k \<noteq> fc_name fc" using D(2) [of k i] fc(2) by auto
    with Some nth(1) [of i] show ?thesis by (simp add: cell_at_def)
  qed (simp add: cell_at_def nth(2) column_clear_empty(2) [OF fc(1)])
  have new: "\<not> written (with_column fc b) (num_active b)" if "in_row b"
  proof -
    have "rows_done b \<noteq> -1" using room [OF that] by (rule u32_not_max)
    with D(7) [OF that, of "num_active b"] column_clear_empty(4) [OF fc(1)] show ?thesis by (auto simp: written_def nth(2))
  qed
  have "open_row (with_column fc b) k = open_row b k" for k
  proof (cases "field_index b k")
    case (Some i)
    then have "i < num_active b" "k \<noteq> fc_name fc" using D(2) [of k i] fc(2) by auto
    with Some nth(1) [of i] show ?thesis by (simp add: open_row_def cell written_def)
  qed (use new in \<open>auto simp: open_row_def\<close>)
  then show "streaming_view (with_column fc b) = (streaming_view b)\<lparr>v_names := v_names (streaming_view (with_column fc b))\<rparr>"
    by (simp add: streaming_view_def cell fun_eq_iff)
  show "v_names (streaming_view (with_column fc b)) (num_active b) = Some (fc_name fc)"
    and "v_names (streaming_view b) \<subseteq>\<^sub>m v_names (streaming_view (with_column fc b))"
    by (auto simp: streaming_view_def nth map_le_def)
qed

lemma resolve_result:
  assumes inv: "builder_inv b" and st: "lc_state (lifecycle b) \<noteq> Idle"
    and room: "in_row b \<Longrightarrow> unat (rows_done b) + 1 < 2 ^ 32" and key: "valid_utf8 key"
  shows "\<exists>i b'. streaming_resolve_field key b = Some (i, b') \<and> builder_inv b' \<and> same_frame [] b b' \<and>
    streaming_view b' = (streaming_view b)\<lparr>v_names := v_names (streaming_view b')\<rparr> \<and>
    v_names (streaming_view b') i = Some key \<and> v_names (streaming_view b) \<subseteq>\<^sub>m v_names (streaming_view b')"
proof (cases "field_index b key")
  case (Some i)
  then have "streaming_resolve_field key b = Some (i, b)" "v_names (streaming_view b) i = Some key"
    using st builder_invD(2) [OF inv, of key i]
    by (cases "lc_state (lifecycle b)"; simp add: streaming_resolve_field_def streaming_view_def)+
  with inv show ?thesis by (simp add: same_frame_def)
next
  case None
  obtain fc where fc: "column_clear fc" "fc_name fc = key"
      "streaming_resolve_field key b = Some (num_active b, with_column fc b)"
    using with_column_resolve [OF inv st None] by blast
  with with_column_inv [OF inv] with_column_view [OF inv _ _ room] None key show ?thesis
    by (auto simp: same_frame_def)
qed

lemma append_line_result:
  assumes inv: "builder_inv b" "in_row b" "line_column b \<noteq> None" "\<not> line_written_this_row (lifecycle b)"
    and sl: "valid_utf8 (subslice (input_buf b) s e)" "s \<le> e" "e \<le> length (input_buf b)" "length (input_buf b) < 2 ^ 32"
  shows "\<exists>b'. streaming_append_line (slice_of (input_buf b) s e) b = Some b' \<and> builder_inv b' \<and> same_frame [] b b' \<and>
    streaming_view b' = (streaming_view b)\<lparr>v_lines := v_lines (streaming_view b) @ [subslice (input_buf b) s e]\<rparr>"
proof -
  let ?v = "(of_nat s, of_nat (e - s)) :: u32 \<times> u32"
  let ?b = "push_line_view ?v b"
  have len: "length (subslice (input_buf b) s e) = e - s" using sl by simp
  have bounds: "unat (of_nat s :: u32) = s" "unat (of_nat (e - s) :: u32) = e - s"
    using sl by (simp_all add: unat_of_nat_u32 del: of_nat_diff)
  have bytes: "view_bytes (input_buf b) (decoded_buf b) ?v = subslice (input_buf b) s e"
    using sl(2,3) by (simp add: view_bytes_def bounds slice_append_left del: of_nat_diff)
  have view: "view_ok (input_buf b) (decoded_buf b) ?v" using sl bytes by (simp add: view_ok_def bounds del: of_nat_diff)
  have basic: "rows_done ?b = rows_done b" "in_row ?b = in_row b" "columns ?b = columns b" "field_index ?b = field_index b"
    "num_active ?b = num_active b" "input_buf ?b = input_buf b" "decoded_buf ?b = decoded_buf b"
    "line_column ?b = line_column b" "resource_attrs ?b = resource_attrs b" "lc_state (lifecycle ?b) = lc_state (lifecycle b)"
    "line_views ?b = line_views b @ [?v]" "written_bits (lifecycle ?b) = written_bits (lifecycle b)"
    by (simp_all add: push_line_view_def rows_done_def in_row_def)
  have "streaming_append_line (slice_of (input_buf b) s e) b = Some ?b"
    using inv sl len by (auto simp: streaming_append_line_def slice_of_def offset_of_def u32_try_from_def simp del: length_slice)
  moreover have wr: "written ?b = written b" by (simp add: written_def basic fun_eq_iff)
  moreover have "builder_inv ?b" using inv(1) view by (simp add: builder_inv_def basic wr)
  moreover have cell: "cell_at ?b = cell_at b" by (rule cell_at_cong) (simp_all add: basic)
  moreover have "open_row ?b = open_row b" by (simp add: open_row_def fun_eq_iff basic wr cell cong: option.case_cong if_cong)
  ultimately show ?thesis
    using bytes by (simp add: streaming_view_def same_frame_def basic cong: if_cong)
qed

subsection \<open>The builder satisfies the contract\<close>

text \<open>
  \<open>names\<close> are the name of the line column and the resource attributes, which no operation changes;
  \<open>r\<close> and \<open>m\<close> are the rows and the decoded bytes there is room for.
\<close>

definition streaming_ok :: "bytes \<Rightarrow> bytes option \<times> (bytes \<times> bytes) list \<Rightarrow> BuilderState \<Rightarrow> nat \<Rightarrow> nat \<Rightarrow> StreamingBuilder option \<Rightarrow> bool" where
  "streaming_ok buf names st r m ob \<longleftrightarrow>
     (case ob of None \<Rightarrow> False
      | Some b \<Rightarrow>
          builder_inv b \<and> lc_state (lifecycle b) = st \<and> st \<noteq> Idle \<and> input_buf b = buf \<and>
          (line_column b, resource_attrs b) = names \<and>
          unat (rows_done b) + r + (if st = InRow then 1 else 0) < 2 ^ 32 \<and>
          length buf + length (decoded_buf b) + m < 2 ^ 32)"

definition streaming_obs :: "StreamingBuilder option \<Rightarrow> builder_view" where
  "streaming_obs ob = streaming_view (the ob)"

lemma streaming_okE:
  assumes "streaming_ok buf names st r m ob"
  obtains b where "ob = Some b" "builder_inv b" "lc_state (lifecycle b) = st" "st \<noteq> Idle" "input_buf b = buf"
    "(line_column b, resource_attrs b) = names" "unat (rows_done b) + r + (if st = InRow then 1 else 0) < 2 ^ 32"
    "length buf + length (decoded_buf b) + m < 2 ^ 32"
  using assms by (auto simp: streaming_ok_def split: option.splits)

lemma streaming_ok_frame:
  assumes "streaming_ok buf names st r (length d + m) (Some b)" and "builder_inv b'" and "same_frame d b b'"
  shows "streaming_ok buf names st r m (Some b')"
  using assms by (auto simp: streaming_ok_def same_frame_def)

text \<open>\<open>appends buf i f d c\<close>: on a builder inside a row, \<open>f\<close> writes cell \<open>c\<close> to column \<open>i\<close> and decodes at most \<open>d\<close>.\<close>

definition appends :: "bytes \<Rightarrow> nat \<Rightarrow> (StreamingBuilder \<Rightarrow> StreamingBuilder option) \<Rightarrow> bytes \<Rightarrow> Cell option \<Rightarrow> bool" where
  "appends buf i f d c \<longleftrightarrow>
     (\<forall>b. builder_inv b \<and> in_row b \<and> i < num_active b \<and> input_buf b = buf \<and>
        length buf + length (decoded_buf b) + length d < 2 ^ 32 \<longrightarrow>
        (\<exists>b'. f b = Some b' \<and> builder_inv b' \<and> same_frame d b b' \<and>
          streaming_view b' = write_cell (fc_name (columns b ! i)) c (streaming_view b)))"

lemma appends_value:
  "s \<le> e \<Longrightarrow> e \<le> length buf \<Longrightarrow> valid_utf8 (subslice buf s e) \<Longrightarrow>
     appends buf i (streaming_append_str i (slice_of buf s e)) [] (Some (CStr (subslice buf s e)))"
  "valid_utf8 v \<Longrightarrow> appends buf i (streaming_append_decoded_str i v) v (Some (CStr v))"
  "parse_int_fast v = Some n \<Longrightarrow> appends buf i (streaming_append_int i v) [] (Some (CInt n))"
  "appends buf i (streaming_append_bool i x) [] (Some (CBool x))"
  "appends buf i (streaming_append_null i) [] None"
  using str_result decoded_result scalar_result null_result
  by (auto simp: appends_def streaming_append_int_def streaming_append_bool_def)

lemma appends_float: "appends buf i (streaming_append_float i v) [] (map_option CFloat (parse_float_fast v))"
  using scalar_result by (cases "parse_float_fast v") (auto simp: appends_def streaming_append_float_def)

lemma streaming_append:
  assumes ok: "streaming_ok buf names InRow r (length d + m) ob" and col: "v_names (streaming_obs ob) i = Some key"
    and app: "appends buf i f d c"
  shows "streaming_ok buf names InRow r m (Option.bind ob f) \<and>
    streaming_obs (Option.bind ob f) = write_cell key c (streaming_obs ob)"
proof -
  obtain b where b: "ob = Some b" "builder_inv b" "lc_state (lifecycle b) = InRow" "input_buf b = buf"
      "length buf + length (decoded_buf b) + length d < 2 ^ 32"
    using ok by (elim streaming_okE) auto
  have i: "i < num_active b" "fc_name (columns b ! i) = key"
    using col b(1) by (auto simp: streaming_obs_def streaming_view_def split: if_splits)
  obtain b' where "f b = Some b'" "builder_inv b'" "same_frame d b b'" "streaming_view b' = write_cell key c (streaming_view b)"
    using app b(2-5) i by (auto simp: appends_def in_row_def)
  with streaming_ok_frame [of buf names InRow r d m b b'] ok b(1) show ?thesis by (simp add: streaming_obs_def)
qed

interpretation streaming: scan_builder streaming_ops "streaming_ok buf names" streaming_obs buf "fst names \<noteq> None"
  for buf :: bytes and names :: "bytes option \<times> (bytes \<times> bytes) list"
proof
  show "streaming_ok buf names st r' m' b" if "streaming_ok buf names st r m b" "r' \<le> r" "m' \<le> m" for st r m b r' m'
    using that by (auto simp: streaming_ok_def split: option.splits)
next
  fix r m and ob :: "StreamingBuilder option"
  assume "streaming_ok buf names InBatch (Suc r) m ob"
  then obtain b where b: "ob = Some b" "builder_inv b" "lc_state (lifecycle b) = InBatch" "input_buf b = buf"
      "(line_column b, resource_attrs b) = names" "unat (rows_done b) + Suc r < 2 ^ 32" "length buf + length (decoded_buf b) + m < 2 ^ 32"
    by (auto elim!: streaming_okE)
  then show "streaming_ok buf names InRow r m (begin_row streaming_ops ob) \<and>
      streaming_obs (begin_row streaming_ops ob) = (streaming_obs ob)\<lparr>v_current := Map.empty\<rparr>"
    using begin_row_result [OF b(2,3)] by (auto simp: streaming_ops_def streaming_ok_def streaming_obs_def in_row_def)
  fix s e b'
  assume cap: "fst names \<noteq> None" and sl: "s \<le> e" "e \<le> length buf" "valid_utf8 (subslice buf s e)"
    and b': "b' = append_line streaming_ops (slice_of buf s e) (begin_row streaming_ops ob)"
  obtain b1 where b1: "streaming_begin_row b = Some b1" "builder_inv b1" "in_row b1" "\<not> line_written_this_row (lifecycle b1)"
      "input_buf b1 = input_buf b" "line_column b1 = line_column b" "resource_attrs b1 = resource_attrs b" "rows_done b1 = rows_done b"
      "decoded_buf b1 = decoded_buf b" "streaming_view b1 = (streaming_view b)\<lparr>v_current := Map.empty\<rparr>"
    using begin_row_result [OF b(2,3)] b(6) by auto
  with append_line_result [OF b1(2,3) _ b1(4), of s e] b cap sl b'
  show "streaming_ok buf names InRow r m b' \<and>
      streaming_obs b' = (streaming_obs ob)\<lparr>v_current := Map.empty, v_lines := v_lines (streaming_obs ob) @ [subslice buf s e]\<rparr>"
    by (auto simp: streaming_ops_def streaming_ok_def streaming_obs_def in_row_def same_frame_def)
next
  fix r m and ob :: "StreamingBuilder option"
  assume "streaming_ok buf names InRow r m ob"
  then obtain b where b: "ob = Some b" "builder_inv b" "lc_state (lifecycle b) = InRow" "input_buf b = buf"
      "(line_column b, resource_attrs b) = names" "unat (rows_done b) + r + 1 < 2 ^ 32" "length buf + length (decoded_buf b) + m < 2 ^ 32"
    by (auto elim!: streaming_okE)
  then show "streaming_ok buf names InBatch r m (end_row streaming_ops ob) \<and>
      streaming_obs (end_row streaming_ops ob) = (streaming_obs ob)\<lparr>v_rows := v_rows (streaming_obs ob) @
        [\<lambda>k. Option.bind (v_current (streaming_obs ob) k) id], v_current := Map.empty\<rparr>"
    using end_row_result [OF b(2)] by (auto simp: streaming_ops_def streaming_ok_def streaming_obs_def in_row_def)
next
  fix st r m ob key idx b'
  assume "streaming_ok buf names st r m ob" "st \<noteq> Idle" and key: "valid_utf8 key" and res: "resolve_field streaming_ops key ob = (idx, b')"
  then obtain b where b: "ob = Some b" "builder_inv b" "lc_state (lifecycle b) = st" "st \<noteq> Idle"
      "unat (rows_done b) + r + (if st = InRow then 1 else 0) < 2 ^ 32"
    by (elim streaming_okE) auto
  have "in_row b \<Longrightarrow> unat (rows_done b) + 1 < 2 ^ 32" using b(3,5) by (auto simp: in_row_def)
  from resolve_result [OF b(2) _ this key] b(3,4) obtain i b1 where b1: "streaming_resolve_field key b = Some (i, b1)"
      "builder_inv b1" "same_frame [] b b1" "streaming_view b1 = (streaming_view b)\<lparr>v_names := v_names (streaming_view b1)\<rparr>"
      "v_names (streaming_view b1) i = Some key" "v_names (streaming_view b) \<subseteq>\<^sub>m v_names (streaming_view b1)"
    by auto
  then have "idx = i" "b' = Some b1" using res b(1) by (simp_all add: streaming_ops_def)
  with b1 b(1) streaming_ok_frame [of buf names st r "[]" m b b1] \<open>streaming_ok buf names st r m ob\<close>
  show "streaming_ok buf names st r m b' \<and> streaming_obs b' = (streaming_obs ob)\<lparr>v_names := v_names (streaming_obs b')\<rparr> \<and>
      v_names (streaming_obs b') idx = Some key \<and> v_names (streaming_obs ob) \<subseteq>\<^sub>m v_names (streaming_obs b')"
    by (simp add: streaming_obs_def)
next
  show "streaming_ok buf names InRow r m b' \<and> streaming_obs b' = write_cell key (Some (CStr (subslice buf s e))) (streaming_obs b)"
    if "streaming_ok buf names InRow r m b" "v_names (streaming_obs b) idx = Some key" "s \<le> e" "e \<le> length buf"
      "valid_utf8 (subslice buf s e)" "b' = append_str_by_idx streaming_ops idx (slice_of buf s e) b" for r m b idx key s e b'
    using that streaming_append [OF _ _ appends_value(1), of buf names r] by (simp add: streaming_ops_def)
  show "streaming_ok buf names InRow r m b' \<and> streaming_obs b' = write_cell key (Some (CStr v)) (streaming_obs b)"
    if "streaming_ok buf names InRow r (length v + m) b" "v_names (streaming_obs b) idx = Some key" "valid_utf8 v"
      "b' = append_decoded_str_by_idx streaming_ops idx v b" for r v m b idx key b'
    using that streaming_append [OF _ _ appends_value(2), of buf names r] by (simp add: streaming_ops_def)
  show "streaming_ok buf names InRow r m b' \<and> streaming_obs b' = write_cell key (Some (CInt n)) (streaming_obs b)"
    if "streaming_ok buf names InRow r m b" "v_names (streaming_obs b) idx = Some key" "parse_int_fast v = Some n"
      "b' = append_int_by_idx streaming_ops idx v b" for r m b idx key v n b'
    using that streaming_append [OF _ _ appends_value(3), of buf names r] by (simp add: streaming_ops_def)
  show "streaming_ok buf names InRow r m b' \<and>
      streaming_obs b' = write_cell key (map_option CFloat (parse_float_fast v)) (streaming_obs b)"
    if "streaming_ok buf names InRow r m b" "v_names (streaming_obs b) idx = Some key"
      "b' = append_float_by_idx streaming_ops idx v b" for r m b idx key b' v
    using that streaming_append [OF _ _ appends_float, of buf names r] by (simp add: streaming_ops_def)
  show "streaming_ok buf names InRow r m b' \<and> streaming_obs b' = write_cell key (Some (CBool x)) (streaming_obs b)"
    if "streaming_ok buf names InRow r m b" "v_names (streaming_obs b) idx = Some key"
      "b' = append_bool_by_idx streaming_ops idx x b" for r m b idx key b' x
    using that streaming_append [OF _ _ appends_value(4), of buf names r] by (simp add: streaming_ops_def)
  show "streaming_ok buf names InRow r m b' \<and> streaming_obs b' = write_cell key None (streaming_obs b)"
    if "streaming_ok buf names InRow r m b" "v_names (streaming_obs b) idx = Some key"
      "b' = append_null_by_idx streaming_ops idx b" for r m b idx key b'
    using that streaming_append [OF _ _ appends_value(5), of buf names r] by (simp add: streaming_ops_def)
qed

subsection \<open>Scanning a buffer\<close>

definition empty_view :: builder_view where
  "empty_view = \<lparr>v_rows = [], v_current = Map.empty, v_lines = [], v_names = Map.empty\<rparr>"

lemma builder_inv_new: "builder_inv (streaming_new name)"
  by (auto simp: builder_inv_def streaming_new_def in_row_def lifecycle_new_def)

lemma begin_batch_result:
  assumes inv: "builder_inv b" and st: "lc_state (lifecycle b) \<noteq> InRow" and len: "length buf < 2 ^ 32"
  shows "\<exists>b1. streaming_begin_batch buf b = Some b1 \<and> builder_inv b1 \<and> lc_state (lifecycle b1) = InBatch \<and>
    input_buf b1 = buf \<and> decoded_buf b1 = [] \<and> line_column b1 = line_column b \<and> resource_attrs b1 = resource_attrs b \<and>
    rows_done b1 = 0 \<and> streaming_view b1 = empty_view"
proof -
  let ?cols = "map field_columns_clear (take (num_active b) (columns b)) @ drop (num_active b) (columns b)"
  obtain b1 where eq: "streaming_begin_batch buf b = Some b1"
    and b1: "columns b1 = ?cols" "field_index b1 = Map.empty" "num_active b1 = 0" "input_buf b1 = buf"
      "decoded_buf b1 = []" "line_views b1 = []" "line_column b1 = line_column b" "lc_state (lifecycle b1) = InBatch"
      "rows_done b1 = 0" "resource_attrs b1 = resource_attrs b"
    using builder_invD(1) [OF inv] st len
    by (cases "lc_state (lifecycle b)")
      (simp_all add: streaming_begin_batch_def u32_try_from_def lifecycle_begin_batch_def rows_done_def)
  have "column_clear (?cols ! i)" if "i < length (columns b)" for i
    using builder_invD(1,6) [OF inv] that column_clear_simps(1) by (auto simp: nth_append min_def)
  then have "builder_inv b1"
    using builder_invD(1) [OF inv] by (simp add: builder_inv_def b1 in_row_def)
  with eq b1 show ?thesis
    by (auto simp: streaming_view_def empty_view_def open_row_def fun_eq_iff)
qed

lemma scan_ranges_delivered:
  assumes wide: "wide_crate (env_simd env)" and utf8: "valid_utf8 buf"
    and phase: "scan_phase1 (env_simd env) buf = (blocks, ranges)"
    and ok: "streaming_ok buf names InBatch (length buf) (length buf) ob" and capture: "captures_line config \<longleftrightarrow> fst names \<noteq> None"
    and b': "b' = foldl (\<lambda>b (s, e). scan_line env buf s e blocks config streaming_ops b) ob ranges"
  shows "streaming_ok buf names InBatch 0 0 b' \<and>
    v_rows (streaming_obs b') = v_rows (streaming_obs ob) @ scan_rows env buf config blocks ranges \<and>
    v_lines (streaming_obs b') = v_lines (streaming_obs ob) @ scan_captured env buf config blocks ranges"
proof -
  let ?cost = "\<lambda>(s, e). fields_cost (object_fields (env_memchr env) buf s e blocks)"
  note ranges = scan_phase1_ranges [OF wide phase utf8]
  have ready: "scan_ready buf blocks e" if "(s, e) \<in> set ranges" for s e
    using utf8 scan_phase1_correct(1) [OF wide phase] ranges(2) [OF that] by (simp add: scan_ready_def)
  have "sum_list (map ?cost ranges) \<le> sum_list (map (\<lambda>(s, e). e - s) ranges)"
    using object_fields_ok(2) [OF ready] by (intro sum_list_mono) auto
  moreover have "length ranges \<le> sum_list (map (\<lambda>(s, e). e - s) ranges)"
  proof -
    have "length ranges = sum_list (map (\<lambda>(s, e). 1) ranges)" by (induction ranges) auto
    also have "\<dots> \<le> sum_list (map (\<lambda>(s, e). e - s) ranges)"
      using ranges(2) by (intro sum_list_mono) (auto simp: Suc_le_eq)
    finally show ?thesis .
  qed
  ultimately have "streaming_ok buf names InBatch (length ranges + 0) (sum_list (map ?cost ranges) + 0) ob"
    using streaming.ok_less [OF ok] ranges(1) by simp
  moreover have "s \<le> e \<and> e \<le> length buf \<and> valid_utf8 (subslice buf s e) \<and>
      fields_ok (env_memchr env) buf (object_fields (env_memchr env) buf s e blocks)" if "(s, e) \<in> set ranges" for s e
    using ranges(2) [OF that] cut_slice [of buf s e] object_fields_ok(1) [OF ready [OF that]] by (simp add: char_cut_def)
  ultimately show ?thesis using streaming.scan_ranges_ok [OF _ capture [symmetric] _ b', where r = 0 and m = 0] by blast
qed

lemma scan_streaming_result:
  assumes "wide_crate (env_simd env)" and "valid_utf8 buf" and "scan_phase1 (env_simd env) buf = (blocks, ranges)"
    and ok: "streaming_ok buf names InBatch (length buf) (length buf) (Some b)"
    and "captures_line config \<longleftrightarrow> fst names \<noteq> None" and empty: "streaming_view b = empty_view"
  shows "\<exists>b'. scan_streaming env buf config streaming_ops (Some b) = Some b' \<and>
    streaming_ok buf names InBatch 0 0 (Some b') \<and>
    v_rows (streaming_view b') = scan_rows env buf config blocks ranges \<and>
    v_lines (streaming_view b') = scan_captured env buf config blocks ranges"
proof (cases "buf = []")
  case True
  then have "ranges = []" using assms(3) by (auto simp: scan_phase1_def Let_def num_blocks_def phase1_init_def)
  with True ok empty show ?thesis by (simp add: scan_streaming_def scan_rows_def scan_captured_def empty_view_def)
next
  case False
  let ?b = "foldl (\<lambda>b (s, e). scan_line env buf s e blocks config streaming_ops b) (Some b) ranges"
  note res = scan_ranges_delivered [OF assms(1-3) ok assms(5) refl]
  then obtain b' where b': "?b = Some b'" by (blast elim: streaming_okE)
  moreover have "scan_streaming env buf config streaming_ops (Some b) = ?b" using False assms(3) by (simp add: scan_streaming_def)
  ultimately show ?thesis using res empty by (simp add: streaming_obs_def empty_view_def)
qed

text \<open>
  Property C1. Scanning a valid UTF-8 buffer of less than 2 GiB into a streaming builder never panics
  and delivers exactly the rows of the buffer: one row for every NDJSON line that satisfies the
  predicate, in order, whose cells are the first value of every wanted field with escapes decoded
  and numbers parsed, and the captured lines. The builder's invariant holds again afterwards, so
  the builder can be reused.
\<close>

theorem scan_delivers_rows:
  assumes "wide_crate (env_simd env)" and "valid_utf8 buf" and "2 * length buf < 2 ^ 32"
    and "builder_inv b" and "lc_state (lifecycle b) \<noteq> InRow" and "line_column b = line_field_name config"
    and "scan_phase1 (env_simd env) buf = (blocks, ranges)"
  shows "\<exists>b'. scan_streaming env buf config streaming_ops (streaming_begin_batch buf b) = Some b' \<and>
    builder_inv b' \<and> lc_state (lifecycle b') = InBatch \<and> input_buf b' = buf \<and>
    v_rows (streaming_view b') = scan_rows env buf config blocks ranges \<and>
    v_lines (streaming_view b') = scan_captured env buf config blocks ranges"
proof -
  obtain b1 where b1: "streaming_begin_batch buf b = Some b1" "builder_inv b1" "lc_state (lifecycle b1) = InBatch"
      "input_buf b1 = buf" "decoded_buf b1 = []" "line_column b1 = line_column b" "rows_done b1 = 0"
      "streaming_view b1 = empty_view" "resource_attrs b1 = resource_attrs b"
    using begin_batch_result [OF assms(4,5), of buf] assms(3) by auto
  have ok: "streaming_ok buf (line_column b, resource_attrs b) InBatch (length buf) (length buf) (Some b1)"
    using b1 assms(3) by (auto simp: streaming_ok_def)
  from scan_streaming_result [OF assms(1,2,7) ok _ b1(8), of config] b1(1) assms(6) show ?thesis
    by (fastforce simp: captures_line_def elim: streaming_okE)
qed


definition reference_env :: scan_env where
  "reference_env = \<lparr>env_memchr = own_search_ops, env_memmem = naive_memmem, env_simd = scalar_simd_eq\<rparr>"

lemma reference_env_wide: "wide_crate (env_simd reference_env)"
  by (simp add: reference_env_def scalar_wide.wide_crate_axioms)

theorem scan_delivers_rows_witness:
  "length (v_rows (streaming_view (the (scan_streaming reference_env (bstr ''{\"a\":1}'' @ [NL, NL] @ bstr ''[2]'')
     scan_config_default streaming_ops
     (streaming_begin_batch (bstr ''{\"a\":1}'' @ [NL, NL] @ bstr ''[2]'') (streaming_new None)))))) = 2"
proof -
  let ?buf = "bstr ''{\"a\":1}'' @ [NL, NL] @ bstr ''[2]''"
  let ?p = "scan_phase1 (env_simd reference_env) ?buf"
  have utf8: "valid_utf8 ?buf" by code_simp
  have len: "2 * length ?buf < 2 ^ 32" by (simp add: bstr_def)
  have st: "lc_state (lifecycle (streaming_new None)) \<noteq> InRow" "line_column (streaming_new None) = line_field_name scan_config_default"
    by (simp_all add: streaming_new_def lifecycle_new_def scan_config_default_def)
  obtain b' where b': "scan_streaming reference_env ?buf scan_config_default streaming_ops (streaming_begin_batch ?buf (streaming_new None)) = Some b'"
      "v_rows (streaming_view b') = scan_rows reference_env ?buf scan_config_default (fst ?p) (snd ?p)"
    using scan_delivers_rows [OF reference_env_wide utf8 len builder_inv_new st prod.collapse [symmetric]] by blast
  have "length (scan_rows reference_env ?buf scan_config_default (fst ?p) (snd ?p)) = length (snd ?p)"
    by (simp add: scan_rows_def line_passes_def scan_config_default_def case_prod_beta)
  also have "\<dots> = length (ndjson_lines ?buf)"
    using scan_phase1_correct(2) [OF reference_env_wide, of ?buf "fst ?p" "snd ?p"] by (metis length_map prod.collapse)
  also have "\<dots> = 2" by code_simp
  finally show ?thesis using b' by simp
qed

end
