(* ===== verification/Record_Batch.thy ===== *)
theory Record_Batch
  imports Streaming_Rows
begin

text \<open>
  Finishing a batch: \<^verbatim>\<open>ffwd-arrow/src/streaming_builder/finish.rs\<close>, \<^verbatim>\<open>append_string_view\<close> of
  \<^verbatim>\<open>streaming_builder/mod.rs\<close> and the \<^verbatim>\<open>Scanner\<close> of \<^verbatim>\<open>ffwd-arrow/src/scanner.rs\<close>.

  An Arrow array is the data handed to its constructor; a view of a \<^verbatim>\<open>StringViewArray\<close> is the block
  it points into with its offset and length. Whether Arrow accepts a view
  (\<^verbatim>\<open>StringViewBuilder::try_append_view\<close>), how many bytes a \<^verbatim>\<open>StringBuilder\<close> holds and the final batch (\<^verbatim>\<open>RecordBatch::try_new_with_options\<close>)
  are parameters. \<^verbatim>\<open>finish_batch\<close> and \<^verbatim>\<open>finish_batch_detached\<close> are the same walk over the columns
  with different string arrays, so the walk takes the string array builder as an argument.
\<close>

subsection \<open>Arrays\<close>

datatype DataType = Int64 | Float64 | Boolean | Utf8View | Utf8 | Struct "(bytes \<times> DataType) list"

datatype ArrowArray =
    Int64Array "int list" "bool list"
  | Float64Array "f64 list" "bool list"
  | BooleanArray "bool list" "bool list"
  | StringViewArray "(bytes \<times> u32 \<times> u32) option list"
  | StringArray "bytes option list"
  | StructArray "(bytes \<times> DataType \<times> ArrowArray) list" "bool list"

type_synonym column = "bytes \<times> DataType \<times> ArrowArray"

datatype finish_error =
    DuplicateColumn bytes
  | LineCardinality nat nat
  | BufferTooLarge
  | AttributeTooLarge bytes
  | BatchRejected
  | InvalidUtf8
  | Panicked

type_synonym view_check = "bytes \<Rightarrow> u32 \<Rightarrow> u32 \<Rightarrow> bool"

fun array_is_null :: "ArrowArray \<Rightarrow> nat \<Rightarrow> bool" where
  "array_is_null (Int64Array values valid) i \<longleftrightarrow> \<not> valid ! i"
| "array_is_null (Float64Array values valid) i \<longleftrightarrow> \<not> valid ! i"
| "array_is_null (BooleanArray values valid) i \<longleftrightarrow> \<not> valid ! i"
| "array_is_null (StringViewArray views) i \<longleftrightarrow> views ! i = None"
| "array_is_null (StringArray values) i \<longleftrightarrow> values ! i = None"
| "array_is_null (StructArray children valid) i \<longleftrightarrow> \<not> valid ! i"

text \<open>The loops that place values by row; rows out of range are skipped.\<close>

fun scatter :: "nat \<Rightarrow> (u32 \<times> 'a) list \<Rightarrow> 'a list \<times> bool list \<Rightarrow> 'a list \<times> bool list" where
  "scatter num_rows [] acc = acc"
| "scatter num_rows ((row, v) # rest) (values, valid) =
     (if num_rows \<le> unat row then scatter num_rows rest (values, valid)
      else scatter num_rows rest (values[unat row := v], valid[unat row := True]))"

definition int_array :: "nat \<Rightarrow> FieldColumns \<Rightarrow> ArrowArray" where
  "int_array n fc =
     (case scatter n (int_values fc) (replicate n 0, replicate n False) of (values, valid) \<Rightarrow> Int64Array values valid)"

definition float_array :: "nat \<Rightarrow> FieldColumns \<Rightarrow> ArrowArray" where
  "float_array n fc =
     (case scatter n (float_values fc) (replicate n (Fin 0), replicate n False) of (values, valid) \<Rightarrow> Float64Array values valid)"

definition bool_array :: "nat \<Rightarrow> FieldColumns \<Rightarrow> ArrowArray" where
  "bool_array n fc =
     (case scatter n (bool_values fc) (replicate n False, replicate n False) of (values, valid) \<Rightarrow> BooleanArray values valid)"

text \<open>The loop over rows with an index into the views: a view is used when its row is the current one.\<close>

fun view_rows :: "u32 list \<Rightarrow> (u32 \<times> u32 \<times> u32) list \<Rightarrow> (u32 \<times> u32) option list" where
  "view_rows [] views = []"
| "view_rows (row # rows) [] = None # view_rows rows []"
| "view_rows (row # rows) ((r, v) # views) =
     (if r = row then Some v # view_rows rows views else None # view_rows rows ((r, v) # views))"

definition row_range :: "nat \<Rightarrow> u32 list" where
  "row_range n = map of_nat [0..<n]"

definition append_string_view :: "view_check \<Rightarrow> bytes \<Rightarrow> bytes option \<Rightarrow> u32 \<times> u32 \<Rightarrow> (bytes \<times> u32 \<times> u32) option" where
  "append_string_view accepts inp dec v =
     (case v of (off, len) \<Rightarrow>
        (let original_len = of_nat (length inp)
         in if off < original_len \<or> (len = 0 \<and> off = original_len) then
              (if accepts inp off len then Some (inp, off, len) else None)
            else (case dec of
                    Some d \<Rightarrow> if accepts d (off - original_len) len then Some (d, off - original_len, len) else None
                  | None \<Rightarrow> None)))"

text \<open>\<open>None\<close> when a view is rejected: the source expects none to be.\<close>

fun traverse :: "('a \<Rightarrow> 'b option) \<Rightarrow> 'a list \<Rightarrow> 'b list option" where
  "traverse f [] = Some []"
| "traverse f (x # xs) =
     (case f x of None \<Rightarrow> None | Some y \<Rightarrow> (case traverse f xs of None \<Rightarrow> None | Some ys \<Rightarrow> Some (y # ys)))"

definition decoded_block :: "StreamingBuilder \<Rightarrow> bytes option" where
  "decoded_block b = (if decoded_buf b = [] then None else Some (decoded_buf b))"

definition string_view_array :: "view_check \<Rightarrow> StreamingBuilder \<Rightarrow> (u32 \<times> u32) option list \<Rightarrow> ArrowArray option" where
  "string_view_array accepts b rows =
     map_option StringViewArray
       (traverse (\<lambda>v. case v of None \<Rightarrow> Some None
                     | Some v \<Rightarrow> map_option Some (append_string_view accepts (input_buf b) (decoded_block b) v)) rows)"

text \<open>\<^verbatim>\<open>read_str\<close>: the bytes of a view, checked as UTF-8.\<close>

definition get_range :: "bytes \<Rightarrow> nat \<Rightarrow> nat \<Rightarrow> bytes option" where
  "get_range xs s e = (if s \<le> e \<and> e \<le> length xs then Some (subslice xs s e) else None)"

definition read_str :: "StreamingBuilder \<Rightarrow> bool \<Rightarrow> u32 \<times> u32 \<Rightarrow> bytes option" where
  "read_str b has_decoded v =
     (let start = unat (fst v); stop = start + unat (snd v); buf_len = length (input_buf b);
          bs = (if \<not> has_decoded \<or> start < buf_len then get_range (input_buf b) start stop
                else get_range (decoded_buf b) (start - buf_len) (stop - buf_len))
      in case bs of None \<Rightarrow> None | Some s \<Rightarrow> if valid_utf8 s then Some s else None)"

text \<open>
  The owned strings. \<open>room\<close> says whether a \<^verbatim>\<open>StringBuilder\<close> can hold that many bytes in all: its
  \<^verbatim>\<open>append_value\<close> panics when an offset leaves the range of the offset type.
\<close>

definition owned_strings :: "(nat \<Rightarrow> bool) \<Rightarrow> bytes option list \<Rightarrow> ArrowArray option" where
  "owned_strings room values =
     (if room (sum_list (map (\<lambda>v. case v of None \<Rightarrow> 0 | Some s \<Rightarrow> length s) values)) then Some (StringArray values)
      else None)"

definition string_array :: "(nat \<Rightarrow> bool) \<Rightarrow> StreamingBuilder \<Rightarrow> (u32 \<times> u32) option list \<Rightarrow> ArrowArray option" where
  "string_array room b rows =
     owned_strings room (map (\<lambda>v. Option.bind v (read_str b (decoded_buf b \<noteq> []))) rows)"

subsection \<open>The walk over the columns\<close>

type_synonym string_builder = "(u32 \<times> u32) option list \<Rightarrow> ArrowArray option"

definition typed_columns :: "nat \<Rightarrow> string_builder \<Rightarrow> DataType \<Rightarrow> FieldColumns \<Rightarrow> column list option" where
  "typed_columns n strings ty fc =
     (case (if has_str fc then map_option (\<lambda>a. [(bstr ''str'', ty, a)]) (strings (view_rows (row_range n) (str_views fc)))
            else Some []) of
        None \<Rightarrow> None
      | Some s \<Rightarrow>
          Some ((if has_int fc then [(bstr ''int'', Int64, int_array n fc)] else []) @
                (if has_float fc then [(bstr ''float'', Float64, float_array n fc)] else []) @ s @
                (if has_bool fc then [(bstr ''bool'', Boolean, bool_array n fc)] else [])))"

definition conflict :: "FieldColumns \<Rightarrow> bool" where
  "conflict fc \<longleftrightarrow> 1 < of_bool (has_int fc) + of_bool (has_float fc) + of_bool (has_str fc) + (of_bool (has_bool fc) :: nat)"

definition struct_column :: "nat \<Rightarrow> bytes \<Rightarrow> column list \<Rightarrow> column" where
  "struct_column n name children =
     (name, Struct (map (\<lambda>(nm, ty, _). (nm, ty)) children),
      StructArray children (map (\<lambda>i. list_ex (\<lambda>(_, _, a). \<not> array_is_null a i) children) [0..<n]))"

definition reserve_name :: "bytes \<Rightarrow> bytes list \<Rightarrow> finish_error + bytes list" where
  "reserve_name name names = (if name \<in> set names then Inl (DuplicateColumn name) else Inr (name # names))"

text \<open>
  The output columns of one field: a struct of its types when it has several, a flat column when
  it has one, nothing when it has none or when the captured line owns the name.
\<close>

definition finish_field ::
  "nat \<Rightarrow> string_builder \<Rightarrow> DataType \<Rightarrow> bytes option \<Rightarrow> FieldColumns \<Rightarrow> bytes list \<Rightarrow>
   finish_error + column list \<times> bytes list" where
  "finish_field n strings ty line_name fc names =
     (let name = from_utf8_lossy (fc_name fc)
      in if line_name = Some name then Inr ([], names)
         else if conflict fc then
           (case typed_columns n strings ty fc of
              None \<Rightarrow> Inl Panicked
            | Some children \<Rightarrow>
                (case reserve_name name names of
                   Inl e \<Rightarrow> Inl e
                 | Inr names \<Rightarrow> Inr ([struct_column n name children], names)))
         else if has_int fc \<or> has_float fc \<or> has_str fc \<or> has_bool fc then
           (case reserve_name name names of
              Inl e \<Rightarrow> Inl e
            | Inr names \<Rightarrow>
                (case typed_columns n strings ty fc of
                   None \<Rightarrow> Inl Panicked
                 | Some cols \<Rightarrow> Inr (map (\<lambda>(_, ty, a). (name, ty, a)) cols, names)))
         else Inr ([], names))"

fun finish_fields ::
  "nat \<Rightarrow> string_builder \<Rightarrow> DataType \<Rightarrow> bytes option \<Rightarrow> FieldColumns list \<Rightarrow> bytes list \<Rightarrow>
   finish_error + column list \<times> bytes list" where
  "finish_fields n strings ty line_name [] names = Inr ([], names)"
| "finish_fields n strings ty line_name (fc # fcs) names =
     (case finish_field n strings ty line_name fc names of
        Inl e \<Rightarrow> Inl e
      | Inr (cols, names) \<Rightarrow>
          (case finish_fields n strings ty line_name fcs names of
             Inl e \<Rightarrow> Inl e
           | Inr (rest, names) \<Rightarrow> Inr (cols @ rest, names)))"

text \<open>The captured lines and the constant resource attributes.\<close>

definition finish_lines :: "nat \<Rightarrow> string_builder \<Rightarrow> DataType \<Rightarrow> StreamingBuilder \<Rightarrow> finish_error + column list" where
  "finish_lines n strings ty b =
     (case line_column b of
        None \<Rightarrow> Inr []
      | Some name \<Rightarrow>
          if length (line_views b) \<noteq> n then Inl (LineCardinality (length (line_views b)) n)
          else (case strings (map Some (line_views b)) of
                  None \<Rightarrow> Inl Panicked
                | Some a \<Rightarrow> Inr [(name, ty, a)]))"

definition resource_col_name :: "bytes \<Rightarrow> bytes" where
  "resource_col_name key = bstr ''resource.attributes.'' @ key"

fun finish_attrs ::
  "nat \<Rightarrow> (nat \<Rightarrow> bytes \<Rightarrow> bytes \<Rightarrow> finish_error + ArrowArray) \<Rightarrow> DataType \<Rightarrow> (bytes \<times> bytes) list \<Rightarrow> bytes list \<Rightarrow>
   finish_error + column list" where
  "finish_attrs n constant ty [] names = Inr []"
| "finish_attrs n constant ty ((key, val) # attrs) names =
     (let name = resource_col_name key
      in case reserve_name name names of
           Inl e \<Rightarrow> Inl e
         | Inr names \<Rightarrow>
             (case constant n key val of
                Inl e \<Rightarrow> Inl e
              | Inr a \<Rightarrow>
                  (case finish_attrs n constant ty attrs names of
                     Inl e \<Rightarrow> Inl e
                   | Inr rest \<Rightarrow> Inr ((name, ty, a) # rest))))"

definition constant_view_array :: "view_check \<Rightarrow> nat \<Rightarrow> bytes \<Rightarrow> bytes \<Rightarrow> finish_error + ArrowArray" where
  "constant_view_array accepts n key val =
     (if n = 0 then Inr (StringViewArray [])
      else (case u32_try_from (length val) of
              None \<Rightarrow> Inl (AttributeTooLarge key)
            | Some len \<Rightarrow>
                if accepts val 0 len then Inr (StringViewArray (replicate n (Some (val, 0, len)))) else Inl Panicked))"

definition constant_array :: "(nat \<Rightarrow> bool) \<Rightarrow> nat \<Rightarrow> bytes \<Rightarrow> bytes \<Rightarrow> finish_error + ArrowArray" where
  "constant_array room n key val =
     (case owned_strings room (replicate n (Some val)) of None \<Rightarrow> Inl Panicked | Some a \<Rightarrow> Inr a)"

definition finish_columns ::
  "string_builder \<Rightarrow> (nat \<Rightarrow> bytes \<Rightarrow> bytes \<Rightarrow> finish_error + ArrowArray) \<Rightarrow> DataType \<Rightarrow> StreamingBuilder \<Rightarrow>
   finish_error + column list" where
  "finish_columns strings constant ty b =
     (let n = unat (rows_done b);
          reserved = (case line_column b of Some name \<Rightarrow> [name] | None \<Rightarrow> [])
      in if lc_state (lifecycle b) \<noteq> InBatch \<or> length (columns b) < num_active b then Inl Panicked
         else (case finish_fields n strings ty (line_column b) (take (num_active b) (columns b)) reserved of
                 Inl e \<Rightarrow> Inl e
               | Inr (cols, names) \<Rightarrow>
                   (case finish_lines n strings ty b of
                      Inl e \<Rightarrow> Inl e
                    | Inr lines \<Rightarrow>
                        (case finish_attrs n constant ty (resource_attrs b) names of
                           Inl e \<Rightarrow> Inl e
                         | Inr attrs \<Rightarrow> Inr (cols @ lines @ attrs)))))"

text \<open>
  \<open>try_new\<close> builds the batch from the columns and the row count. The builder goes back to idle
  once the columns are built; an error before that leaves it in the batch.
\<close>

definition close_batch ::
  "(column list \<Rightarrow> nat \<Rightarrow> 'rb option) \<Rightarrow> (finish_error + column list) \<Rightarrow> StreamingBuilder \<Rightarrow>
   (finish_error + 'rb) \<times> StreamingBuilder" where
  "close_batch try_new cols b =
     (case cols of
        Inl e \<Rightarrow> (Inl e, b)
      | Inr cols \<Rightarrow>
          (case lifecycle_finish_batch (lifecycle b) of
             None \<Rightarrow> (Inl Panicked, b)
           | Some lc \<Rightarrow>
               (case try_new cols (unat (rows_done b)) of None \<Rightarrow> Inl BatchRejected | Some rb \<Rightarrow> Inr rb,
                b\<lparr>lifecycle := lc\<rparr>)))"

definition finish_batch ::
  "view_check \<Rightarrow> (column list \<Rightarrow> nat \<Rightarrow> 'rb option) \<Rightarrow> StreamingBuilder \<Rightarrow> (finish_error + 'rb) \<times> StreamingBuilder" where
  "finish_batch accepts try_new b =
     (if lc_state (lifecycle b) = InBatch \<and> u32_try_from (length (input_buf b)) = None then (Inl BufferTooLarge, b)
      else close_batch try_new
        (finish_columns (string_view_array accepts b) (constant_view_array accepts) Utf8View b) b)"

definition finish_batch_detached ::
  "(nat \<Rightarrow> bool) \<Rightarrow> (column list \<Rightarrow> nat \<Rightarrow> 'rb option) \<Rightarrow> StreamingBuilder \<Rightarrow> (finish_error + 'rb) \<times> StreamingBuilder" where
  "finish_batch_detached room try_new b =
     close_batch try_new (finish_columns (string_array room b) (constant_array room) Utf8 b) b"

subsection \<open>The scanner\<close>

record Scanner =
  sc_builder :: StreamingBuilder
  sc_config :: ScanConfig
  sc_resource_attrs :: "(bytes \<times> bytes) list"

definition scanner_new :: "ScanConfig \<Rightarrow> Scanner" where
  "scanner_new config =
     \<lparr>sc_builder = streaming_new (line_field_name config), sc_config = config, sc_resource_attrs = []\<rparr>"

definition with_resource_attrs :: "ScanConfig \<Rightarrow> (bytes \<times> bytes) list \<Rightarrow> Scanner" where
  "with_resource_attrs config attrs =
     \<lparr>sc_builder = streaming_new (line_field_name config), sc_config = config, sc_resource_attrs = attrs\<rparr>"

text \<open>A panic leaves the scanner unusable: its builder is kept as it was.\<close>

definition scan_with ::
  "(StreamingBuilder \<Rightarrow> (finish_error + 'rb) \<times> StreamingBuilder) \<Rightarrow> scan_env \<Rightarrow> bytes \<Rightarrow> Scanner \<Rightarrow>
   (finish_error + 'rb) \<times> Scanner" where
  "scan_with finish env buf sc =
     (if validate_utf8 (sc_config sc) \<and> \<not> valid_utf8 buf then (Inl InvalidUtf8, sc)
      else (case map_option (set_resource_attributes (sc_resource_attrs sc)) (streaming_begin_batch buf (sc_builder sc)) of
              None \<Rightarrow> (Inl Panicked, sc)
            | Some b \<Rightarrow>
                (case scan_streaming env buf (sc_config sc) streaming_ops (Some b) of
                   None \<Rightarrow> (Inl Panicked, sc)
                 | Some b \<Rightarrow> (case finish b of (res, b) \<Rightarrow> (res, sc\<lparr>sc_builder := b\<rparr>)))))"

definition scan ::
  "view_check \<Rightarrow> (column list \<Rightarrow> nat \<Rightarrow> 'rb option) \<Rightarrow> scan_env \<Rightarrow> bytes \<Rightarrow> Scanner \<Rightarrow> (finish_error + 'rb) \<times> Scanner" where
  "scan accepts try_new = scan_with (finish_batch accepts try_new)"

definition scan_detached ::
  "(nat \<Rightarrow> bool) \<Rightarrow> (column list \<Rightarrow> nat \<Rightarrow> 'rb option) \<Rightarrow> scan_env \<Rightarrow> bytes \<Rightarrow> Scanner \<Rightarrow> (finish_error + 'rb) \<times> Scanner" where
  "scan_detached room try_new = scan_with (finish_batch_detached room try_new)"

subsection \<open>What the arrays hold\<close>

text \<open>The length of an array and the cell at a row; a struct holds the first of its children that is not null.\<close>

fun array_len :: "ArrowArray \<Rightarrow> nat" where
  "array_len (Int64Array values valid) = length values"
| "array_len (Float64Array values valid) = length values"
| "array_len (BooleanArray values valid) = length values"
| "array_len (StringViewArray views) = length views"
| "array_len (StringArray values) = length values"
| "array_len (StructArray children valid) = length valid"

fun is_struct :: "ArrowArray \<Rightarrow> bool" where
  "is_struct (StructArray children valid) = True"
| "is_struct _ = False"

fun flat_cell :: "ArrowArray \<Rightarrow> nat \<Rightarrow> Cell option" where
  "flat_cell (Int64Array values valid) i = (if valid ! i then Some (CInt (values ! i)) else None)"
| "flat_cell (Float64Array values valid) i = (if valid ! i then Some (CFloat (values ! i)) else None)"
| "flat_cell (BooleanArray values valid) i = (if valid ! i then Some (CBool (values ! i)) else None)"
| "flat_cell (StringViewArray views) i =
     map_option (\<lambda>(block, off, len). CStr (subslice block (unat off) (unat off + unat len))) (views ! i)"
| "flat_cell (StringArray values) i = map_option CStr (values ! i)"
| "flat_cell (StructArray children valid) i = None"

fun first_some :: "'a option list \<Rightarrow> 'a option" where
  "first_some [] = None"
| "first_some (Some x # xs) = Some x"
| "first_some (None # xs) = first_some xs"

definition child_cells :: "column list \<Rightarrow> nat \<Rightarrow> Cell option list" where
  "child_cells children i = map (\<lambda>(_, _, a). flat_cell a i) children"

fun array_cell :: "ArrowArray \<Rightarrow> nat \<Rightarrow> Cell option" where
  "array_cell (StructArray children valid) i = (if valid ! i then first_some (child_cells children i) else None)"
| "array_cell a i = flat_cell a i"

definition batch_cell :: "column list \<Rightarrow> nat \<Rightarrow> bytes \<Rightarrow> Cell option" where
  "batch_cell cols i name = (case map_of cols name of None \<Rightarrow> None | Some (_, a) \<Rightarrow> array_cell a i)"

lemma array_cell_flat: "\<not> is_struct a \<Longrightarrow> array_cell a i = flat_cell a i"
  by (cases a) simp_all

lemma first_some_append: "first_some (xs @ ys) = (case first_some xs of None \<Rightarrow> first_some ys | Some x \<Rightarrow> Some x)"
  by (induction xs rule: first_some.induct) simp_all

lemma first_some_None: "first_some xs = None \<longleftrightarrow> (\<forall>x\<in>set xs. x = None)"
  by (induction xs rule: first_some.induct) simp_all

lemma flat_cell_null: "\<not> is_struct a \<Longrightarrow> array_is_null a i \<longleftrightarrow> flat_cell a i = None"
  by (cases a) simp_all

text \<open>\<open>holds n f a\<close>: the flat array \<open>a\<close> has \<open>n\<close> rows with the cells \<open>f\<close>.\<close>

definition holds :: "nat \<Rightarrow> (nat \<Rightarrow> Cell option) \<Rightarrow> ArrowArray \<Rightarrow> bool" where
  "holds n f a \<longleftrightarrow> \<not> is_struct a \<and> array_len a = n \<and> (\<forall>i<n. flat_cell a i = f i)"

lemma of_nat_row: "i < n \<Longrightarrow> n < 2 ^ 32 \<Longrightarrow> of_nat i = row \<longleftrightarrow> unat row = i" for row :: u32
  using unat_of_nat_u32 [of i] by auto

lemma scatter_result:
  assumes "distinct (map fst xs)" and "length vs = n" and "length ok = n" and "n < 2 ^ 32"
  shows "\<exists>vs' ok'. scatter n xs (vs, ok) = (vs', ok') \<and> length vs' = n \<and> length ok' = n \<and>
    (\<forall>i<n. case map_of xs (of_nat i) of None \<Rightarrow> vs' ! i = vs ! i \<and> ok' ! i = ok ! i | Some v \<Rightarrow> vs' ! i = v \<and> ok' ! i)"
  using assms(1-3)
proof (induction xs arbitrary: vs ok)
  case (Cons x xs)
  obtain row v where x: "x = (row, v)" by fastforce
  have none: "map_of xs row = None" using Cons.prems x by (auto simp: map_of_eq_None_iff)
  show ?case
  proof (cases "n \<le> unat row")
    case True
    then have "of_nat i \<noteq> row" if "i < n" for i using of_nat_row [OF that assms(4)] that by auto
    with Cons.IH [of vs ok] Cons.prems True show ?thesis by (simp add: x)
  next
    case False
    with Cons.IH [of "vs[unat row := v]" "ok[unat row := True]"] Cons.prems obtain vs' ok'
      where r: "scatter n (x # xs) (vs, ok) = (vs', ok')" "length vs' = n" "length ok' = n"
        "\<forall>i<n. case map_of xs (of_nat i) of None \<Rightarrow> vs' ! i = vs[unat row := v] ! i \<and> ok' ! i = ok[unat row := True] ! i
          | Some v \<Rightarrow> vs' ! i = v \<and> ok' ! i"
      by (auto simp: x)
    have "case map_of (x # xs) (of_nat i) of None \<Rightarrow> vs' ! i = vs ! i \<and> ok' ! i = ok ! i | Some v \<Rightarrow> vs' ! i = v \<and> ok' ! i"
      if "i < n" for i
      using r(4) [rule_format, OF that] of_nat_row [OF that assms(4), of row] none Cons.prems(2,3) that
      by (cases "unat row = i") (auto simp: x split: option.splits)
    with r(1-3) show ?thesis by blast
  qed
qed simp

lemma int_array_holds:
  assumes "n < 2 ^ 32" and "distinct (map fst (int_values fc))"
  shows "holds n (\<lambda>i. map_option CInt (map_of (int_values fc) (of_nat i))) (int_array n fc)"
proof -
  obtain vs ok where r: "scatter n (int_values fc) (replicate n (0), replicate n False) = (vs, ok)" "length vs = n"
      "\<forall>i<n. case map_of (int_values fc) (of_nat i) of None \<Rightarrow> vs ! i = replicate n (0) ! i \<and> ok ! i = replicate n False ! i
        | Some v \<Rightarrow> vs ! i = v \<and> ok ! i"
    using scatter_result [OF assms(2) length_replicate length_replicate assms(1)] by metis
  have "flat_cell (Int64Array vs ok) i = map_option CInt (map_of (int_values fc) (of_nat i))" if "i < n" for i
    using r(3) [rule_format, OF that] that by (simp split: option.splits)
  with r(1,2) show ?thesis by (auto simp: holds_def int_array_def)
qed

lemma float_array_holds:
  assumes "n < 2 ^ 32" and "distinct (map fst (float_values fc))"
  shows "holds n (\<lambda>i. map_option CFloat (map_of (float_values fc) (of_nat i))) (float_array n fc)"
proof -
  obtain vs ok where r: "scatter n (float_values fc) (replicate n (Fin 0), replicate n False) = (vs, ok)" "length vs = n"
      "\<forall>i<n. case map_of (float_values fc) (of_nat i) of None \<Rightarrow> vs ! i = replicate n (Fin 0) ! i \<and> ok ! i = replicate n False ! i
        | Some v \<Rightarrow> vs ! i = v \<and> ok ! i"
    using scatter_result [OF assms(2) length_replicate length_replicate assms(1)] by metis
  have "flat_cell (Float64Array vs ok) i = map_option CFloat (map_of (float_values fc) (of_nat i))" if "i < n" for i
    using r(3) [rule_format, OF that] that by (simp split: option.splits)
  with r(1,2) show ?thesis by (auto simp: holds_def float_array_def)
qed

lemma bool_array_holds:
  assumes "n < 2 ^ 32" and "distinct (map fst (bool_values fc))"
  shows "holds n (\<lambda>i. map_option CBool (map_of (bool_values fc) (of_nat i))) (bool_array n fc)"
proof -
  obtain vs ok where r: "scatter n (bool_values fc) (replicate n (False), replicate n False) = (vs, ok)" "length vs = n"
      "\<forall>i<n. case map_of (bool_values fc) (of_nat i) of None \<Rightarrow> vs ! i = replicate n (False) ! i \<and> ok ! i = replicate n False ! i
        | Some v \<Rightarrow> vs ! i = v \<and> ok ! i"
    using scatter_result [OF assms(2) length_replicate length_replicate assms(1)] by metis
  have "flat_cell (BooleanArray vs ok) i = map_option CBool (map_of (bool_values fc) (of_nat i))" if "i < n" for i
    using r(3) [rule_format, OF that] that by (simp split: option.splits)
  with r(1,2) show ?thesis by (auto simp: holds_def bool_array_def)
qed

text \<open>The walk over the rows finds every view: the views are in row order.\<close>

lemma view_rows_map_of:
  assumes "sorted_wrt (<) rows" and "sorted_wrt (<) (map fst views)" and "fst ` set views \<subseteq> set rows"
  shows "view_rows rows views = map (map_of views) rows"
  using assms
proof (induction rows views rule: view_rows.induct)
  case (3 row rows r v views)
  show ?case
  proof (cases "r = row")
    case True
    then have "fst ` set views \<subseteq> set rows" "row \<notin> set rows" using 3(3-5) by force+
    moreover from this(2) have "map (map_of ((r, v) # views)) rows = map (map_of views) rows" using True by auto
    ultimately show ?thesis using 3 True by simp
  next
    case False
    then have sub: "fst ` set ((r, v) # views) \<subseteq> set rows" using 3(3-5) by force
    moreover have "row \<notin> fst ` set ((r, v) # views)" using sub 3(3) by force
    moreover from this have "map_of ((r, v) # views) row = None" by (simp only: map_of_eq_None_iff not_False_eq_True)
    ultimately show ?thesis using 3 False by simp
  qed
qed simp_all

lemma row_range_sorted: "n < 2 ^ 32 \<Longrightarrow> sorted_wrt (<) (row_range n)"
  by (auto simp: row_range_def sorted_wrt_iff_nth_less word_less_nat_alt unat_of_nat_u32)

lemma row_range_set: "n < 2 ^ 32 \<Longrightarrow> unat r < n \<Longrightarrow> r \<in> set (row_range n)"
  by (auto simp: row_range_def image_iff intro!: bexI [of _ "unat r"])

subsection \<open>The contract of the string columns\<close>

text \<open>
  The two ways to build string columns share a contract: views that lie in the buffers give an array
  with their bytes, and a constant gives that constant in every row. \<open>fits\<close> and \<open>const_fits\<close> say when
  Arrow has room for them.
\<close>

definition views_ok :: "StreamingBuilder \<Rightarrow> (u32 \<times> u32) option list \<Rightarrow> bool" where
  "views_ok b rows \<longleftrightarrow> (\<forall>v. Some v \<in> set rows \<longrightarrow> view_ok (input_buf b) (decoded_buf b) v)"

definition row_view :: "StreamingBuilder \<Rightarrow> (u32 \<times> u32) option \<Rightarrow> Cell option" where
  "row_view b = map_option (\<lambda>v. CStr (view_bytes (input_buf b) (decoded_buf b) v))"

lemma column_part:
  assumes "p \<Longrightarrow> holds n f a" and "\<not> p \<Longrightarrow> f i = None" and "i < n"
  shows "first_some (child_cells (if p then [(nm, ty, a)] else []) i) = f i"
  using assms by (cases "f i") (auto simp: child_cells_def holds_def)

lemma child_cells_append: "child_cells (xs @ ys) i = child_cells xs i @ child_cells ys i"
  by (simp add: child_cells_def)

lemma column_rows_distinct:
  assumes "column_ok inp dec row fc"
  shows "distinct (map fst (int_values fc))" "distinct (map fst (float_values fc))" "distinct (map fst (bool_values fc))"
    and "sorted_wrt (<) (map fst (str_views fc))"
  using assms by (simp_all add: column_ok_def column_rows_def strict_sorted_iff)

lemma column_view_rows:
  assumes "column_ok inp dec row fc" and "\<forall>r\<in>set (column_rows fc). unat r < n" and "n < 2 ^ 32"
  shows "view_rows (row_range n) (str_views fc) = map (map_of (str_views fc)) (row_range n)"
proof (rule view_rows_map_of [OF row_range_sorted [OF assms(3)] column_rows_distinct(4) [OF assms(1)]])
  show "fst ` set (str_views fc) \<subseteq> set (row_range n)"
    using assms(2) row_range_set [OF assms(3)] by (auto simp: column_rows_def)
qed

lemma column_cells_at:
  "map_of (column_cells inp dec fc) r =
     (case map_option CInt (map_of (int_values fc) r) of Some x \<Rightarrow> Some x
      | None \<Rightarrow> (case map_option CFloat (map_of (float_values fc) r) of Some x \<Rightarrow> Some x
      | None \<Rightarrow> (case map_option (\<lambda>v. CStr (view_bytes inp dec v)) (map_of (str_views fc) r) of Some x \<Rightarrow> Some x
      | None \<Rightarrow> map_option CBool (map_of (bool_values fc) r))))"
  by (simp add: column_cells_def map_of_map map_add_def split: option.splits)

text \<open>A column whose rows are all finished, whether it gives an output column, and that the output has its cells.\<close>

definition column_ready :: "StreamingBuilder \<Rightarrow> nat \<Rightarrow> FieldColumns \<Rightarrow> bool" where
  "column_ready b n fc \<longleftrightarrow>
     column_ok (input_buf b) (decoded_buf b) (rows_done b) fc \<and> (\<forall>r\<in>set (column_rows fc). unat r < n) \<and>
     valid_utf8 (fc_name fc)"

definition live :: "bytes option \<Rightarrow> FieldColumns \<Rightarrow> bool" where
  "live line_name fc \<longleftrightarrow> column_rows fc \<noteq> [] \<and> line_name \<noteq> Some (fc_name fc)"

definition column_holds :: "StreamingBuilder \<Rightarrow> nat \<Rightarrow> FieldColumns \<Rightarrow> ArrowArray \<Rightarrow> bool" where
  "column_holds b n fc a \<longleftrightarrow>
     array_len a = n \<and> (\<forall>i<n. array_cell a i = map_of (column_cells (input_buf b) (decoded_buf b) fc) (of_nat i))"

lemma column_holds_len: "column_holds b n fc a \<Longrightarrow> array_len a = n"
  by (simp add: column_holds_def)

definition type_count :: "FieldColumns \<Rightarrow> nat" where
  "type_count fc = of_bool (has_int fc) + of_bool (has_float fc) + of_bool (has_str fc) + of_bool (has_bool fc)"

lemma type_count_flags:
  "conflict fc \<longleftrightarrow> 1 < type_count fc"
  "has_int fc \<or> has_float fc \<or> has_str fc \<or> has_bool fc \<longleftrightarrow> 0 < type_count fc"
  by (auto simp: conflict_def type_count_def)

lemma column_ready_types: "column_ready b n fc \<Longrightarrow> column_rows fc = [] \<longleftrightarrow> type_count fc = 0"
  by (auto simp: column_ready_def column_ok_def column_rows_def type_count_def)

lemma struct_column_holds:
  assumes "\<forall>(nm, ty, a)\<in>set cols. \<not> is_struct a \<and> array_len a = n"
    and "\<forall>i<n. first_some (child_cells cols i) = map_of (column_cells (input_buf b) (decoded_buf b) fc) (of_nat i)"
  shows "\<exists>ty a. struct_column n name cols = (name, ty, a) \<and> column_holds b n fc a"
proof -
  have "list_ex (\<lambda>(_, _, a). \<not> array_is_null a i) cols \<longleftrightarrow> first_some (child_cells cols i) \<noteq> None" for i
    using assms(1) by (induction cols) (auto simp: first_some_None child_cells_def flat_cell_null)
  with assms(2) show ?thesis by (auto simp: struct_column_def column_holds_def)
qed

locale string_columns =
  fixes strings :: "StreamingBuilder \<Rightarrow> string_builder"
    and const_col :: "nat \<Rightarrow> bytes \<Rightarrow> bytes \<Rightarrow> finish_error + ArrowArray"
    and fits :: "StreamingBuilder \<Rightarrow> (u32 \<times> u32) option list \<Rightarrow> bool"
    and const_fits :: "nat \<Rightarrow> bytes \<Rightarrow> bool"
  assumes strings_hold:
      "fits b rows \<Longrightarrow> views_ok b rows \<Longrightarrow>
       \<exists>a. strings b rows = Some a \<and> holds (length rows) (\<lambda>i. row_view b (rows ! i)) a"
    and constant_holds:
      "const_fits n val \<Longrightarrow> \<exists>a. const_col n key val = Inr a \<and> holds n (\<lambda>i. Some (CStr val)) a"
begin

lemma typed_columns_hold:
  assumes ready: "column_ready b n fc" and n: "n < 2 ^ 32" and fits: "fits b (map (map_of (str_views fc)) (row_range n))"
  shows "\<exists>cols. typed_columns n (strings b) ty fc = Some cols \<and>
    length cols = type_count fc \<and>
    (\<forall>(nm, ty, a)\<in>set cols. \<not> is_struct a \<and> array_len a = n) \<and>
    (\<forall>i<n. first_some (child_cells cols i) = map_of (column_cells (input_buf b) (decoded_buf b) fc) (of_nat i))"
proof -
  have ok: "column_ok (input_buf b) (decoded_buf b) (rows_done b) fc" and rows: "\<forall>r\<in>set (column_rows fc). unat r < n"
    using ready by (simp_all add: column_ready_def)
  let ?rows = "map (map_of (str_views fc)) (row_range n)"
  have "view_ok (input_buf b) (decoded_buf b) v" if "Some v \<in> set ?rows" for v
    using that ok by (auto simp: column_ok_def list_all_iff dest!: map_of_SomeD [OF sym])
  with strings_hold [OF fits] obtain s where s: "strings b ?rows = Some s" "holds (length ?rows) (\<lambda>i. row_view b (?rows ! i)) s"
    by (auto simp: views_ok_def)
  have str: "holds n (\<lambda>i. row_view b (map_of (str_views fc) (of_nat i))) s"
    using s(2) by (simp add: row_range_def holds_def)
  note distinct = column_rows_distinct [OF ok]
  let ?cols = "(if has_int fc then [(bstr ''int'', Int64, int_array n fc)] else []) @
    (if has_float fc then [(bstr ''float'', Float64, float_array n fc)] else []) @
    (if has_str fc then [(bstr ''str'', ty, s)] else []) @
    (if has_bool fc then [(bstr ''bool'', Boolean, bool_array n fc)] else [])"
  have "typed_columns n (strings b) ty fc = Some ?cols"
    using s(1) by (simp add: typed_columns_def column_view_rows [OF ok rows n])
  moreover have "\<forall>(nm, ty, a)\<in>set ?cols. \<not> is_struct a \<and> array_len a = n"
    using str int_array_holds [OF n distinct(1)] float_array_holds [OF n distinct(2)] bool_array_holds [OF n distinct(3)]
    by (auto simp: holds_def)
  moreover have "first_some (child_cells ?cols i) = map_of (column_cells (input_buf b) (decoded_buf b) fc) (of_nat i)"
    if i: "i < n" for i
  proof -
    have flags: "\<not> has_int fc \<Longrightarrow> int_values fc = []" "\<not> has_float fc \<Longrightarrow> float_values fc = []"
        "\<not> has_str fc \<Longrightarrow> str_views fc = []" "\<not> has_bool fc \<Longrightarrow> bool_values fc = []"
      using ok by (simp_all add: column_ok_def)
    have "first_some (child_cells (if has_int fc then [(bstr ''int'', Int64, int_array n fc)] else []) i) =
        map_option CInt (map_of (int_values fc) (of_nat i))"
      by (rule column_part [OF int_array_holds [OF n distinct(1)] _ i]) (simp add: flags)
    moreover have "first_some (child_cells (if has_float fc then [(bstr ''float'', Float64, float_array n fc)] else []) i) =
        map_option CFloat (map_of (float_values fc) (of_nat i))"
      by (rule column_part [OF float_array_holds [OF n distinct(2)] _ i]) (simp add: flags)
    moreover have "first_some (child_cells (if has_str fc then [(bstr ''str'', ty, s)] else []) i) =
        row_view b (map_of (str_views fc) (of_nat i))"
      by (rule column_part [OF str _ i]) (simp add: flags row_view_def)
    moreover have "first_some (child_cells (if has_bool fc then [(bstr ''bool'', Boolean, bool_array n fc)] else []) i) =
        map_option CBool (map_of (bool_values fc) (of_nat i))"
      by (rule column_part [OF bool_array_holds [OF n distinct(3)] _ i]) (simp add: flags)
    ultimately show ?thesis by (simp only: child_cells_append first_some_append column_cells_at row_view_def option.case_eq_if)
  qed
  ultimately show ?thesis by (intro exI [of _ ?cols]) (simp add: type_count_def)
qed

lemma finish_field_holds:
  assumes ready: "column_ready b n fc" "n < 2 ^ 32" and fits: "fits b (map (map_of (str_views fc)) (row_range n))"
    and new: "live line_name fc \<Longrightarrow> fc_name fc \<notin> set names"
  shows "\<exists>cols. finish_field n (strings b) ty line_name fc names =
      Inr (cols, if live line_name fc then fc_name fc # names else names) \<and>
    (if live line_name fc then \<exists>ty a. cols = [(fc_name fc, ty, a)] \<and> column_holds b n fc a else cols = [])"
proof -
  have name: "from_utf8_lossy (fc_name fc) = fc_name fc" using ready(1) by (simp add: column_ready_def from_utf8_lossy_valid)
  note empty = column_ready_types [OF ready(1)]
  obtain cols where cols: "typed_columns n (strings b) ty fc = Some cols" "length cols = type_count fc"
      "\<forall>(nm, ty, a)\<in>set cols. \<not> is_struct a \<and> array_len a = n"
      "\<forall>i<n. first_some (child_cells cols i) = map_of (column_cells (input_buf b) (decoded_buf b) fc) (of_nat i)"
    using typed_columns_hold [OF ready fits] by blast
  consider "line_name = Some (fc_name fc) \<or> type_count fc = 0" | "line_name \<noteq> Some (fc_name fc)" "1 < type_count fc"
    | "line_name \<noteq> Some (fc_name fc)" "type_count fc = 1"
    by linarith
  then show ?thesis
  proof cases
    case 1
    then show ?thesis by (auto simp: finish_field_def Let_def name live_def empty type_count_flags)
  next
    case 2
    with struct_column_holds [OF cols(3,4)] new show ?thesis
      by (auto simp: finish_field_def Let_def name live_def empty type_count_flags cols(1) reserve_name_def)
  next
    case 3
    then obtain nm ty' a where a: "cols = [(nm, ty', a)]" using cols(2) by (auto simp: length_Suc_conv)
    have "array_cell a i = first_some [flat_cell a i]" for i
      using a cols(3) by (cases "flat_cell a i") (auto simp: array_cell_flat)
    then have "column_holds b n fc a" using cols(3,4) a by (auto simp: column_holds_def child_cells_def)
    with 3 new a show ?thesis
      by (auto simp: finish_field_def Let_def name live_def empty type_count_flags cols(1) reserve_name_def)
  qed
qed

lemma finish_fields_hold:
  assumes "\<forall>fc\<in>set fcs. column_ready b n fc \<and> fits b (map (map_of (str_views fc)) (row_range n))" and n: "n < 2 ^ 32"
    and "distinct (map fc_name fcs)" and "\<forall>fc\<in>set fcs. live line_name fc \<longrightarrow> fc_name fc \<notin> set names"
  shows "\<exists>cols. finish_fields n (strings b) ty line_name fcs names =
      Inr (cols, rev (map fst cols) @ names) \<and>
    map fst cols = map fc_name (filter (live line_name) fcs) \<and>
    (\<forall>fc\<in>set fcs. live line_name fc \<longrightarrow> (\<exists>col\<in>set cols. fst col = fc_name fc \<and> column_holds b n fc (snd (snd col)))) \<and>
    (\<forall>(nm, ty, a)\<in>set cols. array_len a = n)"
  using assms(1,3,4)
proof (induction fcs arbitrary: names)
  case (Cons fc fcs)
  let ?names = "if live line_name fc then fc_name fc # names else names"
  obtain c where c: "finish_field n (strings b) ty line_name fc names = Inr (c, ?names)"
      "if live line_name fc then \<exists>ty a. c = [(fc_name fc, ty, a)] \<and> column_holds b n fc a else c = []"
    using finish_field_holds [of b n fc line_name names ty] Cons.prems n by fastforce
  have "\<forall>fc'\<in>set fcs. live line_name fc' \<longrightarrow> fc_name fc' \<notin> set ?names"
    using Cons.prems(2,3) by (auto simp: image_iff)
  with Cons.IH [of ?names] Cons.prems(1,2) obtain cols where
      "finish_fields n (strings b) ty line_name fcs ?names = Inr (cols, rev (map fst cols) @ ?names)"
      "map fst cols = map fc_name (filter (live line_name) fcs)"
      "\<forall>fc\<in>set fcs. live line_name fc \<longrightarrow> (\<exists>col\<in>set cols. fst col = fc_name fc \<and> column_holds b n fc (snd (snd col)))"
      "\<forall>(nm, ty, a)\<in>set cols. array_len a = n"
    by auto
  with c show ?case by (cases "live line_name fc") (auto dest: column_holds_len)
qed simp

lemma finish_lines_hold:
  assumes "line_column b \<noteq> None \<Longrightarrow> length (line_views b) = n \<and> fits b (map Some (line_views b))"
    and "list_all (view_ok (input_buf b) (decoded_buf b)) (line_views b)"
  shows "\<exists>cols. finish_lines n (strings b) ty b = Inr cols \<and> map fst cols = (case line_column b of None \<Rightarrow> [] | Some x \<Rightarrow> [x]) \<and>
    (\<forall>col\<in>set cols. array_len (snd (snd col)) = n \<and>
      (\<forall>i<n. array_cell (snd (snd col)) i = Some (CStr (view_bytes (input_buf b) (decoded_buf b) (line_views b ! i)))))"
proof (cases "line_column b")
  case None
  then show ?thesis by (simp add: finish_lines_def)
next
  case (Some name)
  have "views_ok b (map Some (line_views b))" using assms(2) by (auto simp: views_ok_def list_all_iff)
  with strings_hold assms(1) Some obtain a where
      "strings b (map Some (line_views b)) = Some a" "holds n (\<lambda>i. row_view b (map Some (line_views b) ! i)) a"
    by fastforce
  with assms(1) Some show ?thesis by (simp add: finish_lines_def holds_def array_cell_flat row_view_def)
qed

lemma finish_attrs_hold:
  assumes "\<And>attr. attr \<in> set attrs \<Longrightarrow> const_fits n (snd attr) \<and> resource_col_name (fst attr) \<notin> set names"
    and "distinct (map fst attrs)"
  shows "\<exists>cols. finish_attrs n const_col ty attrs names = Inr cols \<and> map fst cols = map (resource_col_name \<circ> fst) attrs \<and>
    list_all2 (\<lambda>attr col. array_len (snd (snd col)) = n \<and>
      (\<forall>i<n. array_cell (snd (snd col)) i = Some (CStr (snd attr)))) attrs cols"
  using assms
proof (induction attrs arbitrary: names)
  case (Cons attr attrs)
  obtain key val where attr: "attr = (key, val)" by fastforce
  obtain a where a: "const_col n key val = Inr a" "holds n (\<lambda>i. Some (CStr val)) a"
    using constant_holds [of n val key] Cons.prems(1) [of attr] attr by auto
  have new: "const_fits n (snd x) \<and> resource_col_name (fst x) \<notin> set (resource_col_name key # names)" if "x \<in> set attrs" for x
    using Cons.prems(1) [of x] Cons.prems(2) that attr by (auto simp: resource_col_name_def)
  obtain cols where
      cols: "finish_attrs n const_col ty attrs (resource_col_name key # names) = Inr cols"
      "map fst cols = map (resource_col_name \<circ> fst) attrs"
      "list_all2 (\<lambda>attr col. array_len (snd (snd col)) = n \<and>
        (\<forall>i<n. array_cell (snd (snd col)) i = Some (CStr (snd attr)))) attrs cols"
    using Cons.IH [OF new] Cons.prems(2) by auto
  have "finish_attrs n const_col ty (attr # attrs) names = Inr ((resource_col_name key, ty, a) # cols)"
    using Cons.prems(1) [of attr] a(1) cols(1) by (simp add: attr Let_def reserve_name_def)
  with a(2) cols(2,3) attr show ?case by (auto simp: holds_def array_cell_flat)
qed simp

end

subsection \<open>The columns of a batch\<close>

text \<open>
  The row of the output batch: the captured line, the resource attributes and the cells. Resource
  columns must not collide with each other, the line column or a field.
\<close>

definition batch_row ::
  "bytes option \<Rightarrow> (bytes \<times> bytes) list \<Rightarrow> (bytes \<Rightarrow> Cell option) list \<Rightarrow> bytes list \<Rightarrow> nat \<Rightarrow> bytes \<Rightarrow> Cell option" where
  "batch_row line_name attrs rows lines i k =
     (if line_name = Some k then Some (CStr (lines ! i))
      else (case map_of (map (\<lambda>a. (resource_col_name (fst a), snd a)) attrs) k of
              Some v \<Rightarrow> Some (CStr v)
            | None \<Rightarrow> (rows ! i) k))"

definition no_collision :: "bytes option \<Rightarrow> (bytes \<times> bytes) list \<Rightarrow> (bytes \<Rightarrow> Cell option) list \<Rightarrow> bool" where
  "no_collision line_name attrs rows \<longleftrightarrow>
     distinct (map fst attrs) \<and>
     list_all (\<lambda>a. line_name \<noteq> Some (resource_col_name (fst a)) \<and>
       list_all (\<lambda>row. row (resource_col_name (fst a)) = None) rows) attrs"

definition active_columns :: "StreamingBuilder \<Rightarrow> FieldColumns list" where
  "active_columns b = take (num_active b) (columns b)"

lemma active_column:
  assumes inv: "builder_inv b" and st: "lc_state (lifecycle b) = InBatch" and fc: "fc \<in> set (active_columns b)"
  shows "column_ready b (unat (rows_done b)) fc"
    and "cell_at b r (fc_name fc) = map_of (column_cells (input_buf b) (decoded_buf b) fc) r"
proof -
  note D = builder_invD [OF inv]
  obtain i where i: "i < num_active b" "fc = columns b ! i"
    using fc D(1) by (auto simp: active_columns_def in_set_conv_nth)
  have "rows_done b \<notin> set (column_rows fc)" using D(4) [OF i(1)] st i(2) by (auto simp: in_row_def)
  moreover have "r \<le> rows_done b" if "r \<in> set (column_rows fc)" for r using D(3) [OF i(1)] i(2) that by (simp add: column_ok_def)
  ultimately have "unat r < unat (rows_done b)" if "r \<in> set (column_rows fc)" for r
    using that by (metis order_le_less word_less_nat_alt)
  with D(3,9) [OF i(1)] i(2) show "column_ready b (unat (rows_done b)) fc" by (simp add: column_ready_def)
  have "field_index b (fc_name fc) = Some i" using D(2) i by simp
  then show "cell_at b r (fc_name fc) = map_of (column_cells (input_buf b) (decoded_buf b) fc) r"
    by (simp add: cell_at_def i(2))
qed

lemma active_names_distinct: "builder_inv b \<Longrightarrow> distinct (map fc_name (active_columns b))"
  using builder_invD(1,2) [of b] by (auto simp: active_columns_def distinct_conv_nth) (metis option.inject)

lemma cell_at_active:
  assumes "builder_inv b" and "cell_at b r k \<noteq> None"
  shows "\<exists>fc\<in>set (active_columns b). fc_name fc = k \<and> column_rows fc \<noteq> []"
proof -
  obtain i where i: "field_index b k = Some i" "map_of (column_cells (input_buf b) (decoded_buf b) (columns b ! i)) r \<noteq> None"
    using assms(2) by (auto simp: cell_at_def split: option.splits)
  then have "column_rows (columns b ! i) \<noteq> []" using column_cells_rows by (metis list.simps(8) map_is_Nil_conv map_of.simps(1))
  moreover have k: "i < num_active b" "fc_name (columns b ! i) = k" using builder_invD(2) [OF assms(1), of k i] i(1) by simp_all
  moreover have "columns b ! i \<in> set (active_columns b)"
    using k(1) builder_invD(1) [OF assms(1)] nth_mem [of i "take (num_active b) (columns b)"] by (simp add: active_columns_def)
  ultimately show ?thesis by blast
qed

text \<open>A live column has a cell in some row.\<close>

lemma live_cell:
  assumes inv: "builder_inv b" "lc_state (lifecycle b) = InBatch" and fc: "fc \<in> set (active_columns b)" "column_rows fc \<noteq> []"
  shows "\<exists>row\<in>set (v_rows (streaming_view b)). row (fc_name fc) \<noteq> None"
proof -
  obtain r where r: "r \<in> set (column_rows fc)" using fc(2) by (meson list.set_sel(1))
  have "map_of (column_cells (input_buf b) (decoded_buf b) fc) r \<noteq> None"
    using r by (metis column_cells_rows map_of_eq_None_iff set_map)
  moreover have "unat r < unat (rows_done b)" using active_column(1) [OF inv fc(1)] r by (simp add: column_ready_def)
  ultimately show ?thesis using active_column(2) [OF inv fc(1), of r]
    by (auto simp: streaming_view_def intro!: bexI [of _ "unat r"])
qed

lemma batch_cell_unique:
  "distinct (map fst cols) \<Longrightarrow> col \<in> set cols \<Longrightarrow> batch_cell cols i (fst col) = array_cell (snd (snd col)) i"
  by (cases col) (simp add: batch_cell_def)

lemma batch_cell_absent: "k \<notin> fst ` set cols \<Longrightarrow> batch_cell cols i k = None"
  by (simp add: batch_cell_def map_of_eq_None_iff [THEN iffD2])

lemma attr_name_free:
  assumes inv: "builder_inv b" "lc_state (lifecycle b) = InBatch"
    and no: "no_collision (line_column b) (resource_attrs b) (v_rows (streaming_view b))" and attr: "attr \<in> set (resource_attrs b)"
  shows "resource_col_name (fst attr) \<notin> set (map fc_name (filter (live (line_column b)) (active_columns b)))"
    and "line_column b \<noteq> Some (resource_col_name (fst attr))"
proof -
  have "\<forall>row\<in>set (v_rows (streaming_view b)). row (resource_col_name (fst attr)) = None"
    using no attr by (auto simp: no_collision_def list_all_iff)
  then show "resource_col_name (fst attr) \<notin> set (map fc_name (filter (live (line_column b)) (active_columns b)))"
    using live_cell [OF inv] by (fastforce simp: live_def)
  show "line_column b \<noteq> Some (resource_col_name (fst attr))" using no attr by (auto simp: no_collision_def list_all_iff)
qed

text \<open>The three groups of columns together have the cells of the rows.\<close>

definition line_names :: "StreamingBuilder \<Rightarrow> bytes list" where
  "line_names b = (case line_column b of Some name \<Rightarrow> [name] | None \<Rightarrow> [])"

definition groups_hold :: "StreamingBuilder \<Rightarrow> nat \<Rightarrow> column list \<Rightarrow> column list \<Rightarrow> column list \<Rightarrow> bool" where
  "groups_hold b n fs ls ats \<longleftrightarrow>
     map fst fs = map fc_name (filter (live (line_column b)) (active_columns b)) \<and>
     (\<forall>fc\<in>set (active_columns b). live (line_column b) fc \<longrightarrow>
        (\<exists>col\<in>set fs. fst col = fc_name fc \<and> column_holds b n fc (snd (snd col)))) \<and>
     map fst ls = line_names b \<and>
     (\<forall>col\<in>set ls. \<forall>i<n. array_cell (snd (snd col)) i = Some (CStr (view_bytes (input_buf b) (decoded_buf b) (line_views b ! i)))) \<and>
     map fst ats = map (resource_col_name \<circ> fst) (resource_attrs b) \<and>
     list_all2 (\<lambda>attr col. \<forall>i<n. array_cell (snd (snd col)) i = Some (CStr (snd attr))) (resource_attrs b) ats"

lemma groups_distinct:
  assumes inv: "builder_inv b" "lc_state (lifecycle b) = InBatch" and groups: "groups_hold b n fs ls ats"
    and no: "no_collision (line_column b) (resource_attrs b) (v_rows (streaming_view b))"
  shows "distinct (map fst (fs @ ls @ ats))"
proof -
  have names: "map fst fs = map fc_name (filter (live (line_column b)) (active_columns b))" "map fst ls = line_names b"
      "map fst ats = map (resource_col_name \<circ> fst) (resource_attrs b)"
    using groups by (simp_all add: groups_hold_def)
  have "distinct (map fst fs)" using active_names_distinct [OF inv(1)] unfolding names(1) by (rule distinct_map_filter)
  moreover have "distinct (map fst ls)" unfolding names(2) by (simp add: line_names_def split: option.splits)
  moreover have "distinct (map fst ats)"
    using no unfolding names(3) by (auto simp: no_collision_def distinct_map inj_on_def resource_col_name_def)
  moreover have "set (map fst fs) \<inter> set (map fst ls) = {}"
    unfolding names(1,2) by (auto simp: line_names_def live_def split: option.splits)
  moreover have "x \<notin> set (map fst fs)" "x \<notin> set (map fst ls)" if x_in: "x \<in> set (map fst ats)" for x
  proof -
    obtain attr where x: "attr \<in> set (resource_attrs b)" "x = resource_col_name (fst attr)"
      using x_in unfolding names(3) set_map comp_def by blast
    show "x \<notin> set (map fst fs)" unfolding names(1) x(2) by (rule attr_name_free(1) [OF inv no x(1)])
    show "x \<notin> set (map fst ls)"
      using attr_name_free(2) [OF inv no x(1)] unfolding names(2) x(2) line_names_def by (cases "line_column b") simp_all
  qed
  ultimately show ?thesis by (simp only: map_append distinct_append set_append disjoint_iff Un_iff) blast
qed

lemma groups_cell:
  assumes inv: "builder_inv b" "lc_state (lifecycle b) = InBatch" and groups: "groups_hold b n fs ls ats"
    and no: "no_collision (line_column b) (resource_attrs b) (v_rows (streaming_view b))"
    and n: "n = unat (rows_done b)" "i < n" and lines: "line_column b \<noteq> None \<Longrightarrow> length (line_views b) = n"
  shows "batch_cell (fs @ ls @ ats) i k =
    batch_row (line_column b) (resource_attrs b) (v_rows (streaming_view b)) (v_lines (streaming_view b)) i k"
proof -
  let ?cols = "fs @ ls @ ats" and ?attrs = "map (\<lambda>a. (resource_col_name (fst a), snd a)) (resource_attrs b)"
  note cell = batch_cell_unique [OF groups_distinct [OF inv groups no]]
  consider "line_column b = Some k" | v where "line_column b \<noteq> Some k" "map_of ?attrs k = Some v"
    | "line_column b \<noteq> Some k" "map_of ?attrs k = None"
    by fastforce
  then show ?thesis
  proof cases
    case 1
    then obtain col where "col \<in> set ls" "fst col = k" using groups by (auto simp: groups_hold_def line_names_def)
    with cell [of col i] groups lines 1 n(2) show ?thesis by (auto simp: groups_hold_def batch_row_def streaming_view_def)
  next
    case 2
    then obtain j where j: "j < length (resource_attrs b)" "resource_col_name (fst (resource_attrs b ! j)) = k"
        "snd (resource_attrs b ! j) = v"
      by (auto dest!: map_of_SomeD simp: in_set_conv_nth)
    have len: "length ats = length (resource_attrs b)" using groups by (auto simp: groups_hold_def dest: list_all2_lengthD)
    have "fst (ats ! j) = k" using groups j len by (metis (no_types, lifting) comp_apply groups_hold_def nth_map)
    moreover have "ats ! j \<in> set ?cols" using j len by simp
    moreover have "array_cell (snd (snd (ats ! j))) i = Some (CStr v)"
      using groups j n(2) by (auto simp: groups_hold_def list_all2_conv_all_nth)
    ultimately show ?thesis using cell [of "ats ! j" i] 2 by (simp add: batch_row_def)
  next
    case 3
    have row: "batch_row (line_column b) (resource_attrs b) (v_rows (streaming_view b)) (v_lines (streaming_view b)) i k =
        cell_at b (of_nat i) k"
      using 3 n by (simp add: batch_row_def streaming_view_def)
    show ?thesis
    proof (cases "\<exists>fc\<in>set (active_columns b). fc_name fc = k \<and> column_rows fc \<noteq> []")
      case True
      then obtain fc where fc: "fc \<in> set (active_columns b)" "fc_name fc = k" "live (line_column b) fc" using 3 by (auto simp: live_def)
      then obtain col where "col \<in> set fs" "fst col = k" "column_holds b n fc (snd (snd col))"
        using groups by (auto simp: groups_hold_def)
      with cell [of col i] active_column(2) [OF inv fc(1)] fc(2) row n show ?thesis by (auto simp: column_holds_def)
    next
      case False
      have "fst ` set ?cols = set (map fst fs) \<union> set (map fst ls) \<union> set (map fst ats)" by (simp add: image_Un Un_assoc)
      also have "\<dots> = set (map fc_name (filter (live (line_column b)) (active_columns b))) \<union> set (line_names b) \<union> fst ` set ?attrs"
        using groups by (simp only: groups_hold_def set_map image_image comp_def fst_conv)
      finally have "k \<notin> fst ` set ?cols"
        using False 3 by (auto simp: live_def line_names_def map_of_eq_None_iff split: option.splits)
      moreover have "cell_at b (of_nat i) k = None" using False cell_at_active [OF inv(1)] by blast
      ultimately show ?thesis using batch_cell_absent row by simp
    qed
  qed
qed

context string_columns
begin

lemma finish_columns_hold:
  assumes inv: "builder_inv b" "lc_state (lifecycle b) = InBatch" and n: "n = unat (rows_done b)"
    and fits: "\<And>fc. fc \<in> set (active_columns b) \<Longrightarrow> fits b (map (map_of (str_views fc)) (row_range n))"
    and lines: "line_column b \<noteq> None \<Longrightarrow> length (line_views b) = n \<and> fits b (map Some (line_views b))"
    and cfits: "\<And>attr. attr \<in> set (resource_attrs b) \<Longrightarrow> const_fits n (snd attr)"
    and no: "no_collision (line_column b) (resource_attrs b) (v_rows (streaming_view b))"
  shows "\<exists>cols. finish_columns (strings b) const_col ty b = Inr cols \<and> distinct (map fst cols) \<and>
    list_all (\<lambda>col. array_len (snd (snd col)) = n) cols \<and>
    (\<forall>i<n. batch_cell cols i = batch_row (line_column b) (resource_attrs b) (v_rows (streaming_view b)) (v_lines (streaming_view b)) i)"
proof -
  have n32: "n < 2 ^ 32" using unsigned_less [of "rows_done b"] n by simp
  have "live (line_column b) fc \<Longrightarrow> fc_name fc \<notin> set (line_names b)" for fc by (auto simp: live_def line_names_def split: option.splits)
  with finish_fields_hold [of "active_columns b" b n "line_column b" "line_names b" ty] active_column(1) [OF inv]
    active_names_distinct [OF inv(1)] fits n n32
  obtain fs where fs: "finish_fields n (strings b) ty (line_column b) (active_columns b) (line_names b) = Inr (fs, rev (map fst fs) @ line_names b)"
      "map fst fs = map fc_name (filter (live (line_column b)) (active_columns b))"
      "\<forall>fc\<in>set (active_columns b). live (line_column b) fc \<longrightarrow>
        (\<exists>col\<in>set fs. fst col = fc_name fc \<and> column_holds b n fc (snd (snd col)))"
      "\<forall>(nm, ty, a)\<in>set fs. array_len a = n"
    by blast
  obtain ls where ls: "finish_lines n (strings b) ty b = Inr ls" "map fst ls = line_names b"
      "\<forall>col\<in>set ls. array_len (snd (snd col)) = n \<and>
        (\<forall>i<n. array_cell (snd (snd col)) i = Some (CStr (view_bytes (input_buf b) (decoded_buf b) (line_views b ! i))))"
    using finish_lines_hold [where ty = ty, OF lines builder_invD(8) [OF inv(1)]] by (auto simp: line_names_def)
  have "resource_col_name (fst attr) \<notin> set (rev (map fst fs) @ line_names b)" if "attr \<in> set (resource_attrs b)" for attr
    using attr_name_free [OF inv no that] fs(2) by (auto simp: line_names_def split: option.splits)
  with finish_attrs_hold [of "resource_attrs b" n "rev (map fst fs) @ line_names b" ty] cfits no
  obtain ats where ats: "finish_attrs n const_col ty (resource_attrs b) (rev (map fst fs) @ line_names b) = Inr ats"
      "map fst ats = map (resource_col_name \<circ> fst) (resource_attrs b)"
      "list_all2 (\<lambda>attr col. array_len (snd (snd col)) = n \<and>
        (\<forall>i<n. array_cell (snd (snd col)) i = Some (CStr (snd attr)))) (resource_attrs b) ats"
    by (auto simp: no_collision_def)
  have groups: "groups_hold b n fs ls ats"
    using fs ls ats unfolding groups_hold_def by (auto elim: list_all2_mono)
  have lens: "\<forall>col\<in>set ats. array_len (snd (snd col)) = n"
    using ats(3) by (induction rule: list_all2_induct) auto
  have "list_all (\<lambda>col. array_len (snd (snd col)) = n) (fs @ ls @ ats)"
    using fs(4) ls(3) lens by (simp add: list_all_iff case_prod_beta ball_Un)
  moreover have "finish_columns (strings b) const_col ty b = Inr (fs @ ls @ ats)"
    using fs(1) ls(1) ats(1) inv(2) builder_invD(1) [OF inv(1)] n
    by (simp add: finish_columns_def Let_def active_columns_def line_names_def)
  ultimately show ?thesis
    using groups_distinct [OF inv groups no] groups_cell [OF inv groups no n] lines by (fastforce simp: fun_eq_iff)
qed

end

subsection \<open>Both kinds of string columns meet the contract\<close>

text \<open>
  What is documented of \<^verbatim>\<open>StringViewBuilder::try_append_view\<close>: a view inside its block whose bytes are
  UTF-8 is accepted.
\<close>

definition views_accepted :: "view_check \<Rightarrow> bool" where
  "views_accepted accepts \<longleftrightarrow>
     (\<forall>block off len. unat off + unat len \<le> length block \<and> valid_utf8 (subslice block (unat off) (unat off + unat len)) \<longrightarrow>
        accepts block off len)"

lemma view_ok_cases:
  assumes "view_ok inp dec v"
  obtains "unat (fst v) + unat (snd v) \<le> length inp" "view_bytes inp dec v = subslice inp (unat (fst v)) (unat (fst v) + unat (snd v))"
  | "length inp \<le> unat (fst v)" "unat (fst v) - length inp + unat (snd v) \<le> length dec"
    "view_bytes inp dec v = subslice dec (unat (fst v) - length inp) (unat (fst v) - length inp + unat (snd v))"
proof (cases "unat (fst v) + unat (snd v) \<le> length inp")
  case True
  with that(1) show thesis by (simp add: view_bytes_def slice_append_left)
next
  case False
  with assms have "length inp \<le> unat (fst v)" "unat (fst v) - length inp + unat (snd v) \<le> length dec" by (auto simp: view_ok_def)
  with that(2) show thesis by (simp add: view_bytes_def subslice_def)
qed

lemma append_string_view_ok:
  assumes v: "view_ok inp dec v" and len: "length inp < 2 ^ 32" and acc: "views_accepted accepts"
  shows "\<exists>block off len. append_string_view accepts inp (if dec = [] then None else Some dec) v = Some (block, off, len) \<and>
    subslice block (unat off) (unat off + unat len) = view_bytes inp dec v"
proof -
  obtain off n where vn: "v = (off, n)" by fastforce
  have utf8: "valid_utf8 (view_bytes inp dec v)" using v by (simp add: view_ok_def)
  have less: "off < of_nat (length inp) \<longleftrightarrow> unat off < length inp" using len by (simp add: word_less_nat_alt unat_of_nat_u32)
  have eq: "off = of_nat (length inp) \<longleftrightarrow> unat off = length inp" using len by (simp add: word_unat_eq_iff unat_of_nat_u32)
  from v show ?thesis
  proof (cases rule: view_ok_cases)
    case 1
    then have "accepts inp off n" using acc utf8 vn by (simp add: views_accepted_def)
    moreover have "off < of_nat (length inp) \<or> n = 0 \<and> off = of_nat (length inp)"
      using 1(1) vn less eq by (auto simp: unat_eq_0)
    ultimately show ?thesis using 1(2) vn by (simp add: append_string_view_def)
  next
    case 2
    show ?thesis
    proof (cases "n = 0 \<and> off = of_nat (length inp)")
      case True
      then have "accepts inp off n" using acc eq by (simp add: views_accepted_def subslice_def)
      with True 2 vn eq show ?thesis by (simp add: append_string_view_def subslice_def)
    next
      case False
      then have "dec \<noteq> []" using 2(1,2) vn eq by (auto simp: unat_eq_0)
      have sub: "unat (off - of_nat (length inp)) = unat off - length inp"
        using 2(1) vn len by (simp add: unat_sub word_le_nat_alt unat_of_nat_u32)
      have "accepts dec (off - of_nat (length inp)) n" using acc 2 utf8 vn by (simp add: views_accepted_def sub)
      with False \<open>dec \<noteq> []\<close> 2 vn less sub show ?thesis by (auto simp: append_string_view_def)
    qed
  qed
qed

lemma read_str_ok:
  assumes "view_ok (input_buf b) (decoded_buf b) v"
  shows "read_str b (decoded_buf b \<noteq> []) v = Some (view_bytes (input_buf b) (decoded_buf b) v)"
    and "length (view_bytes (input_buf b) (decoded_buf b) v) = unat (snd v)"
  using assms
  by (auto simp: read_str_def Let_def get_range_def view_ok_def view_bytes_def subslice_def elim!: view_ok_cases)

lemma traverse_ok:
  assumes "\<And>x. x \<in> set xs \<Longrightarrow> \<exists>y. f x = Some y \<and> P x y"
  shows "\<exists>ys. traverse f xs = Some ys \<and> list_all2 P xs ys"
  using assms
proof (induction xs)
  case (Cons x xs)
  from Cons.IH Cons.prems obtain ys where "traverse f xs = Some ys" "list_all2 P xs ys" by auto
  moreover obtain y where "f x = Some y" "P x y" using Cons.prems [of x] by auto
  ultimately show ?case by simp
qed simp

lemma views_okD: "views_ok b rows \<Longrightarrow> Some v \<in> set rows \<Longrightarrow> view_ok (input_buf b) (decoded_buf b) v"
  by (cases v) (simp add: views_ok_def)

interpretation views: string_columns "string_view_array accepts" "constant_view_array accepts"
    "\<lambda>b rows. views_accepted accepts \<and> length (input_buf b) < 2 ^ 32"
    "\<lambda>n val. views_accepted accepts \<and> valid_utf8 val \<and> length val < 2 ^ 32"
  for accepts :: view_check
proof
  fix b rows
  assume fits: "views_accepted accepts \<and> length (input_buf b) < 2 ^ 32" and ok: "views_ok b rows"
  let ?f = "\<lambda>v. case v of None \<Rightarrow> Some None
    | Some v \<Rightarrow> map_option Some (append_string_view accepts (input_buf b) (decoded_block b) v)"
  have "\<exists>y. ?f v = Some y \<and> map_option (\<lambda>(block, off, len). CStr (subslice block (unat off) (unat off + unat len))) y = row_view b v"
    if "v \<in> set rows" for v
  proof (cases v)
    case (Some w)
    then have "view_ok (input_buf b) (decoded_buf b) w" using ok that views_okD by blast
    from append_string_view_ok [OF this] fits Some show ?thesis by (fastforce simp: decoded_block_def row_view_def)
  qed (simp add: row_view_def)
  from traverse_ok [of rows ?f, OF this] obtain ys where ys: "traverse ?f rows = Some ys"
      "list_all2 (\<lambda>v y. map_option (\<lambda>(block, off, len). CStr (subslice block (unat off) (unat off + unat len))) y = row_view b v) rows ys"
    by blast
  then show "\<exists>a. string_view_array accepts b rows = Some a \<and> holds (length rows) (\<lambda>i. row_view b (rows ! i)) a"
    by (auto simp: string_view_array_def holds_def list_all2_conv_all_nth)
next
  fix n val key
  assume "views_accepted accepts \<and> valid_utf8 val \<and> length val < 2 ^ 32"
  then have "accepts val 0 (of_nat (length val))" "unat (of_nat (length val) :: u32) = length val" "length val < 2 ^ 32"
    by (auto simp: views_accepted_def unat_of_nat_u32 slice_simps)
  then show "\<exists>a. constant_view_array accepts n key val = Inr a \<and> holds n (\<lambda>i. Some (CStr val)) a"
    by (auto simp: constant_view_array_def u32_try_from_def holds_def slice_simps)
qed

definition view_total :: "(u32 \<times> u32) option list \<Rightarrow> nat" where
  "view_total rows = sum_list (map (\<lambda>v. case v of None \<Rightarrow> 0 | Some v \<Rightarrow> unat (snd v)) rows)"

interpretation owned: string_columns "string_array room" "constant_array room"
    "\<lambda>b rows. room (view_total rows)" "\<lambda>n val. room (n * length val)"
  for room :: "nat \<Rightarrow> bool"
proof
  fix b rows
  assume fits: "room (view_total rows)" and ok: "views_ok b rows"
  let ?rows = "map (\<lambda>v. Option.bind v (read_str b (decoded_buf b \<noteq> []))) rows"
  have "map (\<lambda>v. case v of None \<Rightarrow> 0 | Some s \<Rightarrow> length s) ?rows = map (\<lambda>v. case v of None \<Rightarrow> 0 | Some v \<Rightarrow> unat (snd v)) rows"
    using read_str_ok [OF views_okD [OF ok]] by (auto split: option.splits)
  then have "string_array room b rows = Some (StringArray ?rows)"
    using fits by (simp only: string_array_def owned_strings_def view_total_def if_True)
  moreover have "map_option CStr (Option.bind v (read_str b (decoded_buf b \<noteq> []))) = row_view b v" if "v \<in> set rows" for v
    using read_str_ok(1) [OF views_okD [OF ok]] that by (cases v) (simp_all add: row_view_def)
  ultimately show "\<exists>a. string_array room b rows = Some a \<and> holds (length rows) (\<lambda>i. row_view b (rows ! i)) a"
    by (auto simp: holds_def)
next
  fix n and val key :: bytes
  assume "room (n * length val)"
  then show "\<exists>a. constant_array room n key val = Inr a \<and> holds n (\<lambda>i. Some (CStr val)) a"
    by (simp add: constant_array_def owned_strings_def sum_list_replicate holds_def)
qed

subsection \<open>Scanning a buffer into a batch\<close>

text \<open>A scanner between two batches.\<close>

definition scanner_ready :: "Scanner \<Rightarrow> bool" where
  "scanner_ready sc \<longleftrightarrow>
     builder_inv (sc_builder sc) \<and> lc_state (lifecycle (sc_builder sc)) \<noteq> InRow \<and>
     line_column (sc_builder sc) = line_field_name (sc_config sc)"

lemma scanner_ready_new: "scanner_ready (scanner_new config)" "scanner_ready (with_resource_attrs config attrs)"
  using builder_inv_new
  by (simp_all add: scanner_ready_def scanner_new_def with_resource_attrs_def streaming_new_def lifecycle_new_def)

definition scanned :: "scan_env \<Rightarrow> bytes \<Rightarrow> Scanner \<Rightarrow> StreamingBuilder \<Rightarrow> bool" where
  "scanned env buf sc b \<longleftrightarrow>
     builder_inv b \<and> lc_state (lifecycle b) = InBatch \<and> input_buf b = buf \<and>
     line_column b = line_field_name (sc_config sc) \<and> resource_attrs b = sc_resource_attrs sc \<and>
     (case scan_phase1 (env_simd env) buf of (blocks, ranges) \<Rightarrow>
        v_rows (streaming_view b) = scan_rows env buf (sc_config sc) blocks ranges \<and>
        v_lines (streaming_view b) = scan_captured env buf (sc_config sc) blocks ranges)"

lemma set_attrs_view:
  "builder_inv (b\<lparr>resource_attrs := attrs\<rparr>) \<longleftrightarrow> builder_inv b"
  "streaming_view (b\<lparr>resource_attrs := attrs\<rparr>) = streaming_view b"
proof -
  let ?b = "b\<lparr>resource_attrs := attrs\<rparr>"
  have basic: "rows_done ?b = rows_done b" "in_row ?b = in_row b" "written ?b = written b"
    by (simp_all add: rows_done_def in_row_def written_def fun_eq_iff)
  show "builder_inv ?b \<longleftrightarrow> builder_inv b" by (simp add: builder_inv_def basic)
  have "cell_at ?b = cell_at b" by (rule cell_at_cong) simp_all
  moreover from this have "open_row ?b = open_row b"
    by (simp add: open_row_def fun_eq_iff basic cong: option.case_cong if_cong)
  ultimately show "streaming_view ?b = streaming_view b"
    by (simp add: streaming_view_def basic cong: if_cong)
qed

lemma scan_with_result:
  assumes "wide_crate (env_simd env)" and "valid_utf8 buf" and "2 * length buf < 2 ^ 32" and "scanner_ready sc"
  shows "\<exists>b. scanned env buf sc b \<and>
    scan_with finish env buf sc = (case finish b of (res, b') \<Rightarrow> (res, sc\<lparr>sc_builder := b'\<rparr>))"
proof -
  let ?attrs = "sc_resource_attrs sc" and ?line = "line_field_name (sc_config sc)"
  obtain blocks ranges where phase: "scan_phase1 (env_simd env) buf = (blocks, ranges)" by fastforce
  obtain b1 where b1: "streaming_begin_batch buf (sc_builder sc) = Some b1" "builder_inv b1" "lc_state (lifecycle b1) = InBatch"
      "input_buf b1 = buf" "decoded_buf b1 = []" "line_column b1 = ?line" "rows_done b1 = 0" "streaming_view b1 = empty_view"
    using begin_batch_result [of "sc_builder sc" buf] assms(3,4) by (auto simp: scanner_ready_def)
  let ?b = "b1\<lparr>resource_attrs := ?attrs\<rparr>"
  have ok: "streaming_ok buf (?line, ?attrs) InBatch (length buf) (length buf) (Some ?b)"
    using b1 assms(3) by (auto simp: streaming_ok_def set_attrs_view rows_done_def)
  obtain b where b: "scan_streaming env buf (sc_config sc) streaming_ops (Some ?b) = Some b"
      "streaming_ok buf (?line, ?attrs) InBatch 0 0 (Some b)"
      "v_rows (streaming_view b) = scan_rows env buf (sc_config sc) blocks ranges"
      "v_lines (streaming_view b) = scan_captured env buf (sc_config sc) blocks ranges"
    using scan_streaming_result [OF assms(1,2) phase ok] b1(8) by (auto simp: captures_line_def set_attrs_view)
  have "scanned env buf sc b" using b(2-4) phase by (auto simp: scanned_def streaming_ok_def)
  moreover have "scan_with finish env buf sc = (case finish b of (res, b') \<Rightarrow> (res, sc\<lparr>sc_builder := b'\<rparr>))"
    using assms(2) b1(1) b(1) by (simp add: scan_with_def set_resource_attributes_def)
  ultimately show ?thesis by blast
qed

lemma close_batch_result:
  assumes "builder_inv b" and "lc_state (lifecycle b) = InBatch"
  shows "\<exists>b'. close_batch try_new (Inr cols) b =
      (case try_new cols (unat (rows_done b)) of None \<Rightarrow> Inl BatchRejected | Some rb \<Rightarrow> Inr rb, b') \<and>
    builder_inv b' \<and> lc_state (lifecycle b') = Idle \<and> line_column b' = line_column b"
proof -
  let ?b = "b\<lparr>lifecycle := (lifecycle b)\<lparr>lc_state := Idle\<rparr>\<rparr>"
  have "rows_done ?b = rows_done b" "in_row ?b = in_row b" "written ?b = written b"
    using assms(2) by (simp_all add: rows_done_def in_row_def written_def fun_eq_iff)
  with assms(1) have "builder_inv ?b" by (simp add: builder_inv_def)
  with assms(2) show ?thesis by (simp add: close_batch_def lifecycle_finish_batch_def)
qed

lemma scanned_counts:
  assumes "scanned env buf sc b" and "scan_phase1 (env_simd env) buf = (blocks, ranges)"
  shows "unat (rows_done b) = length (scan_rows env buf (sc_config sc) blocks ranges)"
    and "line_column b \<noteq> None \<Longrightarrow> length (line_views b) = unat (rows_done b)"
proof -
  have rows: "length (v_rows (streaming_view b)) = unat (rows_done b)" "length (v_lines (streaming_view b)) = length (line_views b)"
    by (simp_all add: streaming_view_def)
  show n: "unat (rows_done b) = length (scan_rows env buf (sc_config sc) blocks ranges)"
    using rows(1) assms by (simp add: scanned_def)
  show "length (line_views b) = unat (rows_done b)" if "line_column b \<noteq> None"
    using rows(2) n assms that by (simp add: scanned_def scan_captured_def scan_rows_def captures_line_def)
qed

text \<open>The columns hand over the rows and lines, with distinct names and one entry per row in every array.\<close>

definition batch_delivers :: "Scanner \<Rightarrow> (bytes \<Rightarrow> Cell option) list \<Rightarrow> bytes list \<Rightarrow> column list \<Rightarrow> bool" where
  "batch_delivers sc rows lines cols \<longleftrightarrow>
     distinct (map fst cols) \<and> list_all (\<lambda>col. array_len (snd (snd col)) = length rows) cols \<and>
     (\<forall>i<length rows. batch_cell cols i = batch_row (line_field_name (sc_config sc)) (sc_resource_attrs sc) rows lines i)"

context string_columns
begin

lemma finish_scanned:
  assumes sc: "scanned env buf sc b" and phase: "scan_phase1 (env_simd env) buf = (blocks, ranges)"
    and rows: "rows = scan_rows env buf (sc_config sc) blocks ranges" and lines: "lines = scan_captured env buf (sc_config sc) blocks ranges"
    and no: "no_collision (line_field_name (sc_config sc)) (sc_resource_attrs sc) rows"
    and fits: "\<And>fc. fc \<in> set (active_columns b) \<Longrightarrow> fits b (map (map_of (str_views fc)) (row_range (length rows)))"
    and lfits: "line_column b \<noteq> None \<Longrightarrow> fits b (map Some (line_views b))"
    and cfits: "\<And>attr. attr \<in> set (sc_resource_attrs sc) \<Longrightarrow> const_fits (length rows) (snd attr)"
  shows "\<exists>cols b'. close_batch try_new (finish_columns (strings b) const_col ty b) b =
      (case try_new cols (length rows) of None \<Rightarrow> Inl BatchRejected | Some rb \<Rightarrow> Inr rb, b') \<and>
    batch_delivers sc rows lines cols \<and> scanner_ready (sc\<lparr>sc_builder := b'\<rparr>)"
proof -
  note count = scanned_counts [OF sc phase, folded rows]
  have b: "builder_inv b" "lc_state (lifecycle b) = InBatch" "line_column b = line_field_name (sc_config sc)"
      "resource_attrs b = sc_resource_attrs sc" "v_rows (streaming_view b) = rows" "v_lines (streaming_view b) = lines"
    using sc phase rows lines by (simp_all add: scanned_def)
  obtain cols where cols: "finish_columns (strings b) const_col ty b = Inr cols" "batch_delivers sc rows lines cols"
    using finish_columns_hold [OF b(1,2) count(1) [symmetric], of ty] fits lfits cfits count no b(3-6) by (auto simp: batch_delivers_def)
  from close_batch_result [OF b(1,2), of try_new cols] obtain b' where
      "close_batch try_new (Inr cols) b = (case try_new cols (length rows) of None \<Rightarrow> Inl BatchRejected | Some rb \<Rightarrow> Inr rb, b')"
      "builder_inv b'" "lc_state (lifecycle b') = Idle" "line_column b' = line_column b"
    using count(1) by auto
  with cols b(3) show ?thesis by (auto simp: scanner_ready_def)
qed

lemma scan_with_holds:
  assumes "wide_crate (env_simd env)" and "valid_utf8 buf" and "2 * length buf < 2 ^ 32" and "scanner_ready sc"
    and phase: "scan_phase1 (env_simd env) buf = (blocks, ranges)"
    and rows: "rows = scan_rows env buf (sc_config sc) blocks ranges" and lines: "lines = scan_captured env buf (sc_config sc) blocks ranges"
    and no: "no_collision (line_field_name (sc_config sc)) (sc_resource_attrs sc) rows"
    and finish: "\<And>b. scanned env buf sc b \<Longrightarrow> finish b = close_batch try_new (finish_columns (strings b) const_col ty b) b"
    and fits: "\<And>b fc. scanned env buf sc b \<Longrightarrow> fc \<in> set (active_columns b) \<Longrightarrow>
      fits b (map (map_of (str_views fc)) (row_range (length rows)))"
    and lfits: "\<And>b. scanned env buf sc b \<Longrightarrow> line_column b \<noteq> None \<Longrightarrow> fits b (map Some (line_views b))"
    and cfits: "\<And>attr. attr \<in> set (sc_resource_attrs sc) \<Longrightarrow> const_fits (length rows) (snd attr)"
  shows "\<exists>cols sc'. scan_with finish env buf sc =
      (case try_new cols (length rows) of None \<Rightarrow> Inl BatchRejected | Some rb \<Rightarrow> Inr rb, sc') \<and>
    batch_delivers sc rows lines cols \<and> scanner_ready sc'"
proof -
  obtain b where b: "scanned env buf sc b"
      "scan_with finish env buf sc = (case finish b of (res, b') \<Rightarrow> (res, sc\<lparr>sc_builder := b'\<rparr>))"
    using scan_with_result [OF assms(1-4), of finish] by blast
  from finish_scanned [OF b(1) phase rows lines no fits [OF b(1)] lfits [OF b(1)] cfits, of try_new ty]
  show ?thesis unfolding b(2) finish [OF b(1)] by auto
qed

end

text \<open>A scanner that captures the lines, one with a resource attribute, and a view check that is exact.\<close>

definition line_scanner :: Scanner where
  "line_scanner = scanner_new (scan_config_default\<lparr>line_field_name := Some (bstr ''body'')\<rparr>)"

definition attr_scanner :: Scanner where
  "attr_scanner =
     with_resource_attrs (scan_config_default\<lparr>line_field_name := Some (bstr ''body'')\<rparr>) [(bstr ''svc'', bstr ''api'')]"

definition accepts_inside :: view_check where
  "accepts_inside block off len \<longleftrightarrow>
     unat off + unat len \<le> length block \<and> valid_utf8 (subslice block (unat off) (unat off + unat len))"

lemma accepts_inside_ok: "views_accepted accepts_inside"
  by (simp add: views_accepted_def accepts_inside_def)

lemma unfiltered_rows:
  assumes "wide_crate (env_simd env)" and "row_predicate config = None" and "scan_phase1 (env_simd env) buf = (blocks, ranges)"
  shows "length (scan_rows env buf config blocks ranges) = length (ndjson_lines buf)"
    and "captures_line config \<Longrightarrow> scan_captured env buf config blocks ranges = ndjson_lines buf"
proof -
  note lines = scan_phase1_correct(2) [OF assms(1,3), symmetric]
  show "length (scan_rows env buf config blocks ranges) = length (ndjson_lines buf)"
    by (simp add: lines scan_rows_def line_passes_def assms(2) case_prod_beta)
  show "scan_captured env buf config blocks ranges = ndjson_lines buf" if "captures_line config"
    using that by (simp add: lines scan_captured_def line_passes_def assms(2) case_prod_beta)
qed

lemma no_object_rows:
  assumes wide: "wide_crate (env_simd env)" and "LBRACE \<notin> set buf" and "valid_utf8 buf"
    and phase: "scan_phase1 (env_simd env) buf = (blocks, ranges)" and row: "row \<in> set (scan_rows env buf config blocks ranges)"
  shows "row = (\<lambda>_. None)"
proof -
  obtain s e where se: "(s, e) \<in> set ranges" "row = row_of (env_memchr env) buf (emitted config (object_fields (env_memchr env) buf s e blocks))"
    using row by (auto simp: scan_rows_def)
  have "e \<le> length buf" using scan_phase1_ranges(2) [OF wide phase assms(3) se(1)] by (simp add: char_cut_def)
  then have "buf ! p \<noteq> LBRACE" if "p < e" for p using assms(2) that by (metis nth_mem order_less_le_trans)
  then have "e \<le> skip_whitespace buf s e \<or> buf ! skip_whitespace buf s e \<noteq> LBRACE" by (meson not_le)
  then have "object_fields (env_memchr env) buf s e blocks = []" by (auto simp: object_fields_def Let_def)
  with se(2) show ?thesis by (simp add: row_of_def row_cells_def emitted_def fun_eq_iff)
qed

lemma scan_views_hold:
  assumes "wide_crate (env_simd env)" and "valid_utf8 buf" and "2 * length buf < 2 ^ 32" and "scanner_ready sc"
    and "scan_phase1 (env_simd env) buf = (blocks, ranges)"
    and "rows = scan_rows env buf (sc_config sc) blocks ranges" and "lines = scan_captured env buf (sc_config sc) blocks ranges"
    and "no_collision (line_field_name (sc_config sc)) (sc_resource_attrs sc) rows"
    and "views_accepted accepts" and "list_all (\<lambda>attr. valid_utf8 (snd attr) \<and> length (snd attr) < 2 ^ 32) (sc_resource_attrs sc)"
  shows "\<exists>cols sc'. scan accepts try_new env buf sc =
      (case try_new cols (length rows) of None \<Rightarrow> Inl BatchRejected | Some rb \<Rightarrow> Inr rb, sc') \<and>
    batch_delivers sc rows lines cols \<and> scanner_ready sc'"
  unfolding scan_def
  by (rule views.scan_with_holds [OF assms(1-8)])
    (use assms(3,9,10) in \<open>auto simp: finish_batch_def u32_try_from_def scanned_def list_all_iff\<close>)

text \<open>
  Property C2. Scanning a valid UTF-8 buffer of less than 2 GiB with \<^verbatim>\<open>Scanner::scan\<close> hands Arrow columns
  with distinct names and one entry per row, whose cells are exactly those of the scanned rows, the captured lines and
  the constant resource attributes, provided that no resource column has the name of a field or of the line column. The
  result is what Arrow makes of these columns, and the scanner is ready for the next buffer whether Arrow accepts them or
  not.
\<close>

theorem scan_builds_batch:
  assumes "wide_crate (env_simd env)" and "valid_utf8 buf" and "2 * length buf < 2 ^ 32" and "scanner_ready sc"
    and "scan_phase1 (env_simd env) buf = (blocks, ranges)"
    and "rows = scan_rows env buf (sc_config sc) blocks ranges" and "lines = scan_captured env buf (sc_config sc) blocks ranges"
    and "no_collision (line_field_name (sc_config sc)) (sc_resource_attrs sc) rows"
    and "views_accepted accepts" and "list_all (\<lambda>attr. valid_utf8 (snd attr) \<and> length (snd attr) < 2 ^ 32) (sc_resource_attrs sc)"
  shows "\<exists>cols sc'. scan accepts try_new env buf sc =
      (case try_new cols (length rows) of None \<Rightarrow> Inl BatchRejected | Some rb \<Rightarrow> Inr rb, sc') \<and>
    batch_delivers sc rows lines cols \<and> scanner_ready sc'"
  using scan_views_hold [OF assms] .

theorem scan_builds_batch_witness:
  "\<exists>cols sc'. scan accepts_inside (\<lambda>cols n. Some (cols, n)) reference_env (bstr ''{\"a\":1}'' @ [NL] @ bstr ''[2]'') line_scanner =
      (Inr (cols, 2), sc') \<and> batch_cell cols 0 (bstr ''body'') = Some (CStr (bstr ''{\"a\":1}'')) \<and> scanner_ready sc'"
proof -
  let ?buf = "bstr ''{\"a\":1}'' @ [NL] @ bstr ''[2]''" and ?cfg = "sc_config line_scanner"
  obtain blocks ranges where phase: "scan_phase1 (env_simd reference_env) ?buf = (blocks, ranges)" by fastforce
  have utf8: "valid_utf8 ?buf" by code_simp
  have len: "2 * length ?buf < 2 ^ 32" by (simp add: bstr_def)
  have cfg: "row_predicate ?cfg = None" "captures_line ?cfg" "line_field_name ?cfg = Some (bstr ''body'')" "sc_resource_attrs line_scanner = []"
    by (simp_all add: line_scanner_def scanner_new_def scan_config_default_def captures_line_def)
  have ready: "scanner_ready line_scanner" by (simp add: line_scanner_def scanner_ready_new)
  have lines: "ndjson_lines ?buf = [bstr ''{\"a\":1}'', bstr ''[2]'']" by code_simp
  note rows = unfiltered_rows [OF reference_env_wide cfg(1) phase]
  show ?thesis
    using scan_builds_batch [OF reference_env_wide utf8 len ready phase refl refl _ accepts_inside_ok, of "\<lambda>cols n. Some (cols, n)"] rows cfg lines
    by (auto simp: no_collision_def batch_delivers_def batch_row_def)
qed

text \<open>The bytes of the strings of a field over all rows.\<close>

fun cell_bytes :: "Cell option \<Rightarrow> nat" where
  "cell_bytes (Some (CStr s)) = length s"
| "cell_bytes _ = 0"

definition string_total :: "(bytes \<Rightarrow> Cell option) list \<Rightarrow> bytes \<Rightarrow> nat" where
  "string_total rows k = sum_list (map (\<lambda>row. cell_bytes (row k)) rows)"

lemma column_view_bytes:
  assumes "column_ok inp dec row fc"
  shows "cell_bytes (map_of (column_cells inp dec fc) r) = (case map_of (str_views fc) r of None \<Rightarrow> 0 | Some v \<Rightarrow> unat (snd v))"
proof (cases "map_of (str_views fc) r")
  case None
  then show ?thesis
    by (cases "map_of (int_values fc) r"; cases "map_of (float_values fc) r"; cases "map_of (bool_values fc) r")
      (simp_all add: column_cells_at)
next
  case (Some v)
  then have v: "(r, v) \<in> set (str_views fc)" by (rule map_of_SomeD)
  then have "r \<in> fst ` set (str_views fc)" by force
  moreover have "fst ` set (int_values fc) \<inter> fst ` set (str_views fc) = {}" "fst ` set (float_values fc) \<inter> fst ` set (str_views fc) = {}"
    using assms by (auto simp: column_ok_def column_rows_def)
  ultimately have "map_of (int_values fc) r = None" "map_of (float_values fc) r = None"
    unfolding map_of_eq_None_iff by blast+
  moreover have "view_ok inp dec v" using assms v by (auto simp: column_ok_def list_all_iff)
  then have "length (view_bytes inp dec v) = unat (snd v)" by (auto simp: view_ok_def view_bytes_def)
  ultimately show ?thesis using Some by (simp add: column_cells_at)
qed

lemma column_string_total:
  assumes inv: "builder_inv b" "lc_state (lifecycle b) = InBatch" and fc: "fc \<in> set (active_columns b)"
  shows "view_total (map (map_of (str_views fc)) (row_range (unat (rows_done b)))) = string_total (v_rows (streaming_view b)) (fc_name fc)"
proof -
  have "column_ok (input_buf b) (decoded_buf b) (rows_done b) fc" using active_column(1) [OF assms] by (simp add: column_ready_def)
  from column_view_bytes [OF this] show ?thesis
    by (simp add: view_total_def string_total_def streaming_view_def row_range_def active_column(2) [OF assms] comp_def)
qed

lemma line_string_total:
  assumes "builder_inv b"
  shows "view_total (map Some (line_views b)) = sum_list (map length (v_lines (streaming_view b)))"
proof -
  have "length (view_bytes (input_buf b) (decoded_buf b) v) = unat (snd v)" if "v \<in> set (line_views b)" for v
    using builder_invD(8) [OF assms] that by (auto simp: list_all_iff view_ok_def view_bytes_def)
  then show ?thesis by (auto simp: view_total_def streaming_view_def comp_def intro!: arg_cong [of _ _ sum_list])
qed

text \<open>
  Property C3. \<^verbatim>\<open>Scanner::scan_detached\<close>, which copies the strings instead of keeping views of the buffer, hands
  Arrow columns with the same cells as \<^verbatim>\<open>Scanner::scan\<close> on the same buffer, whenever Arrow has room for the bytes
  of every string column.
\<close>

theorem scan_detached_same_cells:
  assumes "wide_crate (env_simd env)" and "valid_utf8 buf" and "2 * length buf < 2 ^ 32" and "scanner_ready sc"
    and "scan_phase1 (env_simd env) buf = (blocks, ranges)"
    and "rows = scan_rows env buf (sc_config sc) blocks ranges" and "lines = scan_captured env buf (sc_config sc) blocks ranges"
    and "no_collision (line_field_name (sc_config sc)) (sc_resource_attrs sc) rows"
    and "views_accepted accepts" and "list_all (\<lambda>attr. valid_utf8 (snd attr) \<and> length (snd attr) < 2 ^ 32) (sc_resource_attrs sc)"
    and room: "\<And>k. room (string_total rows k)" "room (sum_list (map length lines))"
      "list_all (\<lambda>attr. room (length rows * length (snd attr))) (sc_resource_attrs sc)"
  shows "\<exists>cols cols' sc1 sc2.
    scan accepts try_new env buf sc = (case try_new cols (length rows) of None \<Rightarrow> Inl BatchRejected | Some rb \<Rightarrow> Inr rb, sc1) \<and>
    scan_detached room try_new env buf sc = (case try_new cols' (length rows) of None \<Rightarrow> Inl BatchRejected | Some rb \<Rightarrow> Inr rb, sc2) \<and>
    (\<forall>i<length rows. batch_cell cols' i = batch_cell cols i) \<and> scanner_ready sc2"
proof -
  obtain cols sc1 where views:
      "scan accepts try_new env buf sc = (case try_new cols (length rows) of None \<Rightarrow> Inl BatchRejected | Some rb \<Rightarrow> Inr rb, sc1)"
      "batch_delivers sc rows lines cols"
    using scan_views_hold [OF assms(1-10), of try_new] by blast
  have total: "view_total (map (map_of (str_views fc)) (row_range (length rows))) = string_total rows (fc_name fc)"
    if "scanned env buf sc b" "fc \<in> set (active_columns b)" for b fc
    using column_string_total [of b fc] scanned_counts(1) [OF that(1) assms(5)] that assms(5,6) by (simp add: scanned_def)
  have "\<exists>cols sc'. scan_with (finish_batch_detached room try_new) env buf sc =
      (case try_new cols (length rows) of None \<Rightarrow> Inl BatchRejected | Some rb \<Rightarrow> Inr rb, sc') \<and>
    batch_delivers sc rows lines cols \<and> scanner_ready sc'"
  proof (rule owned.scan_with_holds [OF assms(1-8)])
    show "finish_batch_detached room try_new b = close_batch try_new (finish_columns (string_array room b) (constant_array room) Utf8 b) b" for b
      by (simp add: finish_batch_detached_def)
    show "room (view_total (map (map_of (str_views fc)) (row_range (length rows))))"
      if "scanned env buf sc b" "fc \<in> set (active_columns b)" for b fc
      using total [OF that] room(1) by simp
    show "room (view_total (map Some (line_views b)))" if "scanned env buf sc b" for b
      using line_string_total [of b] that assms(5,7) room(2) by (simp add: scanned_def)
    show "room (length rows * length (snd attr))" if "attr \<in> set (sc_resource_attrs sc)" for attr
      using room(3) that by (simp add: list_all_iff)
  qed
  then obtain cols' sc2 where owned:
      "scan_detached room try_new env buf sc = (case try_new cols' (length rows) of None \<Rightarrow> Inl BatchRejected | Some rb \<Rightarrow> Inr rb, sc2)"
      "batch_delivers sc rows lines cols'" "scanner_ready sc2"
    unfolding scan_detached_def by blast
  have "\<forall>i<length rows. batch_cell cols' i = batch_cell cols i" using views(2) owned(2) by (simp add: batch_delivers_def)
  with views(1) owned(1,3) show ?thesis by blast
qed

theorem scan_detached_same_cells_witness:
  "\<exists>cols cols' sc1 sc2.
     scan accepts_inside (\<lambda>cols n. Some (cols, n)) reference_env (bstr ''[2]'') attr_scanner = (Inr (cols, 1), sc1) \<and>
     scan_detached (\<lambda>n. n < 2 ^ 31) (\<lambda>cols n. Some (cols, n)) reference_env (bstr ''[2]'') attr_scanner = (Inr (cols', 1), sc2) \<and>
     batch_cell cols' 0 = batch_cell cols 0 \<and> batch_cell cols' 0 (bstr ''body'') = Some (CStr (bstr ''[2]''))"
proof -
  let ?buf = "bstr ''[2]''" and ?cfg = "sc_config attr_scanner"
  obtain blocks ranges where phase: "scan_phase1 (env_simd reference_env) ?buf = (blocks, ranges)" by fastforce
  let ?rows = "scan_rows reference_env ?buf ?cfg blocks ranges" and ?lines = "scan_captured reference_env ?buf ?cfg blocks ranges"
  have utf8: "valid_utf8 ?buf" by code_simp
  have len: "2 * length ?buf < 2 ^ 32" by (simp add: bstr_def)
  have cfg: "row_predicate ?cfg = None" "captures_line ?cfg" "line_field_name ?cfg = Some (bstr ''body'')"
      "sc_resource_attrs attr_scanner = [(bstr ''svc'', bstr ''api'')]"
    by (simp_all add: attr_scanner_def with_resource_attrs_def scan_config_default_def captures_line_def)
  have ready: "scanner_ready attr_scanner" by (simp add: attr_scanner_def scanner_ready_new)
  have brace: "LBRACE \<notin> set ?buf" by code_simp
  have nd: "ndjson_lines ?buf = [?buf]" by code_simp
  then have "length ?rows = Suc 0" using unfiltered_rows(1) [OF reference_env_wide cfg(1) phase] by simp
  then obtain row where row: "?rows = [row]" by (auto simp: length_Suc_conv)
  have "row = (\<lambda>_. None)" using no_object_rows [OF reference_env_wide brace utf8 phase, of row ?cfg] row by simp
  with row have rows: "?rows = [\<lambda>_. None]" by simp
  have total: "string_total ?rows k = 0" for k by (simp add: rows string_total_def)
  have captured: "?lines = [?buf]" using unfiltered_rows(2) [OF reference_env_wide cfg(1) phase cfg(2)] nd by simp
  have names: "resource_col_name (bstr ''svc'') \<noteq> bstr ''body''" by code_simp
  have no: "no_collision (line_field_name ?cfg) (sc_resource_attrs attr_scanner) ?rows"
    using cfg names by (simp add: rows no_collision_def)
  have val: "valid_utf8 (bstr ''api'')" "length (bstr ''api'') = 3" by code_simp+
  have attrs: "list_all (\<lambda>attr. valid_utf8 (snd attr) \<and> length (snd attr) < 2 ^ 32) (sc_resource_attrs attr_scanner)"
    using cfg(4) val by simp
  obtain cols sc1 where cols: "scan accepts_inside (\<lambda>cols n. Some (cols, n)) reference_env ?buf attr_scanner = (Inr (cols, 1), sc1)"
      "batch_delivers attr_scanner ?rows ?lines cols"
    using scan_views_hold [OF reference_env_wide utf8 len ready phase refl refl no accepts_inside_ok attrs,
        of "\<lambda>cols n. Some (cols, n)"] rows by auto
  have body: "batch_cell cols 0 (bstr ''body'') = Some (CStr ?buf)"
    using cols(2) cfg by (simp add: batch_delivers_def batch_row_def rows captured)
  have three: "length ?buf = 3" by code_simp
  have "\<exists>cols' sc2. scan_detached (\<lambda>n. n < 2 ^ 31) (\<lambda>cols n. Some (cols, n)) reference_env ?buf attr_scanner = (Inr (cols', 1), sc2) \<and>
      batch_cell cols' 0 = batch_cell cols 0"
    using scan_detached_same_cells [OF reference_env_wide utf8 len ready phase refl refl no accepts_inside_ok attrs,
        of "\<lambda>n. n < 2 ^ 31" "\<lambda>cols n. Some (cols, n)"] total cfg val three cols(1)
    by (auto simp: rows captured)
  with cols(1) body show ?thesis by metis
qed

end
