(* ===== verification/Btree_Map.thy ===== *)
theory Btree_Map
  imports Prelude
begin

text \<open>
  \<^verbatim>\<open>alloc::collections::BTreeMap\<close> as the list of its entries in key order, with the operations the
  pipeline uses. \<open>btree_ok\<close> is the order; every operation keeps it.
\<close>

type_synonym ('k, 'v) btree = "('k \<times> 'v) list"

definition btree_ok :: "('k::linorder, 'v) btree \<Rightarrow> bool" where
  "btree_ok m \<longleftrightarrow> sorted_wrt (<) (map fst m)"

definition btree_get :: "'k \<Rightarrow> ('k, 'v) btree \<Rightarrow> 'v option" where
  "btree_get k m = map_of m k"

fun btree_insert :: "'k::linorder \<Rightarrow> 'v \<Rightarrow> ('k, 'v) btree \<Rightarrow> ('k, 'v) btree" where
  "btree_insert k v [] = [(k, v)]"
| "btree_insert k v ((k', v') # m) =
     (if k < k' then (k, v) # (k', v') # m
      else if k = k' then (k, v) # m
      else (k', v') # btree_insert k v m)"

definition btree_remove :: "'k \<Rightarrow> ('k, 'v) btree \<Rightarrow> ('k, 'v) btree" where
  "btree_remove k m = filter (\<lambda>e. fst e \<noteq> k) m"

fun btree_first :: "('k, 'v) btree \<Rightarrow> ('k \<times> 'v) option" where
  "btree_first [] = None"
| "btree_first (e # m) = Some e"

named_theorems btree_simps

lemma btree_insert_keys: "set (map fst (btree_insert k v m)) = insert k (set (map fst m))"
  by (induction k v m rule: btree_insert.induct) auto

lemma btree_insert_ok [intro]: "btree_ok m \<Longrightarrow> btree_ok (btree_insert k v m)"
proof (induction k v m rule: btree_insert.induct)
  case (2 k v k' v' m)
  have "x = k \<or> x \<in> fst ` set m" if "x \<in> fst ` set (btree_insert k v m)" for x
    using that btree_insert_keys [of k v m] by auto
  with 2 show ?case by (fastforce simp: btree_ok_def)
qed (simp add: btree_ok_def)

lemma btree_remove_ok [intro]: "btree_ok m \<Longrightarrow> btree_ok (btree_remove k m)"
  by (auto simp: btree_ok_def btree_remove_def sorted_wrt_map intro: sorted_wrt_filter)

lemma btree_get_insert [btree_simps]: "btree_ok m \<Longrightarrow> btree_get k' (btree_insert k v m) = (if k' = k then Some v else btree_get k' m)"
  by (induction k v m rule: btree_insert.induct) (auto simp: btree_get_def btree_ok_def)

lemma btree_get_remove [btree_simps]: "btree_get k' (btree_remove k m) = (if k' = k then None else btree_get k' m)"
  by (induction m) (auto simp: btree_get_def btree_remove_def)

lemma btree_get_empty [btree_simps]: "btree_get k [] = None"
  by (simp add: btree_get_def)

lemma btree_get_set: "btree_ok m \<Longrightarrow> btree_get k m = Some v \<longleftrightarrow> (k, v) \<in> set m"
  by (auto simp: btree_ok_def btree_get_def strict_sorted_iff)

text \<open>On filters of an ordered list, which is how the pipeline's maps relate to its batches.\<close>

lemma btree_ok_filter [intro]: "btree_ok m \<Longrightarrow> btree_ok (filter P m)"
  by (auto simp: btree_ok_def sorted_wrt_map intro: sorted_wrt_filter)

lemma btree_insert_last: "\<forall>k'\<in>fst ` set m. k' < k \<Longrightarrow> btree_insert k v m = m @ [(k, v)]"
  by (induction k v m rule: btree_insert.induct) auto

lemma btree_insert_first: "\<forall>k'\<in>fst ` set m. k < k' \<Longrightarrow> btree_insert k v m = (k, v) # m"
  by (cases "(k, v, m)" rule: btree_insert.cases) auto

lemma btree_insert_same: "btree_ok m \<Longrightarrow> (k, v) \<in> set m \<Longrightarrow> btree_insert k v m = m"
  by (induction k v m rule: btree_insert.induct) (auto simp: btree_ok_def)

lemma btree_insert_filter:
  assumes "btree_ok m" and "(k, v) \<in> set m"
  shows "btree_insert k v (filter (\<lambda>e. fst e \<in> A) m) = filter (\<lambda>e. fst e \<in> insert k A) m"
  using assms
proof (induction m)
  case (Cons e m)
  obtain k' v' where e: "e = (k', v')" by fastforce
  have rest: "btree_ok m" "\<forall>x\<in>fst ` set m. k' < x" using Cons.prems(1) by (auto simp: btree_ok_def e)
  show ?case
  proof (cases "k' = k")
    case True
    have "v' = v" using Cons.prems(2) rest(2) by (force simp: e True)
    moreover have "filter (\<lambda>e. fst e \<in> insert k A) m = filter (\<lambda>e. fst e \<in> A) m" using rest(2) True by (auto intro!: filter_cong)
    moreover have "btree_insert k v (filter (\<lambda>e. fst e \<in> A) m) = (k, v) # filter (\<lambda>e. fst e \<in> A) m"
      using rest(2) True by (intro btree_insert_first) auto
    ultimately show ?thesis by (auto simp: e True)
  next
    case False
    then have m: "(k, v) \<in> set m" using Cons.prems(2) e by auto
    then have "k' < k" using rest(2) by force
    with Cons.IH [OF rest(1) m] False show ?thesis by (auto simp: e)
  qed
qed simp

lemma btree_get_filter:
  assumes "btree_ok m"
  shows "btree_get k (filter P m) = (case btree_get k m of None \<Rightarrow> None | Some v \<Rightarrow> if P (k, v) then Some v else None)"
proof (cases "btree_get k m")
  case None
  then have "k \<notin> fst ` set m" by (simp add: btree_get_def map_of_eq_None_iff)
  then have "btree_get k (filter P m) = None" by (auto simp: btree_get_def map_of_eq_None_iff)
  with None show ?thesis by simp
next
  case (Some v)
  then have v: "(k, v) \<in> set m" using btree_get_set [OF assms] by blast
  show ?thesis
  proof (cases "P (k, v)")
    case True
    with v Some show ?thesis using btree_get_set [OF btree_ok_filter [OF assms]] by simp
  next
    case False
    have "(k, w) \<notin> set (filter P m)" for w
      using False Some btree_get_set [OF assms, of k w] by auto
    then have "btree_get k (filter P m) = None"
      using btree_get_set [OF btree_ok_filter [OF assms], of k] by (cases "btree_get k (filter P m)") auto
    with False Some show ?thesis by simp
  qed
qed

text \<open>Counters of 64 bits.\<close>

lemma u64_suc: "n \<noteq> -1 \<Longrightarrow> j \<le> n \<Longrightarrow> j < n + 1" for n j :: u64
proof -
  assume n: "n \<noteq> -1" and j: "j \<le> n"
  have "n + 1 \<noteq> 0" using n by (metis add.inverse_unique add.commute)
  moreover have "unat n < 2 ^ 64" using unsigned_less [of n] by simp
  ultimately have "unat (n + 1) = unat n + 1" by (simp add: unat_plus_if' word_unat_eq_iff split: if_splits)
  with j show "j < n + 1" by (simp add: word_less_nat_alt word_le_nat_alt)
qed

end
