(* ===== verification/Pipeline_Lifecycle.thy ===== *)
theory Pipeline_Lifecycle
  imports Btree_Map
begin

text \<open>
  The pipeline's batch tickets and lifecycle machine: \<^verbatim>\<open>ffwd-types/src/pipeline/batch.rs\<close> and
  \<^verbatim>\<open>ffwd-types/src/pipeline/lifecycle.rs\<close>. The typestate parameters are fields; an operation is
  only applied in the state whose \<^verbatim>\<open>impl\<close> block has it. \<open>None\<close> is an arithmetic overflow.
\<close>

subsection \<open>Batch tickets\<close>

datatype TicketState = Queued | Sending

record 'c BatchTicket =
  ticket_id :: u64
  ticket_source :: u64
  ticket_checkpoint :: 'c
  attempts :: u32
  ticket_state :: TicketState

record 'c AckReceipt =
  receipt_batch_id :: u64
  receipt_source :: u64
  receipt_checkpoint :: 'c
  delivered :: bool

definition ticket_new :: "u64 \<Rightarrow> u64 \<Rightarrow> 'c \<Rightarrow> 'c BatchTicket" where
  "ticket_new i source checkpoint =
     \<lparr>ticket_id = i, ticket_source = source, ticket_checkpoint = checkpoint, attempts = 0, ticket_state = Queued\<rparr>"

definition ticket_begin_send :: "'c BatchTicket \<Rightarrow> 'c BatchTicket" where
  "ticket_begin_send t = t\<lparr>ticket_state := Sending\<rparr>"

definition ack :: "'c BatchTicket \<Rightarrow> 'c AckReceipt" where
  "ack t = \<lparr>receipt_batch_id = ticket_id t, receipt_source = ticket_source t,
            receipt_checkpoint = ticket_checkpoint t, delivered = True\<rparr>"

definition fail :: "'c BatchTicket \<Rightarrow> 'c BatchTicket option" where
  "fail t = (if attempts t = -1 then None
             else Some (t\<lparr>attempts := attempts t + 1, ticket_state := Queued\<rparr>))"

definition reject :: "'c BatchTicket \<Rightarrow> 'c AckReceipt" where
  "reject t = \<lparr>receipt_batch_id = ticket_id t, receipt_source = ticket_source t,
               receipt_checkpoint = ticket_checkpoint t, delivered = False\<rparr>"

subsection \<open>The machine\<close>

datatype Phase = Starting | Running | Draining | Stopped

record 'c PipelineMachine =
  phase :: Phase
  next_batch_id :: u64
  committed :: "(u64, 'c) btree"
  in_flight :: "(u64, (u64, 'c) btree) btree"
  pending_acks :: "(u64, (u64, 'c) btree) btree"
  forced :: bool

record 'c CheckpointAdvance =
  adv_source :: u64
  advanced :: bool
  adv_checkpoint :: "'c option"

definition machine_new :: "'c PipelineMachine" where
  "machine_new = \<lparr>phase = Starting, next_batch_id = 0, committed = [], in_flight = [], pending_acks = [], forced = False\<rparr>"

definition start :: "'c PipelineMachine \<Rightarrow> 'c PipelineMachine" where
  "start m = m\<lparr>phase := Running, forced := False\<rparr>"

definition create_batch :: "u64 \<Rightarrow> 'c \<Rightarrow> 'c PipelineMachine \<Rightarrow> ('c BatchTicket \<times> 'c PipelineMachine) option" where
  "create_batch source checkpoint m =
     (if next_batch_id m = -1 then None
      else Some (ticket_new (next_batch_id m) source checkpoint, m\<lparr>next_batch_id := next_batch_id m + 1\<rparr>))"

text \<open>\<^verbatim>\<open>entry(source).or_default().insert(id, checkpoint)\<close>.\<close>

definition entry_insert :: "u64 \<Rightarrow> u64 \<Rightarrow> 'c \<Rightarrow> (u64, (u64, 'c) btree) btree \<Rightarrow> (u64, (u64, 'c) btree) btree" where
  "entry_insert source i checkpoint m =
     btree_insert source
       (btree_insert i checkpoint (case btree_get source m of None \<Rightarrow> [] | Some inner \<Rightarrow> inner)) m"

definition begin_send :: "'c BatchTicket \<Rightarrow> 'c PipelineMachine \<Rightarrow> 'c BatchTicket \<times> 'c PipelineMachine" where
  "begin_send t m =
     (ticket_begin_send t,
      m\<lparr>in_flight := entry_insert (ticket_source t) (ticket_id t) (ticket_checkpoint t) (in_flight m)\<rparr>)"

text \<open>
  The loop that consumes contiguous acknowledgements. The in-flight batches of the source do not
  change in it; \<open>committed\<close> and \<open>advanced\<close> are its state.
\<close>

function advance_loop ::
  "(u64, 'c) btree \<Rightarrow> (u64, 'c) btree \<Rightarrow> 'c option \<Rightarrow> bool \<Rightarrow> (u64, 'c) btree \<times> 'c option \<times> bool" where
  "advance_loop flights pending last_cp adv =
     (case btree_first pending of
        None \<Rightarrow> (pending, last_cp, adv)
      | Some (lowest_id, _) \<Rightarrow>
          if (case btree_first flights of None \<Rightarrow> False | Some (min_id, _) \<Rightarrow> min_id < lowest_id) then (pending, last_cp, adv)
          else (case btree_get lowest_id pending of
                  None \<Rightarrow> (pending, last_cp, adv)
                | Some cp \<Rightarrow> advance_loop flights (btree_remove lowest_id pending) (Some cp) True))"
  by pat_completeness auto
termination
proof (relation "measure (\<lambda>(flights, pending, last_cp, adv). length pending)", goal_cases)
  case (2 flights pending last_cp adv e lowest_id v cp)
  then obtain rest where "pending = (lowest_id, v) # rest" by (cases pending) auto
  then show ?case by (auto simp: btree_remove_def le_imp_less_Suc)
qed simp

declare advance_loop.simps [simp del]

definition drop_empty :: "u64 \<Rightarrow> (u64, (u64, 'c) btree) btree \<Rightarrow> (u64, (u64, 'c) btree) btree" where
  "drop_empty source m = (if btree_get source m = Some [] then btree_remove source m else m)"

definition record_ack_and_advance ::
  "'c AckReceipt \<Rightarrow> 'c PipelineMachine \<Rightarrow> 'c CheckpointAdvance \<times> 'c PipelineMachine" where
  "record_ack_and_advance receipt m =
     (let source = receipt_source receipt; i = receipt_batch_id receipt
      in case Option.bind (btree_get source (in_flight m)) (btree_get i) of
           None \<Rightarrow> (\<lparr>adv_source = source, advanced = False, adv_checkpoint = btree_get source (committed m)\<rparr>, m)
         | Some tracked \<Rightarrow>
             (let flights = btree_remove i (case btree_get source (in_flight m) of None \<Rightarrow> [] | Some f \<Rightarrow> f);
                  flight_map = btree_insert source flights (in_flight m);
                  pending_map = entry_insert source i tracked (pending_acks m);
                  pending = (case btree_get source pending_map of None \<Rightarrow> [] | Some p \<Rightarrow> p)
              in case advance_loop flights pending None False of
                   (left, last_cp, adv) \<Rightarrow>
                     (let com = (case last_cp of None \<Rightarrow> committed m | Some cp \<Rightarrow> btree_insert source cp (committed m))
                      in (\<lparr>adv_source = source, advanced = adv, adv_checkpoint = btree_get source com\<rparr>,
                          m\<lparr>committed := com, in_flight := drop_empty source flight_map,
                            pending_acks := drop_empty source (btree_insert source left pending_map)\<rparr>))))"

definition apply_ack :: "'c AckReceipt \<Rightarrow> 'c PipelineMachine \<Rightarrow> 'c CheckpointAdvance \<times> 'c PipelineMachine" where
  "apply_ack receipt m = record_ack_and_advance receipt m"

definition begin_drain :: "'c PipelineMachine \<Rightarrow> 'c PipelineMachine" where
  "begin_drain m = m\<lparr>phase := Draining, forced := False\<rparr>"

definition in_flight_count :: "'c PipelineMachine \<Rightarrow> nat" where
  "in_flight_count m = sum_list (map (length \<circ> snd) (in_flight m))"

definition committed_checkpoint :: "u64 \<Rightarrow> 'c PipelineMachine \<Rightarrow> 'c option" where
  "committed_checkpoint source m = btree_get source (committed m)"

definition is_drained :: "'c PipelineMachine \<Rightarrow> bool" where
  "is_drained m \<longleftrightarrow> list_all (\<lambda>e. snd e = []) (in_flight m) \<and> list_all (\<lambda>e. snd e = []) (pending_acks m)"

text \<open>\<open>Inl\<close> hands the machine back.\<close>

definition stop :: "'c PipelineMachine \<Rightarrow> 'c PipelineMachine + 'c PipelineMachine" where
  "stop m = (if \<not> is_drained m then Inl m else Inr (m\<lparr>phase := Stopped, forced := False\<rparr>))"

definition force_stop :: "'c PipelineMachine \<Rightarrow> 'c PipelineMachine" where
  "force_stop m = m\<lparr>phase := Stopped, forced := True\<rparr>"

definition final_checkpoints :: "'c PipelineMachine \<Rightarrow> (u64, 'c) btree" where
  "final_checkpoints m = committed m"

definition was_forced :: "'c PipelineMachine \<Rightarrow> bool" where
  "was_forced m = forced m"

definition abandoned_count :: "'c PipelineMachine \<Rightarrow> nat" where
  "abandoned_count m = sum_list (map (length \<circ> snd) (in_flight m))"

end
