(* ===== verification/Pipeline_Steps.thy ===== *)
theory Pipeline_Steps
  imports Pipeline_Lifecycle "HOL-Library.Sublist"
begin

text \<open>
  The lifecycle machine implements ordered acknowledgement: the batches sent and acknowledged per
  source determine its maps and its committed checkpoints. The runs of the machine with the tickets
  its clients hold are a step relation; tickets are linear, as their types make them.
\<close>

subsection \<open>Ordered acknowledgement\<close>

text \<open>
  The specification: of the batches of a source, in the order sent, the acknowledged prefix is
  committed, and its last checkpoint is the committed one.
\<close>

definition acked_prefix :: "u64 set \<Rightarrow> (u64, 'c) btree \<Rightarrow> (u64, 'c) btree" where
  "acked_prefix A batches = takeWhile (\<lambda>e. fst e \<in> A) batches"

definition prefix_checkpoint :: "u64 set \<Rightarrow> (u64, 'c) btree \<Rightarrow> 'c option" where
  "prefix_checkpoint A batches =
     (if acked_prefix A batches = [] then None else Some (snd (last (acked_prefix A batches))))"

definition blocked :: "u64 set \<Rightarrow> (u64, 'c) btree \<Rightarrow> (u64, 'c) btree" where
  "blocked A batches = dropWhile (\<lambda>e. fst e \<in> A) batches"

definition inner :: "u64 \<Rightarrow> (u64, (u64, 'c) btree) btree \<Rightarrow> (u64, 'c) btree" where
  "inner s m = (case btree_get s m of None \<Rightarrow> [] | Some f \<Rightarrow> f)"

lemma prefix_blocked: "acked_prefix A L @ blocked A L = L"
  by (simp add: acked_prefix_def blocked_def)

lemma btree_ok_append: "btree_ok (xs @ ys) \<Longrightarrow> btree_ok ys"
  by (simp add: btree_ok_def sorted_wrt_append)

lemma blocked_ok: "btree_ok L \<Longrightarrow> btree_ok (blocked A L)"
  using prefix_blocked [of A L] btree_ok_append by metis

text \<open>The loop of the machine on the blocked batches: it consumes the newly acknowledged prefix.\<close>

lemma btree_cons:
  assumes "btree_ok ((k, v) # m)"
  shows "btree_ok m" and "btree_get k ((k, v) # m) = Some v" and "btree_remove k ((k, v) # m) = m"
    and "\<forall>e\<in>set m. k < fst e"
proof -
  show less: "\<forall>e\<in>set m. k < fst e" using assms by (auto simp: btree_ok_def)
  show "btree_ok m" using assms by (simp add: btree_ok_def)
  show "btree_get k ((k, v) # m) = Some v" by (simp add: btree_get_def)
  show "btree_remove k ((k, v) # m) = m" using less by (auto simp: btree_remove_def filter_id_conv)
qed

lemma btree_first_in: "btree_first m = Some e \<Longrightarrow> e \<in> set m"
  by (cases m) simp_all

lemma advance_loop_blocked:
  assumes "btree_ok D"
  shows "advance_loop (filter (\<lambda>e. fst e \<notin> A) D) (filter (\<lambda>e. fst e \<in> A) D) cp adv =
    (filter (\<lambda>e. fst e \<in> A) (blocked A D),
     if acked_prefix A D = [] then cp else Some (snd (last (acked_prefix A D))), adv \<or> acked_prefix A D \<noteq> [])"
  using assms
proof (induction D arbitrary: cp adv)
  case Nil
  then show ?case by (simp add: advance_loop.simps blocked_def acked_prefix_def)
next
  case (Cons e D)
  obtain i c where e: "e = (i, c)" by fastforce
  note D = btree_cons [OF Cons.prems [unfolded e]]
  show ?case
  proof (cases "i \<in> A")
    case True
    have pending: "btree_ok ((i, c) # filter (\<lambda>e. fst e \<in> A) D)" using btree_ok_filter [OF Cons.prems] True by (metis (no_types, lifting) e filter.simps(2) fst_conv)
    have "\<not> (case btree_first (filter (\<lambda>e. fst e \<notin> A) D) of None \<Rightarrow> False | Some (m, _) \<Rightarrow> m < i)"
      using D(4) by (force split: option.splits dest: btree_first_in)
    with btree_cons(2,3) [OF pending] Cons.IH [OF D(1), of "Some c" True] True show ?thesis
      by (subst advance_loop.simps) (auto simp: e blocked_def acked_prefix_def)
  next
    case False
    have "i < j" if "btree_first (filter (\<lambda>e. fst e \<in> A) D) = Some (j, v)" for j v
      using D(4) btree_first_in [OF that] by auto
    with False show ?thesis
      by (subst advance_loop.simps) (auto simp: e blocked_def acked_prefix_def split: option.splits)
  qed
qed

text \<open>What the machine's maps hold, given the batches sent and acknowledged per source.\<close>

definition tracks :: "'c PipelineMachine \<Rightarrow> (u64 \<Rightarrow> (u64, 'c) btree) \<Rightarrow> (u64 \<Rightarrow> u64 set) \<Rightarrow> bool" where
  "tracks m sent acked \<longleftrightarrow>
     btree_ok (committed m) \<and> btree_ok (in_flight m) \<and> btree_ok (pending_acks m) \<and>
     (\<forall>s. btree_ok (sent s) \<and>
        inner s (in_flight m) = filter (\<lambda>e. fst e \<notin> acked s) (sent s) \<and>
        inner s (pending_acks m) = filter (\<lambda>e. fst e \<in> acked s) (blocked (acked s) (sent s)) \<and>
        committed_checkpoint s m = prefix_checkpoint (acked s) (sent s))"

lemma tracksD:
  assumes "tracks m sent acked"
  shows "btree_ok (committed m)" "btree_ok (in_flight m)" "btree_ok (pending_acks m)" "btree_ok (sent s)"
    and "inner s (in_flight m) = filter (\<lambda>e. fst e \<notin> acked s) (sent s)"
    and "inner s (pending_acks m) = filter (\<lambda>e. fst e \<in> acked s) (blocked (acked s) (sent s))"
    and "committed_checkpoint s m = prefix_checkpoint (acked s) (sent s)"
  using assms by (simp_all add: tracks_def)

lemma inner_insert: "btree_ok m \<Longrightarrow> inner s' (btree_insert s v m) = (if s' = s then v else inner s' m)"
  by (simp add: inner_def btree_simps)

lemma inner_entry_insert:
  "btree_ok m \<Longrightarrow> inner s' (entry_insert s i c m) = (if s' = s then btree_insert i c (inner s m) else inner s' m)"
  by (simp add: entry_insert_def inner_insert) (simp add: inner_def)

lemma entry_insert_ok [intro]: "btree_ok m \<Longrightarrow> btree_ok (entry_insert s i c m)"
  by (auto simp: entry_insert_def)

lemma inner_drop_empty: "inner s' (drop_empty s m) = inner s' m"
  by (simp add: inner_def drop_empty_def btree_simps)

lemma drop_empty_ok [intro]: "btree_ok m \<Longrightarrow> btree_ok (drop_empty s m)"
  by (auto simp: drop_empty_def)

lemma inner_get: "Option.bind (btree_get s m) (btree_get i) = btree_get i (inner s m)"
  by (cases "btree_get s m") (simp_all add: inner_def btree_simps)

lemma acked_prefix_insert:
  "acked_prefix (insert i A) L = acked_prefix A L @ acked_prefix (insert i A) (blocked A L)"
  "blocked (insert i A) L = blocked (insert i A) (blocked A L)"
  by (induction L) (auto simp: acked_prefix_def blocked_def)

lemma prefix_checkpoint_insert:
  "prefix_checkpoint (insert i A) L =
     (if acked_prefix (insert i A) (blocked A L) = [] then prefix_checkpoint A L
      else Some (snd (last (acked_prefix (insert i A) (blocked A L)))))"
  by (simp add: prefix_checkpoint_def acked_prefix_insert(1) [of i A L])

lemma filter_blocked: "filter (\<lambda>e. fst e \<notin> insert i A) (blocked A L) = filter (\<lambda>e. fst e \<notin> insert i A) L"
proof -
  have "filter (\<lambda>e. fst e \<notin> insert i A) (acked_prefix A L) = []"
    by (auto simp: acked_prefix_def filter_empty_conv dest: set_takeWhileD)
  then show ?thesis using prefix_blocked [of A L] by (metis append_Nil filter_append)
qed

text \<open>Applying the receipt of a batch in flight.\<close>

lemma tracks_ack:
  assumes tr: "tracks m sent acked" and r: "receipt_source r = s" "receipt_batch_id r = i"
    and sent: "(i, c) \<in> set (sent s)" "i \<notin> acked s"
  shows "tracks (snd (apply_ack r m)) sent (acked(s := insert i (acked s)))"
    and "fst (apply_ack r m) = \<lparr>adv_source = s,
      advanced = (acked_prefix (acked s) (sent s) \<noteq> acked_prefix (insert i (acked s)) (sent s)),
      adv_checkpoint = prefix_checkpoint (insert i (acked s)) (sent s)\<rparr>"
proof -
  let ?L = "sent s" and ?A = "acked s" and ?A' = "insert i (acked s)"
  let ?D = "blocked ?A ?L"
  note T = tracksD [OF tr]
  have "(i, c) \<in> set ?D" using sent prefix_blocked [of ?A ?L] by (metis UnE acked_prefix_def fst_conv set_append set_takeWhileD)
  note D = blocked_ok [OF T(4) [of s], of ?A] this
  have get: "Option.bind (btree_get s (in_flight m)) (btree_get i) = Some c"
    unfolding inner_get using sent T(4) [of s] by (simp add: T(5) btree_get_set btree_ok_filter)
  have flights: "btree_remove i (inner s (in_flight m)) = filter (\<lambda>e. fst e \<notin> ?A') ?D"
    unfolding filter_blocked by (auto simp: T(5) btree_remove_def intro: filter_cong)
  have pending: "inner s (entry_insert s i c (pending_acks m)) = filter (\<lambda>e. fst e \<in> ?A') ?D"
    by (simp add: inner_entry_insert T(3,6) btree_insert_filter [OF D])
  let ?left = "filter (\<lambda>e. fst e \<in> ?A') (blocked ?A' ?D)" and ?P = "acked_prefix ?A' ?D"
  let ?com = "if ?P = [] then committed m else btree_insert s (snd (last ?P)) (committed m)"
  let ?m = "m\<lparr>committed := ?com,
      in_flight := drop_empty s (btree_insert s (filter (\<lambda>e. fst e \<notin> ?A') ?D) (in_flight m)),
      pending_acks := drop_empty s (btree_insert s ?left (entry_insert s i c (pending_acks m)))\<rparr>"
  have com: "btree_get s' ?com = (if s' = s then prefix_checkpoint ?A' ?L else prefix_checkpoint (acked s') (sent s'))" for s'
    using T(1) T(7) [of s'] by (auto simp: btree_simps committed_checkpoint_def prefix_checkpoint_insert)
  have eq: "apply_ack r m = (\<lparr>adv_source = s, advanced = (?P \<noteq> []), adv_checkpoint = btree_get s ?com\<rparr>, ?m)"
    using get flights pending advance_loop_blocked [OF D(1), of ?A' None False]
    by (simp add: apply_ack_def record_ack_and_advance_def r Let_def inner_def [symmetric])
  show "fst (apply_ack r m) = \<lparr>adv_source = s, advanced = (acked_prefix ?A ?L \<noteq> acked_prefix ?A' ?L),
      adv_checkpoint = prefix_checkpoint ?A' ?L\<rparr>"
    using com [of s] by (simp add: eq acked_prefix_insert(1) [of i ?A ?L])
  have "inner s' (in_flight ?m) = filter (\<lambda>e. fst e \<notin> (acked(s := ?A')) s') (sent s')" for s'
    using T(2) T(5) [of s'] filter_blocked [of i ?A ?L] by (simp add: inner_drop_empty inner_insert)
  moreover have "inner s' (pending_acks ?m) = filter (\<lambda>e. fst e \<in> (acked(s := ?A')) s') (blocked ((acked(s := ?A')) s') (sent s'))" for s'
    using T(3) T(6) [of s'] acked_prefix_insert(2) [of i ?A ?L]
    by (simp add: inner_drop_empty inner_insert inner_entry_insert entry_insert_ok)
  moreover have "btree_ok (committed ?m)" "btree_ok (in_flight ?m)" "btree_ok (pending_acks ?m)" using T(1-3) by auto
  ultimately show "tracks (snd (apply_ack r m)) sent (acked(s := ?A'))"
    using T(4) com by (simp add: tracks_def eq committed_checkpoint_def)
qed

text \<open>Sending a batch with a greater number than every batch of its source, or sending one again.\<close>

lemma blocked_snoc: "i \<notin> A \<Longrightarrow> blocked A (L @ [(i, c)]) = blocked A L @ [(i, c)]"
  and acked_prefix_snoc: "i \<notin> A \<Longrightarrow> acked_prefix A (L @ [(i, c)]) = acked_prefix A L"
  by (induction L) (auto simp: blocked_def acked_prefix_def)

lemma tracks_first_send:
  assumes tr: "tracks m sent acked" and t: "ticket_source t = s" "ticket_id t = i" "ticket_checkpoint t = c"
    and new: "\<forall>k\<in>fst ` set (sent s). k < i" "i \<notin> acked s"
  shows "tracks (snd (begin_send t m)) (sent(s := sent s @ [(i, c)])) acked"
proof -
  note T = tracksD [OF tr]
  have "btree_insert i c (filter (\<lambda>e. fst e \<notin> acked s) (sent s)) = filter (\<lambda>e. fst e \<notin> acked s) (sent s) @ [(i, c)]"
    using new(1) by (intro btree_insert_last) auto
  moreover have "btree_ok (sent s @ [(i, c)])" using T(4) [of s] new(1) by (auto simp: btree_ok_def sorted_wrt_append)
  moreover have "committed_checkpoint s' (snd (begin_send t m)) = committed_checkpoint s' m" for s'
    by (simp add: begin_send_def committed_checkpoint_def)
  ultimately show ?thesis
    using T new(2) unfolding tracks_def
    by (auto simp: begin_send_def t inner_entry_insert entry_insert_ok blocked_snoc acked_prefix_snoc prefix_checkpoint_def)
qed

lemma tracks_send_again:
  assumes tr: "tracks m sent acked" and t: "ticket_source t = s" "ticket_id t = i" "ticket_checkpoint t = c"
    and old: "(i, c) \<in> set (sent s)" "i \<notin> acked s"
  shows "tracks (snd (begin_send t m)) sent acked"
proof -
  note T = tracksD [OF tr]
  have "btree_insert i c (filter (\<lambda>e. fst e \<notin> acked s) (sent s)) = filter (\<lambda>e. fst e \<notin> acked s) (sent s)"
    using T(4) [of s] old by (intro btree_insert_same) auto
  then show ?thesis
    using T unfolding tracks_def
    by (auto simp: begin_send_def t inner_entry_insert entry_insert_ok committed_checkpoint_def)
qed

subsection \<open>Runs\<close>

text \<open>
  The machine with the ticket or receipt its clients hold for every batch, and the history of the
  run: the batches sent per source in order, and those whose receipt was applied. Tickets are consumed
  by their operations, so there is at most one for a batch.
\<close>

datatype 'c held = HeldTicket "'c BatchTicket" | HeldReceipt "'c AckReceipt"

record 'c pipeline =
  machine :: "'c PipelineMachine"
  held :: "u64 \<rightharpoonup> 'c held"
  sent :: "u64 \<Rightarrow> (u64, 'c) btree"
  acked :: "u64 \<Rightarrow> u64 set"

definition pipeline_init :: "'c pipeline" where
  "pipeline_init = \<lparr>machine = machine_new, held = Map.empty, sent = (\<lambda>_. []), acked = (\<lambda>_. {})\<rparr>"

definition was_sent :: "'c pipeline \<Rightarrow> 'c BatchTicket \<Rightarrow> bool" where
  "was_sent P t \<longleftrightarrow> ticket_id t \<in> fst ` set (sent P (ticket_source t))"

text \<open>
  One rule per operation. A batch is first sent after all batches of its source with a smaller
  number: the pipeline creates and sends a batch in one go. A ticket that was never sent may be dropped.
\<close>

inductive pipeline_step :: "'c pipeline \<Rightarrow> 'c pipeline \<Rightarrow> bool" where
  step_start: "phase (machine P) = Starting \<Longrightarrow> pipeline_step P (P\<lparr>machine := start (machine P)\<rparr>)"
| step_create:
    "phase (machine P) = Running \<Longrightarrow> create_batch s c (machine P) = Some (t, m) \<Longrightarrow>
     pipeline_step P (P\<lparr>machine := m, held := (held P)(ticket_id t \<mapsto> HeldTicket t)\<rparr>)"
| step_send:
    "phase (machine P) = Running \<Longrightarrow> held P i = Some (HeldTicket t) \<Longrightarrow> ticket_state t = Queued \<Longrightarrow>
     begin_send t (machine P) = (t', m) \<Longrightarrow> \<not> was_sent P t \<Longrightarrow>
     \<forall>k\<in>fst ` set (sent P (ticket_source t)). k < ticket_id t \<Longrightarrow>
     pipeline_step P (P\<lparr>machine := m, held := (held P)(i \<mapsto> HeldTicket t'),
       sent := (sent P)(ticket_source t := sent P (ticket_source t) @ [(ticket_id t, ticket_checkpoint t)])\<rparr>)"
| step_send_again:
    "phase (machine P) = Running \<Longrightarrow> held P i = Some (HeldTicket t) \<Longrightarrow> ticket_state t = Queued \<Longrightarrow>
     begin_send t (machine P) = (t', m) \<Longrightarrow> was_sent P t \<Longrightarrow>
     pipeline_step P (P\<lparr>machine := m, held := (held P)(i \<mapsto> HeldTicket t')\<rparr>)"
| step_drop:
    "held P i = Some (HeldTicket t) \<Longrightarrow> \<not> was_sent P t \<Longrightarrow> pipeline_step P (P\<lparr>held := (held P)(i := None)\<rparr>)"
| step_ack:
    "held P i = Some (HeldTicket t) \<Longrightarrow> ticket_state t = Sending \<Longrightarrow>
     pipeline_step P (P\<lparr>held := (held P)(i \<mapsto> HeldReceipt (ack t))\<rparr>)"
| step_reject:
    "held P i = Some (HeldTicket t) \<Longrightarrow> ticket_state t = Sending \<Longrightarrow>
     pipeline_step P (P\<lparr>held := (held P)(i \<mapsto> HeldReceipt (reject t))\<rparr>)"
| step_fail:
    "held P i = Some (HeldTicket t) \<Longrightarrow> ticket_state t = Sending \<Longrightarrow> fail t = Some t' \<Longrightarrow>
     pipeline_step P (P\<lparr>held := (held P)(i \<mapsto> HeldTicket t')\<rparr>)"
| step_apply:
    "phase (machine P) = Running \<or> phase (machine P) = Draining \<Longrightarrow> held P i = Some (HeldReceipt r) \<Longrightarrow>
     pipeline_step P (P\<lparr>machine := snd (apply_ack r (machine P)), held := (held P)(i := None),
       acked := (acked P)(receipt_source r := insert (receipt_batch_id r) (acked P (receipt_source r)))\<rparr>)"
| step_begin_drain: "phase (machine P) = Running \<Longrightarrow> pipeline_step P (P\<lparr>machine := begin_drain (machine P)\<rparr>)"
| step_stop: "phase (machine P) = Draining \<Longrightarrow> stop (machine P) = Inr m \<Longrightarrow> pipeline_step P (P\<lparr>machine := m\<rparr>)"
| step_force_stop: "phase (machine P) = Draining \<Longrightarrow> pipeline_step P (P\<lparr>machine := force_stop (machine P)\<rparr>)"

inductive reachable :: "'c pipeline \<Rightarrow> bool" where
  reach_init: "reachable pipeline_init"
| reach_step: "reachable P \<Longrightarrow> pipeline_step P P' \<Longrightarrow> reachable P'"

text \<open>
  The invariant: the machine tracks the history, and the books balance. A held ticket or receipt is for
  its batch, and every batch sent and not acknowledged is held.
\<close>

fun held_ok :: "(u64 \<Rightarrow> (u64, 'c) btree) \<Rightarrow> (u64 \<Rightarrow> u64 set) \<Rightarrow> u64 \<Rightarrow> 'c held \<Rightarrow> bool" where
  "held_ok S A i (HeldTicket t) \<longleftrightarrow>
     ticket_id t = i \<and> i \<notin> A (ticket_source t) \<and>
     (\<forall>c. (i, c) \<in> set (S (ticket_source t)) \<longrightarrow> c = ticket_checkpoint t) \<and>
     (ticket_state t = Sending \<longrightarrow> (i, ticket_checkpoint t) \<in> set (S (ticket_source t)))"
| "held_ok S A i (HeldReceipt r) \<longleftrightarrow>
     receipt_batch_id r = i \<and> i \<notin> A (receipt_source r) \<and> (i, receipt_checkpoint r) \<in> set (S (receipt_source r))"

fun held_source :: "'c held \<Rightarrow> u64" where
  "held_source (HeldTicket t) = ticket_source t"
| "held_source (HeldReceipt r) = receipt_source r"

definition books ::
  "u64 \<Rightarrow> (u64 \<rightharpoonup> 'c held) \<Rightarrow> (u64 \<Rightarrow> (u64, 'c) btree) \<Rightarrow> (u64 \<Rightarrow> u64 set) \<Rightarrow> bool" where
  "books n H S A \<longleftrightarrow>
     (\<forall>i h. H i = Some h \<longrightarrow> held_ok S A i h \<and> i < n) \<and>
     (\<forall>s i. i \<in> fst ` set (S s) \<longrightarrow> i < n) \<and>
     (\<forall>s. A s \<subseteq> fst ` set (S s)) \<and>
     (\<forall>s i. i \<in> fst ` set (S s) \<longrightarrow> i \<notin> A s \<longrightarrow> (\<exists>h. H i = Some h \<and> held_source h = s))"

definition pipeline_inv :: "'c pipeline \<Rightarrow> bool" where
  "pipeline_inv P \<longleftrightarrow>
     tracks (machine P) (sent P) (acked P) \<and> books (next_batch_id (machine P)) (held P) (sent P) (acked P)"

lemma booksD:
  assumes "books n H S A"
  shows "H i = Some h \<Longrightarrow> held_ok S A i h" and "H i = Some h \<Longrightarrow> i < n"
    and "i \<in> fst ` set (S s) \<Longrightarrow> i < n" and "A s \<subseteq> fst ` set (S s)"
    and "i \<in> fst ` set (S s) \<Longrightarrow> i \<notin> A s \<Longrightarrow> \<exists>h. H i = Some h \<and> held_source h = s"
  using assms unfolding books_def by blast+

lemma booksI:
  assumes "\<And>i h. H i = Some h \<Longrightarrow> held_ok S A i h" and "\<And>i h. H i = Some h \<Longrightarrow> i < n"
    and "\<And>s i. i \<in> fst ` set (S s) \<Longrightarrow> i < n" and "\<And>s. A s \<subseteq> fst ` set (S s)"
    and "\<And>s i. i \<in> fst ` set (S s) \<Longrightarrow> i \<notin> A s \<Longrightarrow> \<exists>h. H i = Some h \<and> held_source h = s"
  shows "books n H S A"
  using assms unfolding books_def by blast

text \<open>Replacing what is held for a batch, creating a batch, sending it first, dropping it and applying its receipt.\<close>

lemma books_hold:
  assumes "books n H S A" and i: "H i = Some h" and ok: "held_ok S A i h'" and src: "held_source h' = held_source h"
  shows "books n (H(i \<mapsto> h')) S A"
proof (rule booksI)
  note B = booksD [OF assms(1)]
  show "held_ok S A j g" if "(H(i \<mapsto> h')) j = Some g" for j g using that B(1) ok by (auto split: if_splits)
  show "j < n" if "(H(i \<mapsto> h')) j = Some g" for j g using that B(2) i by (auto split: if_splits)
  show "\<exists>h. (H(i \<mapsto> h')) j = Some h \<and> held_source h = s" if "j \<in> fst ` set (S s)" "j \<notin> A s" for j s
    using B(5) [OF that] i src by auto
qed (use booksD(3,4) [OF assms(1)] in blast)+

lemma books_create:
  assumes "books n H S A" and n: "n \<noteq> -1"
  shows "books (n + 1) (H(n \<mapsto> HeldTicket (ticket_new n s c))) S A"
proof (rule booksI)
  note B = booksD [OF assms(1)]
  have fresh: "n \<notin> fst ` set (S s')" for s' using B(3) [of n s'] by blast
  show "held_ok S A j g" if "(H(n \<mapsto> HeldTicket (ticket_new n s c))) j = Some g" for j g
    using that B(1) B(4) [of s] fresh [of s] by (force simp: ticket_new_def split: if_splits)
  show "j < n + 1" if "(H(n \<mapsto> HeldTicket (ticket_new n s c))) j = Some g" for j g
    using that B(2) [of j g] u64_suc [OF n, of j] by (auto split: if_splits)
  show "j < n + 1" if "j \<in> fst ` set (S s')" for s' j using B(3) [OF that] u64_suc [OF n, of j] by simp
  show "A s' \<subseteq> fst ` set (S s')" for s' by (rule B(4))
  show "\<exists>h. (H(n \<mapsto> HeldTicket (ticket_new n s c))) j = Some h \<and> held_source h = s'" if "j \<in> fst ` set (S s')" "j \<notin> A s'" for s' j
    using B(5) [OF that] B(3) [OF that(1)] by auto
qed

lemma books_first_send:
  assumes "books n H S A" and t: "H i = Some (HeldTicket t)" and new: "i \<notin> fst ` set (S (ticket_source t))"
  shows "books n (H(i \<mapsto> HeldTicket (ticket_begin_send t)))
    (S(ticket_source t := S (ticket_source t) @ [(i, ticket_checkpoint t)])) A" (is "books n ?H ?S A")
proof (rule booksI)
  note B = booksD [OF assms(1)]
  have other: "held_ok ?S A j g" if "held_ok S A j g" "j \<noteq> i" for j g
    using that by (cases g; cases "held_source g = ticket_source t") auto
  have "(i, c) \<notin> set (S (ticket_source t))" for c using new by force
  then have "held_ok ?S A i (HeldTicket (ticket_begin_send t))" using B(1) [OF t] by (simp add: ticket_begin_send_def)
  with other B(1) show "held_ok ?S A j g" if "?H j = Some g" for j g
    using that by (cases "j = i") (simp_all del: held_ok.simps)
  show "j < n" if "?H j = Some g" for j g using that B(2) t by (cases "j = i") simp_all
  show "j < n" if "j \<in> fst ` set (?S s)" for s j
    using that B(3) [of j s] B(2) [OF t] by (cases "s = ticket_source t"; cases "j = i") simp_all
  show "A s \<subseteq> fst ` set (?S s)" for s using B(4) [of s] by (cases "s = ticket_source t") auto
  show "\<exists>h. ?H j = Some h \<and> held_source h = s" if "j \<in> fst ` set (?S s)" "j \<notin> A s" for s j
  proof (cases "j \<in> fst ` set (S s)")
    case True
    from B(5) [OF True that(2)] t show ?thesis by (cases "j = i") (simp_all add: ticket_begin_send_def)
  next
    case False
    then have "s = ticket_source t" "j = i" using that(1) by (auto split: if_splits)
    then show ?thesis by (simp add: ticket_begin_send_def)
  qed
qed

lemma books_drop:
  assumes "books n H S A" and t: "H i = Some h" and new: "i \<notin> fst ` set (S (held_source h)) \<or> i \<in> A (held_source h)"
  shows "books n (H(i := None)) S A"
proof (rule booksI)
  note B = booksD [OF assms(1)]
  show "held_ok S A j g" "j < n" if "(H(i := None)) j = Some g" for j g using that B(1,2) by (auto split: if_splits)
  show "\<exists>h. (H(i := None)) j = Some h \<and> held_source h = s" if "j \<in> fst ` set (S s)" "j \<notin> A s" for s j
    using B(5) [OF that] t new that by auto
qed (use booksD(3,4) [OF assms(1)] in blast)+

lemma books_apply:
  assumes "books n H S A" and r: "H i = Some (HeldReceipt r)"
  shows "books n (H(i := None)) S (A(receipt_source r := insert i (A (receipt_source r))))" (is "books n ?H S ?A")
proof (rule booksI)
  note B = booksD [OF assms(1)]
  have other: "held_ok S ?A j g" if "held_ok S A j g" "j \<noteq> i" for j g using that by (cases g) auto
  show "held_ok S ?A j g" if "?H j = Some g" for j g using that other B(1) by (auto split: if_splits)
  show "j < n" if "?H j = Some g" for j g using that B(2) by (auto split: if_splits)
  show "j < n" if "j \<in> fst ` set (S s)" for s j using that by (rule B(3))
  have "i \<in> fst ` set (S (receipt_source r))" using B(1) [OF r] by force
  then show "?A s \<subseteq> fst ` set (S s)" for s using B(4) by simp
  show "\<exists>h. ?H j = Some h \<and> held_source h = s" if "j \<in> fst ` set (S s)" "j \<notin> ?A s" for s j
    using B(5) [of j s] that r by (auto split: if_splits)
qed

lemma apply_ack_frame [simp]: "next_batch_id (snd (apply_ack r m)) = next_batch_id m" "phase (snd (apply_ack r m)) = phase m"
  by (simp_all add: apply_ack_def record_ack_and_advance_def Let_def split: option.splits prod.splits)

lemma tracks_frame:
  assumes "tracks m S A" and "committed m' = committed m" and "in_flight m' = in_flight m" and "pending_acks m' = pending_acks m"
  shows "tracks m' S A"
  using assms by (simp add: tracks_def committed_checkpoint_def)

lemma pipeline_init_inv: "pipeline_inv pipeline_init"
  by (simp add: pipeline_inv_def pipeline_init_def machine_new_def tracks_def books_def btree_ok_def inner_def btree_simps
      committed_checkpoint_def prefix_checkpoint_def acked_prefix_def blocked_def)

lemma ticket_begin_send_simps [simp]:
  "ticket_id (ticket_begin_send t) = ticket_id t" "ticket_source (ticket_begin_send t) = ticket_source t"
  "ticket_checkpoint (ticket_begin_send t) = ticket_checkpoint t" "ticket_state (ticket_begin_send t) = Sending"
  by (simp_all add: ticket_begin_send_def)

lemma fail_simps:
  "fail t = Some t' \<Longrightarrow> ticket_id t' = ticket_id t \<and> ticket_source t' = ticket_source t \<and>
     ticket_checkpoint t' = ticket_checkpoint t \<and> ticket_state t' = Queued"
  by (auto simp: fail_def split: if_splits)

lemma held_transitions:
  assumes "held_ok S A i (HeldTicket t)"
  shows "(i, ticket_checkpoint t) \<in> set (S (ticket_source t)) \<Longrightarrow> held_ok S A i (HeldTicket (ticket_begin_send t))"
    and "ticket_state t = Sending \<Longrightarrow> held_ok S A i (HeldReceipt (ack t))"
    and "ticket_state t = Sending \<Longrightarrow> held_ok S A i (HeldReceipt (reject t))"
    and "fail t = Some t' \<Longrightarrow> held_ok S A i (HeldTicket t') \<and> ticket_source t' = ticket_source t"
proof -
  have t: "ticket_id t = i" "i \<notin> A (ticket_source t)" "\<And>c. (i, c) \<in> set (S (ticket_source t)) \<Longrightarrow> c = ticket_checkpoint t"
      "ticket_state t = Sending \<Longrightarrow> (i, ticket_checkpoint t) \<in> set (S (ticket_source t))"
    using assms unfolding held_ok.simps by blast+
  show "held_ok S A i (HeldTicket (ticket_begin_send t))" if "(i, ticket_checkpoint t) \<in> set (S (ticket_source t))"
    unfolding held_ok.simps ticket_begin_send_simps using t(1-3) that by blast
  show "held_ok S A i (HeldReceipt (ack t))" "held_ok S A i (HeldReceipt (reject t))" if "ticket_state t = Sending"
    unfolding held_ok.simps ack_def reject_def AckReceipt.simps using t(1,2) t(4) [OF that] by blast+
  show "held_ok S A i (HeldTicket t') \<and> ticket_source t' = ticket_source t" if "fail t = Some t'"
    unfolding held_ok.simps using fail_simps [OF that] t(1-3) by (metis TicketState.distinct(1))
qed

lemma pipeline_step_inv:
  assumes "pipeline_step P P'" and inv: "pipeline_inv P"
  shows "pipeline_inv P'"
proof -
  note T = conjunct1 [OF inv [unfolded pipeline_inv_def]] and B = conjunct2 [OF inv [unfolded pipeline_inv_def]]
  note frame = tracks_frame [OF T]
  from assms(1) show ?thesis
  proof cases
    case step_start
    with frame B show ?thesis by (simp add: pipeline_inv_def start_def)
  next
    case (step_create s c t m)
    with frame B books_create [OF B] show ?thesis
      by (auto simp: pipeline_inv_def create_batch_def ticket_new_def split: if_splits)
  next
    case (step_send i t t' m)
    have t: "ticket_id t = i" "i \<notin> acked P (ticket_source t)" using booksD(1) [OF B step_send(3)] by simp_all
    have "tracks m ((sent P)(ticket_source t := sent P (ticket_source t) @ [(i, ticket_checkpoint t)])) (acked P)"
      using tracks_first_send [OF T refl t(1) refl] step_send(5,7) t by simp
    moreover have "books (next_batch_id m) ((held P)(i \<mapsto> HeldTicket t'))
        ((sent P)(ticket_source t := sent P (ticket_source t) @ [(i, ticket_checkpoint t)])) (acked P)"
      using books_first_send [OF B step_send(3)] step_send(5,6) t(1) by (auto simp: was_sent_def begin_send_def)
    ultimately show ?thesis using step_send(1) t(1) by (simp add: pipeline_inv_def)
  next
    case (step_send_again i t t' m)
    have t: "held_ok (sent P) (acked P) i (HeldTicket t)" using booksD(1) [OF B step_send_again(3)] .
    then have old: "(i, ticket_checkpoint t) \<in> set (sent P (ticket_source t))" using step_send_again(6) by (force simp: was_sent_def)
    have "tracks m (sent P) (acked P)"
      using tracks_send_again [OF T refl refl refl] old t step_send_again(5) by (metis held_ok.simps(1) snd_conv)
    moreover have "books (next_batch_id m) ((held P)(i \<mapsto> HeldTicket t')) (sent P) (acked P)"
    proof -
      have "t' = ticket_begin_send t" "next_batch_id m = next_batch_id (machine P)"
        using step_send_again(5) by (auto simp: begin_send_def)
      with books_hold [OF B step_send_again(3) held_transitions(1) [OF t old]] show ?thesis by (simp add: ticket_begin_send_def)
    qed
    ultimately show ?thesis using step_send_again(1) by (simp add: pipeline_inv_def)
  next
    case (step_drop i t)
    with T books_drop [OF B step_drop(2)] booksD(1) [OF B step_drop(2)] show ?thesis by (simp add: pipeline_inv_def was_sent_def)
  next
    case (step_ack i t)
    with T books_hold [OF B step_ack(2) held_transitions(2) [OF booksD(1) [OF B step_ack(2)]]] show ?thesis
      by (simp add: pipeline_inv_def ack_def)
  next
    case (step_reject i t)
    with T books_hold [OF B step_reject(2) held_transitions(3) [OF booksD(1) [OF B step_reject(2)]]] show ?thesis
      by (simp add: pipeline_inv_def reject_def)
  next
    case (step_fail i t t')
    note t' = held_transitions(4) [OF booksD(1) [OF B step_fail(2)] step_fail(4)]
    from step_fail(1) T books_hold [OF B step_fail(2) conjunct1 [OF t']] t' show ?thesis
      by (simp add: pipeline_inv_def del: held_ok.simps)
  next
    case (step_apply i r)
    have r: "receipt_batch_id r = i" "i \<notin> acked P (receipt_source r)" "(i, receipt_checkpoint r) \<in> set (sent P (receipt_source r))"
      using booksD(1) [OF B step_apply(3)] by simp_all
    from tracks_ack(1) [OF T refl r(1) r(3,2)] books_apply [OF B step_apply(3)] step_apply(1) r(1) show ?thesis
      by (simp add: pipeline_inv_def)
  next
    case step_begin_drain
    with frame B show ?thesis by (simp add: pipeline_inv_def begin_drain_def)
  next
    case (step_stop m)
    with frame B show ?thesis by (auto simp: pipeline_inv_def stop_def split: if_splits)
  next
    case step_force_stop
    with frame B show ?thesis by (simp add: pipeline_inv_def force_stop_def)
  qed
qed

lemma reachable_inv: "reachable P \<Longrightarrow> pipeline_inv P"
  by (induction rule: reachable.induct) (auto intro: pipeline_init_inv pipeline_step_inv)

subsection \<open>Properties\<close>

text \<open>
  A run for the concrete instances: two batches of source 7 are sent and the receipt of the second is applied first.
\<close>

definition sample_start :: "nat pipeline" where
  "sample_start = pipeline_init\<lparr>machine := start machine_new\<rparr>"

definition sample_created :: "u64 \<Rightarrow> nat \<Rightarrow> nat pipeline \<Rightarrow> nat pipeline" where
  "sample_created s c P = (case create_batch s c (machine P) of
     None \<Rightarrow> P | Some (t, m) \<Rightarrow> P\<lparr>machine := m, held := (held P)(ticket_id t \<mapsto> HeldTicket t)\<rparr>)"

definition sample_sent :: "u64 \<Rightarrow> nat pipeline \<Rightarrow> nat pipeline" where
  "sample_sent i P = (case held P i of
     Some (HeldTicket t) \<Rightarrow> (case begin_send t (machine P) of (t', m) \<Rightarrow>
       P\<lparr>machine := m, held := (held P)(i \<mapsto> HeldTicket t'),
         sent := (sent P)(ticket_source t := sent P (ticket_source t) @ [(ticket_id t, ticket_checkpoint t)])\<rparr>)
   | _ \<Rightarrow> P)"

definition sample_acked :: "u64 \<Rightarrow> nat pipeline \<Rightarrow> nat pipeline" where
  "sample_acked i P = (case held P i of
     Some (HeldTicket t) \<Rightarrow>
       P\<lparr>machine := snd (apply_ack (ack t) (machine P)), held := (held P)(i := None),
         acked := (acked P)(ticket_source t := insert (ticket_id t) (acked P (ticket_source t)))\<rparr>
   | _ \<Rightarrow> P)"

lemma sample_start_reachable: "reachable sample_start"
  using reach_step [OF reach_init step_start] by (simp add: sample_start_def pipeline_init_def machine_new_def)

lemma sample_created_reachable: "reachable P \<Longrightarrow> phase (machine P) = Running \<Longrightarrow> reachable (sample_created s c P)"
  by (auto simp: sample_created_def split: option.splits intro: reach_step [OF _ step_create])

lemma sample_sent_reachable:
  assumes "reachable P" and "phase (machine P) = Running" and "held P i = Some (HeldTicket t)" and "ticket_state t = Queued"
    and "\<forall>k\<in>fst ` set (sent P (ticket_source t)). k < ticket_id t"
  shows "reachable (sample_sent i P)"
proof -
  have "\<not> was_sent P t" using assms(5) by (auto simp: was_sent_def)
  from reach_step [OF assms(1) step_send [OF assms(2-4) prod.collapse [symmetric] this assms(5)]] assms(3)
  show ?thesis by (simp add: sample_sent_def case_prod_beta)
qed

lemma sample_acked_reachable:
  assumes "reachable P" and "phase (machine P) = Running" and t: "held P i = Some (HeldTicket t)" "ticket_state t = Sending"
  shows "reachable (sample_acked i P)"
proof -
  let ?P = "P\<lparr>held := (held P)(i \<mapsto> HeldReceipt (ack t))\<rparr>"
  have "reachable ?P" by (rule reach_step [OF assms(1) step_ack [OF t]])
  from reach_step [OF this step_apply [of ?P i "ack t"]] assms(2) t show ?thesis
    by (simp add: sample_acked_def ack_def)
qed

definition sample_run :: "nat pipeline" where
  "sample_run = sample_acked 1 (sample_sent 1 (sample_created 7 20 (sample_sent 0 (sample_created 7 10 sample_start))))"

lemmas sample_defs = sample_start_def sample_created_def sample_sent_def sample_acked_def pipeline_init_def machine_new_def
  start_def create_batch_def ticket_new_def begin_send_def ticket_begin_send_def entry_insert_def btree_get_def

lemma sample_run_reachable: "reachable sample_run"
proof -
  let ?P1 = "sample_created 7 10 sample_start"
  let ?P2 = "sample_sent 0 ?P1"
  let ?P3 = "sample_created 7 20 ?P2"
  have "reachable ?P1" by (rule sample_created_reachable [OF sample_start_reachable]) (simp add: sample_defs)
  then have "reachable ?P2" by (rule sample_sent_reachable [where t = "ticket_new 0 7 10"]) (simp_all add: sample_defs)
  then have "reachable ?P3" by (rule sample_created_reachable) (simp add: sample_defs)
  then have "reachable (sample_sent 1 ?P3)"
    by (rule sample_sent_reachable [where t = "ticket_new 1 7 20"]) (simp_all add: sample_defs)
  then show ?thesis unfolding sample_run_def
    by (rule sample_acked_reachable [where t = "ticket_begin_send (ticket_new 1 7 20)"]) (simp_all add: sample_defs)
qed

text \<open>
  Property C4. In every state the pipeline can reach, the committed checkpoint of a source is that of the
  last batch of the longest prefix, in sending order, of acknowledged batches: no checkpoint covers a batch that was sent
  and is not acknowledged, and none lags behind the acknowledged prefix, in whatever order the receipts come in.
\<close>

theorem committed_is_acked_prefix:
  assumes "reachable P"
  shows "committed_checkpoint s (machine P) = prefix_checkpoint (acked P s) (sent P s)"
  using reachable_inv [OF assms] tracksD(7) by (auto simp: pipeline_inv_def)

theorem committed_is_acked_prefix_witness:
  "committed_checkpoint 7 (machine sample_run) = None \<and> acked sample_run 7 = {1} \<and> sent sample_run 7 = [(0, 10), (1, 20)]"
proof -
  have "acked sample_run 7 = {1}" "sent sample_run 7 = [(0, 10), (1, 20)]"
    by (simp_all add: sample_run_def sample_defs)
  with committed_is_acked_prefix [OF sample_run_reachable, of 7] show ?thesis
    by (simp add: prefix_checkpoint_def acked_prefix_def)
qed

text \<open>The committed checkpoint after the first \<open>k\<close> batches of a source.\<close>

definition checkpoint_after :: "(u64, 'c) btree \<Rightarrow> nat \<Rightarrow> 'c option" where
  "checkpoint_after L k = (if k = 0 then None else Some (snd (L ! (k - 1))))"

lemma prefix_checkpoint_after: "prefix_checkpoint A L = checkpoint_after L (length (acked_prefix A L))"
proof (cases "acked_prefix A L = []")
  case False
  then have "last (acked_prefix A L) = (acked_prefix A L @ blocked A L) ! (length (acked_prefix A L) - 1)"
    by (simp add: last_conv_nth nth_append)
  with False show ?thesis by (simp add: prefix_checkpoint_def checkpoint_after_def prefix_blocked)
qed (simp add: prefix_checkpoint_def checkpoint_after_def)

lemma step_prefix:
  assumes "pipeline_step P P'"
  shows "prefix (sent P s) (sent P' s)" and "prefix (acked_prefix (acked P s) (sent P s)) (acked_prefix (acked P' s) (sent P' s))"
proof -
  have grow: "prefix (acked_prefix A L) (acked_prefix (insert i A) L)" for A i and L :: "(u64, 'a) btree"
    by (subst acked_prefix_insert(1)) simp
  have snoc: "prefix (acked_prefix A L) (acked_prefix A (L @ [e]))" for A and L :: "(u64, 'a) btree" and e
    by (induction L) (auto simp: acked_prefix_def)
  from assms show "prefix (sent P s) (sent P' s)" by cases simp_all
  from assms show "prefix (acked_prefix (acked P s) (sent P s)) (acked_prefix (acked P' s) (sent P' s))"
    by cases (simp_all add: grow snoc)
qed

text \<open>
  Property C15. A step of the pipeline never takes back a commit: before and after it, the committed checkpoint
  of a source is that after some number of its batches, and this number does not decrease.
\<close>

theorem commits_never_regress:
  assumes "reachable P" and "pipeline_step P P'"
  shows "\<exists>k k'. k \<le> k' \<and> k' \<le> length (sent P' s) \<and>
    committed_checkpoint s (machine P) = checkpoint_after (sent P' s) k \<and>
    committed_checkpoint s (machine P') = checkpoint_after (sent P' s) k'"
proof -
  have com: "committed_checkpoint s (machine Q) = checkpoint_after (sent Q s) (length (acked_prefix (acked Q s) (sent Q s)))"
    if "reachable Q" for Q :: "'a pipeline"
    using tracksD(7) reachable_inv [OF that] by (auto simp: pipeline_inv_def prefix_checkpoint_after)
  let ?k = "length (acked_prefix (acked P s) (sent P s))" and ?k' = "length (acked_prefix (acked P' s) (sent P' s))"
  have le: "?k \<le> length (sent P s)" "?k' \<le> length (sent P' s)" by (simp_all add: acked_prefix_def length_takeWhile_le)
  have "checkpoint_after (sent P' s) ?k = checkpoint_after (sent P s) ?k"
  proof (cases "?k = 0")
    case False
    then have "?k - 1 < length (sent P s)" using le(1) by linarith
    then show ?thesis using step_prefix(1) [OF assms(2), of s] by (auto simp: checkpoint_after_def prefix_def nth_append)
  qed (simp add: checkpoint_after_def)
  moreover have "?k \<le> ?k'" using step_prefix(2) [OF assms(2)] by (rule prefix_length_le)
  ultimately show ?thesis using com [OF assms(1)] com [OF reach_step [OF assms]] le(2) by metis
qed

definition sample_receipt :: "nat pipeline" where
  "sample_receipt =
     sample_run\<lparr>held := (held sample_run)(0 \<mapsto> HeldReceipt (ack (ticket_begin_send (ticket_new 0 7 10))))\<rparr>"

lemma sample_receipt_reachable: "reachable sample_receipt"
  unfolding sample_receipt_def
  by (rule reach_step [OF sample_run_reachable step_ack]) (simp_all add: sample_run_def sample_defs)

theorem commits_never_regress_witness:
  "\<exists>P k k'. pipeline_step sample_receipt P \<and> sent P 7 = [(0, 10), (1, 20)] \<and> k \<le> k' \<and> k' \<le> 2 \<and>
     committed_checkpoint 7 (machine sample_receipt) = checkpoint_after [(0, 10), (1, 20)] k \<and>
     committed_checkpoint 7 (machine P) = checkpoint_after [(0, 10), (1, 20)] k'"
proof -
  let ?r = "ack (ticket_begin_send (ticket_new 0 7 (10 :: nat)))"
  let ?P = "sample_receipt\<lparr>machine := snd (apply_ack ?r (machine sample_receipt)), held := (held sample_receipt)(0 := None),
    acked := (acked sample_receipt)(receipt_source ?r := insert (receipt_batch_id ?r) (acked sample_receipt (receipt_source ?r)))\<rparr>"
  have "phase (machine sample_run) = Running" by (simp add: sample_run_def sample_defs)
  then have "pipeline_step sample_receipt ?P" by (intro step_apply) (simp_all add: sample_receipt_def)
  moreover have "sent ?P 7 = [(0, 10), (1, 20)]" by (simp add: sample_receipt_def sample_run_def sample_defs)
  ultimately obtain P where P: "pipeline_step sample_receipt P" "sent P 7 = [(0, 10), (1, 20)]" by blast
  have "length (sent P 7) = 2" by (simp add: P(2))
  with commits_never_regress [OF sample_receipt_reachable P(1), of 7] P show ?thesis by metis
qed

subsection \<open>Draining\<close>

lemma all_inner_empty:
  assumes "btree_ok m"
  shows "list_all (\<lambda>e. snd e = []) m \<longleftrightarrow> (\<forall>s. inner s m = [])"
proof
  assume "list_all (\<lambda>e. snd e = []) m"
  then show "\<forall>s. inner s m = []" by (auto simp: inner_def list_all_iff btree_get_set [OF assms] split: option.splits)
next
  assume empty: "\<forall>s. inner s m = []"
  have "v = []" if "(k, v) \<in> set m" for k v
    using that empty [rule_format, of k] btree_get_set [OF assms, of k v] by (simp add: inner_def)
  then show "list_all (\<lambda>e. snd e = []) m" by (auto simp: list_all_iff)
qed

definition all_acked :: "'c pipeline \<Rightarrow> bool" where
  "all_acked P \<longleftrightarrow> (\<forall>s. fst ` set (sent P s) \<subseteq> acked P s)"

lemma tracks_drained:
  assumes "tracks (machine P) (sent P) (acked P)"
  shows "is_drained (machine P) \<longleftrightarrow> all_acked P"
proof -
  note T = tracksD [OF assms]
  have flights: "inner s (in_flight (machine P)) = [] \<longleftrightarrow> fst ` set (sent P s) \<subseteq> acked P s" for s
    by (auto simp: T(5) filter_empty_conv)
  have pending: "inner s (pending_acks (machine P)) = []" if "fst ` set (sent P s) \<subseteq> acked P s" for s
  proof -
    have "blocked (acked P s) (sent P s) = []" using that by (auto simp: blocked_def)
    then show ?thesis by (simp add: T(6))
  qed
  show ?thesis
    unfolding is_drained_def all_inner_empty [OF T(2)] all_inner_empty [OF T(3)] all_acked_def flights
    using pending by blast
qed

lemma all_acked_checkpoint:
  assumes "fst ` set L \<subseteq> A"
  shows "prefix_checkpoint A L = (if L = [] then None else Some (snd (last L)))"
proof -
  have "acked_prefix A L = L" using assms by (auto simp: acked_prefix_def takeWhile_eq_all_conv)
  then show ?thesis by (simp add: prefix_checkpoint_def)
qed

text \<open>
  Property C14. A draining pipeline can stop without force exactly when every batch that was sent has been
  acknowledged, and the final checkpoint of every source is then that of its last batch.
\<close>

theorem stop_iff_all_acked:
  assumes "reachable P"
  shows "((\<exists>m. stop (machine P) = Inr m) \<longleftrightarrow> all_acked P) \<and>
    (\<forall>m s. stop (machine P) = Inr m \<longrightarrow> \<not> was_forced m \<and> abandoned_count m = 0 \<and>
      btree_get s (final_checkpoints m) = (if sent P s = [] then None else Some (snd (last (sent P s)))))"
proof (intro conjI allI impI)
  have T: "tracks (machine P) (sent P) (acked P)" using reachable_inv [OF assms] by (simp add: pipeline_inv_def)
  note drained = tracks_drained [OF T]
  show "(\<exists>m. stop (machine P) = Inr m) \<longleftrightarrow> all_acked P" by (auto simp: stop_def drained)
  fix m s
  assume "stop (machine P) = Inr m"
  then have acked: "all_acked P" and m: "m = (machine P)\<lparr>phase := Stopped, forced := False\<rparr>" and empty: "is_drained (machine P)"
    by (auto simp: stop_def drained split: if_splits)
  show "\<not> was_forced m" by (simp add: m was_forced_def)
  show "btree_get s (final_checkpoints m) = (if sent P s = [] then None else Some (snd (last (sent P s))))"
    using tracksD(7) [OF T, of s] all_acked_checkpoint [of "sent P s" "acked P s"] acked
    by (simp add: m final_checkpoints_def committed_checkpoint_def all_acked_def)
  show "abandoned_count m = 0" using empty by (auto simp: m abandoned_count_def is_drained_def list_all_iff sum_list_eq_0_iff)
qed

theorem stop_iff_all_acked_witness:
  "\<not> all_acked sample_run \<and> (\<nexists>m. stop (machine sample_run) = Inr m)"
proof -
  have "\<not> all_acked sample_run"
    by (auto simp: all_acked_def sample_run_def sample_defs intro!: exI [of _ 7])
  with stop_iff_all_acked [OF sample_run_reachable] show ?thesis by blast
qed

text \<open>
  The number of batches that were sent and not acknowledged falls with every receipt applied.
\<close>

definition open_batches :: "'c pipeline \<Rightarrow> (u64 \<times> u64) set" where
  "open_batches P = {(s, i). i \<in> fst ` set (sent P s) \<and> i \<notin> acked P s}"

lemma finite_open: "finite (open_batches P)"
proof (rule finite_subset)
  show "open_batches P \<subseteq> (\<Union>s. Pair s ` fst ` set (sent P s))" by (auto simp: open_batches_def)
qed simp

definition no_retry :: "'c pipeline \<Rightarrow> bool" where
  "no_retry P \<longleftrightarrow> (\<forall>i t. held P i = Some (HeldTicket t) \<longrightarrow> was_sent P t \<longrightarrow> ticket_state t = Sending)"

text \<open>One batch is acknowledged and its receipt applied.\<close>

lemma drain_receipt:
  assumes reach: "reachable P" and ph: "phase (machine P) = Draining" and retry: "no_retry P"
    and r: "held P i = Some (HeldReceipt r)"
  shows "\<exists>P'. pipeline_step P P' \<and> phase (machine P') = Draining \<and> no_retry P' \<and>
    sent P' = sent P \<and> open_batches P' = open_batches P - {(receipt_source r, i)}"
proof -
  let ?P = "P\<lparr>machine := snd (apply_ack r (machine P)), held := (held P)(i := None),
    acked := (acked P)(receipt_source r := insert (receipt_batch_id r) (acked P (receipt_source r)))\<rparr>"
  have "books (next_batch_id (machine P)) (held P) (sent P) (acked P)" using reachable_inv [OF reach] by (simp add: pipeline_inv_def)
  from booksD(1) [OF this r] have "receipt_batch_id r = i" by simp
  then have "open_batches ?P = open_batches P - {(receipt_source r, i)}" by (auto simp: open_batches_def split: if_splits)
  moreover have "no_retry ?P" using retry by (auto simp: no_retry_def was_sent_def)
  moreover have "pipeline_step P ?P" by (rule step_apply) (use ph r in simp_all)
  moreover have "phase (machine ?P) = Draining" "sent ?P = sent P" using ph by simp_all
  ultimately show ?thesis by blast
qed

lemma drain_one:
  assumes reach: "reachable P" and ph: "phase (machine P) = Draining" and retry: "no_retry P"
    and open1: "(s, i) \<in> open_batches P"
  shows "\<exists>P'. pipeline_step\<^sup>*\<^sup>* P P' \<and> reachable P' \<and> phase (machine P') = Draining \<and> no_retry P' \<and>
    sent P' = sent P \<and> open_batches P' = open_batches P - {(s, i)}"
proof -
  have B: "books (next_batch_id (machine P)) (held P) (sent P) (acked P)" using reachable_inv [OF reach] by (simp add: pipeline_inv_def)
  obtain h where h: "held P i = Some h" "held_source h = s" using booksD(5) [OF B] open1 by (auto simp: open_batches_def)
  obtain Q r where Q: "pipeline_step\<^sup>*\<^sup>* P Q" "reachable Q" "phase (machine Q) = Draining" "no_retry Q" "sent Q = sent P"
      "open_batches Q = open_batches P" "held Q i = Some (HeldReceipt r)" "receipt_source r = s"
  proof (cases h)
    case (HeldReceipt r)
    with that [of P r] h reach ph retry show thesis by simp
  next
    case (HeldTicket t)
    let ?Q = "P\<lparr>held := (held P)(i \<mapsto> HeldReceipt (ack t))\<rparr>"
    have t: "held P i = Some (HeldTicket t)" "ticket_source t = s" using h HeldTicket by simp_all
    have "ticket_id t = i" using booksD(1) [OF B t(1)] by simp
    then have "was_sent P t" using open1 t(2) by (simp add: was_sent_def open_batches_def)
    then have "ticket_state t = Sending" using retry t(1) by (auto simp: no_retry_def)
    then have step: "pipeline_step P ?Q" using t(1) by (intro step_ack)
    have "no_retry ?Q" using retry by (auto simp: no_retry_def was_sent_def)
    with that [of ?Q "ack t"] step reach_step [OF reach step] ph t(2) show thesis
      by (simp add: r_into_rtranclp ack_def open_batches_def)
  qed
  from drain_receipt [OF Q(2-4,7)] obtain P' where P': "pipeline_step Q P'" "phase (machine P') = Draining" "no_retry P'"
      "sent P' = sent Q" "open_batches P' = open_batches Q - {(receipt_source r, i)}"
    by blast
  with Q reach_step [OF Q(2) P'(1)] show ?thesis by (metis rtranclp.rtrancl_into_rtrancl)
qed

lemma drain_all:
  assumes "reachable P" and "phase (machine P) = Draining" and "no_retry P"
  shows "\<exists>P'. pipeline_step\<^sup>*\<^sup>* P P' \<and> reachable P' \<and> phase (machine P') = Draining \<and> sent P' = sent P \<and> open_batches P' = {}"
  using assms
proof (induction "card (open_batches P)" arbitrary: P rule: less_induct)
  case less
  show ?case
  proof (cases "open_batches P = {}")
    case True
    with less.prems show ?thesis by blast
  next
    case False
    then obtain s i where si: "(s, i) \<in> open_batches P" by auto
    from drain_one [OF less.prems si] obtain Q where Q: "pipeline_step\<^sup>*\<^sup>* P Q" "reachable Q" "phase (machine Q) = Draining"
        "no_retry Q" "sent Q = sent P" "open_batches Q = open_batches P - {(s, i)}"
      by blast
    have "card (open_batches Q) < card (open_batches P)" unfolding Q(6) by (rule card_Diff1_less [OF finite_open si])
    from less.hyps [OF this Q(2-4)] Q(1,5) show ?thesis by (metis rtranclp_trans)
  qed
qed

text \<open>
  Property C5. A draining pipeline can always finish: from every reachable draining state in which no failed
  batch waits to be sent again, acknowledging and applying what is held leads to a stop without force in which the
  final checkpoint of every source is that of its last batch.
\<close>

theorem drain_can_finish:
  assumes "reachable P" and "phase (machine P) = Draining" and "no_retry P"
  shows "\<exists>P'. pipeline_step\<^sup>*\<^sup>* P P' \<and> phase (machine P') = Stopped \<and> \<not> was_forced (machine P') \<and>
    (\<forall>s. btree_get s (final_checkpoints (machine P')) = (if sent P s = [] then None else Some (snd (last (sent P s)))))"
proof -
  obtain Q where Q: "pipeline_step\<^sup>*\<^sup>* P Q" "reachable Q" "phase (machine Q) = Draining" "sent Q = sent P" "open_batches Q = {}"
    using drain_all [OF assms] by blast
  have T: "tracks (machine Q) (sent Q) (acked Q)" using reachable_inv [OF Q(2)] by (simp add: pipeline_inv_def)
  have acked: "all_acked Q" using Q(5) by (auto simp: open_batches_def all_acked_def)
  let ?m = "(machine Q)\<lparr>phase := Stopped, forced := False\<rparr>"
  have "stop (machine Q) = Inr ?m" using acked by (simp add: stop_def tracks_drained [OF T])
  then have "pipeline_step Q (Q\<lparr>machine := ?m\<rparr>)" by (rule step_stop [OF Q(3)])
  then have "pipeline_step\<^sup>*\<^sup>* P (Q\<lparr>machine := ?m\<rparr>)" using Q(1) by simp
  moreover have "btree_get s (committed (machine Q)) = (if sent P s = [] then None else Some (snd (last (sent P s))))" for s
    using tracksD(7) [OF T, of s] all_acked_checkpoint [of "sent Q s" "acked Q s"] acked Q(4)
    by (simp add: committed_checkpoint_def all_acked_def)
  ultimately show ?thesis by (intro exI [of _ "Q\<lparr>machine := ?m\<rparr>"]) (simp add: was_forced_def final_checkpoints_def)
qed

theorem drain_can_finish_witness:
  "\<exists>P. pipeline_step\<^sup>*\<^sup>* sample_run P \<and> phase (machine P) = Stopped \<and> \<not> was_forced (machine P) \<and>
     btree_get 7 (final_checkpoints (machine P)) = Some 20"
proof -
  let ?Q = "sample_run\<lparr>machine := begin_drain (machine sample_run)\<rparr>"
  have step: "pipeline_step sample_run ?Q" by (rule step_begin_drain) (simp add: sample_run_def sample_defs)
  have "no_retry ?Q" by (auto simp: no_retry_def sample_run_def sample_defs split: if_splits)
  from drain_can_finish [OF reach_step [OF sample_run_reachable step] _ this] obtain P where
      P: "pipeline_step\<^sup>*\<^sup>* ?Q P" "phase (machine P) = Stopped" "\<not> was_forced (machine P)"
      "\<forall>s. btree_get s (final_checkpoints (machine P)) = (if sent ?Q s = [] then None else Some (snd (last (sent ?Q s))))"
    by (auto simp: begin_drain_def)
  have "sent ?Q 7 = [(0, 10), (1, 20)]" by (simp add: sample_run_def sample_defs)
  with P(4) have "btree_get 7 (final_checkpoints (machine P)) = Some 20" by simp
  with P(1-3) step show ?thesis by (meson converse_rtranclp_into_rtranclp)
qed

subsection \<open>Sending out of order\<close>

definition send_and_ack :: "'c BatchTicket \<Rightarrow> 'c PipelineMachine \<Rightarrow> 'c PipelineMachine" where
  "send_and_ack t m = (case begin_send t m of (t', m) \<Rightarrow> snd (apply_ack (ack t') m))"

text \<open>The batches of a source that are sent and not acknowledged.\<close>

definition open_ids :: "'c pipeline \<Rightarrow> u64 \<Rightarrow> u64 set" where
  "open_ids P s = fst ` set (sent P s) - acked P s"

lemma blocked_first:
  assumes "btree_ok L" and "blocked A L \<noteq> []"
  obtains k where "k \<in> fst ` set L" "k \<notin> A" "\<forall>e\<in>set (blocked A L). k \<le> fst e"
    "btree_first (filter (\<lambda>e. fst e \<notin> A) L) = Some (hd (blocked A L))" "fst (hd (blocked A L)) = k"
proof -
  obtain e D where D: "blocked A L = e # D" using assms(2) by (cases "blocked A L") auto
  have e: "fst e \<notin> A" using D hd_dropWhile [of "\<lambda>e. fst e \<in> A" L] by (simp add: blocked_def)
  have "btree_ok (e # D)" using blocked_ok [OF assms(1), of A] D by simp
  then have min: "\<forall>d\<in>set (blocked A L). fst e \<le> fst d" by (auto simp: btree_ok_def D less_imp_le)
  have "filter (\<lambda>e. fst e \<notin> A) (acked_prefix A L) = []"
    by (auto simp: acked_prefix_def filter_empty_conv dest: set_takeWhileD)
  then have "filter (\<lambda>e. fst e \<notin> A) L = e # filter (\<lambda>e. fst e \<notin> A) D"
    using prefix_blocked [of A L] D e by (metis (mono_tags, lifting) append_Nil filter.simps(2) filter_append)
  moreover have "e \<in> set L" using prefix_blocked [of A L] D by (metis Un_iff list.set_intros(1) set_append)
  ultimately show thesis using that [of "fst e"] e min D by simp
qed

lemma btree_below: "btree_ok ((k, x) # m) \<Longrightarrow> (\<exists>j\<in>fst ` set ((k, x) # m). j < i) \<longleftrightarrow> k < i"
  using btree_cons(4) [of k x m] by (auto intro: less_trans)

text \<open>The loop stops at once when an earlier batch is in flight.\<close>

lemma advance_loop_stops:
  assumes "\<forall>e\<in>set Q. k < fst e"
  shows "advance_loop ((k, x) # F) Q cp adv = (Q, cp, adv)"
proof -
  have "k < j" if "btree_first Q = Some (j, v)" for j v using assms btree_first_in [OF that] by force
  then show ?thesis by (subst advance_loop.simps) (simp split: option.split)
qed

text \<open>The loop after a batch \<open>i\<close> that no history has is acknowledged.\<close>

lemma advance_late:
  assumes L: "btree_ok L" "i \<notin> fst ` set L"
    and F: "F = filter (\<lambda>e. fst e \<notin> A) L" and Q: "Q = filter (\<lambda>e. fst e \<in> A) (blocked A L)"
  shows "fst (snd (advance_loop F (btree_insert i c Q) None False)) =
    (if \<exists>k\<in>fst ` set F. k < i then None else Some c)"
proof (cases "blocked A L = []")
  case True
  then have "L = acked_prefix A L" using prefix_blocked [of A L] by simp
  then have "F = []" unfolding F by (metis (mono_tags, lifting) acked_prefix_def filter_False set_takeWhileD)
  then show ?thesis using True by (simp add: Q advance_loop.simps btree_get_def btree_remove_def)
next
  case False
  then obtain k where k: "k \<in> fst ` set L" "k \<notin> A" "\<forall>e\<in>set (blocked A L). k \<le> fst e"
    and first: "btree_first F = Some (hd (blocked A L))" "fst (hd (blocked A L)) = k"
    unfolding F by (rule blocked_first [OF L(1)])
  obtain x F' where F': "F = (k, x) # F'" using first by (cases F; cases "hd (blocked A L)") auto
  have "btree_ok ((k, x) # F')" using btree_ok_filter [OF L(1), of "\<lambda>e. fst e \<notin> A"] by (simp add: F' flip: F)
  then have least: "(\<exists>j\<in>fst ` set F. j < i) \<longleftrightarrow> k < i" unfolding F' by (rule btree_below)
  have Q': "k < fst e" if "e \<in> set Q" for e
  proof -
    have "fst e \<in> A" "k \<le> fst e" using that k(3) by (simp_all add: Q)
    then show ?thesis using k(2) by (metis le_neq_trans)
  qed
  have "k \<noteq> i" using k(1) L(2) by blast
  show ?thesis
  proof (cases "k < i")
    case True
    have "k < j" if "j \<in> set (map fst (btree_insert i c Q))" for j
      using that True Q' unfolding btree_insert_keys by auto
    then have "\<forall>e\<in>set (btree_insert i c Q). k < fst e" by simp
    then have "advance_loop F (btree_insert i c Q) None False = (btree_insert i c Q, None, False)"
      unfolding F' by (rule advance_loop_stops)
    then show ?thesis using True least by simp
  next
    case late: False
    then have "i < k" using \<open>k \<noteq> i\<close> by simp
    then have less: "i < fst e" if "e \<in> set Q" for e using Q' [OF that] by simp
    have insert: "btree_insert i c Q = (i, c) # Q" using less by (intro btree_insert_first) blast
    have remove: "btree_remove i ((i, c) # Q) = Q" using less by (force simp: btree_remove_def filter_id_conv)
    have rest: "advance_loop F Q (Some c) True = (Q, Some c, True)"
      unfolding F' by (rule advance_loop_stops) (simp add: Q')
    have "advance_loop F ((i, c) # Q) None False = advance_loop F Q (Some c) True"
      using late unfolding F' by (subst advance_loop.simps) (simp add: btree_get_def remove)
    then show ?thesis using late least by (simp add: insert rest)
  qed
qed

lemma btree_remove_insert: "k \<notin> fst ` set m \<Longrightarrow> btree_remove k (btree_insert k v m) = m"
  by (induction k v m rule: btree_insert.induct) (auto simp: btree_remove_def filter_id_conv)

lemma send_and_ack_committed:
  assumes tr: "tracks m S A" and t: "ticket_source t = s" "ticket_id t = i" and new: "i \<notin> fst ` set (S s)"
  shows "committed_checkpoint s (send_and_ack t m) =
    (if \<exists>k\<in>fst ` set (S s) - A s. k < i then committed_checkpoint s m else Some (ticket_checkpoint t))"
proof -
  note T = tracksD [OF tr]
  let ?c = "ticket_checkpoint t" and ?F = "filter (\<lambda>e. fst e \<notin> A s) (S s)"
  let ?Q = "filter (\<lambda>e. fst e \<in> A s) (blocked (A s) (S s))"
  let ?m = "snd (begin_send t m)"
  have flights: "inner s (in_flight ?m) = btree_insert i ?c ?F"
    by (simp add: begin_send_def t inner_entry_insert T(2,5))
  have "btree_get i (btree_insert i ?c ?F) = Some ?c" using T(4) [of s] by (simp add: btree_simps btree_ok_filter)
  then have get: "Option.bind (btree_get s (in_flight ?m)) (btree_get i) = Some ?c" unfolding inner_get flights .
  have remove: "btree_remove i (inner s (in_flight ?m)) = ?F"
    unfolding flights using new by (intro btree_remove_insert) auto
  have pending: "inner s (entry_insert s i ?c (pending_acks ?m)) = btree_insert i ?c ?Q"
    by (simp add: begin_send_def inner_entry_insert T(3,6))
  obtain left cp adv where loop: "advance_loop ?F (btree_insert i ?c ?Q) None False = (left, cp, adv)" by (cases rule: prod_cases3)
  have ids: "fst ` set ?F = fst ` set (S s) - A s" by auto
  have cp: "cp = (if \<exists>k\<in>fst ` set (S s) - A s. k < i then None else Some ?c)"
    using advance_late [OF T(4) new refl refl, where A = "A s" and c = ?c] unfolding loop ids by (simp only: fst_conv snd_conv)
  have "ticket_source (fst (begin_send t m)) = s" "committed ?m = committed m"
    "ticket_id (fst (begin_send t m)) = i" by (simp_all add: begin_send_def t)
  then have "committed (send_and_ack t m) = (case cp of None \<Rightarrow> committed m | Some c \<Rightarrow> btree_insert s c (committed m))"
    using get remove pending loop
    by (cases cp) (simp_all add: send_and_ack_def case_prod_beta apply_ack_def record_ack_and_advance_def ack_def Let_def
        inner_def [symmetric])
  then show ?thesis using T(1) unfolding cp by (simp add: committed_checkpoint_def btree_simps del: Diff_iff)
qed

text \<open>
  Property C20. What happens in any reachable state when a batch is sent that was left behind while later
  ones of its source went out, a send that the step relation excludes and \<^verbatim>\<open>begin_send\<close> accepts. Once it is
  acknowledged, its checkpoint becomes the committed one, whatever was committed before, unless a batch
  with a smaller number is in flight, in which case nothing is committed. So when a later batch is
  committed and no earlier one is in flight, the committed checkpoint goes back.
\<close>

theorem late_send_regresses:
  assumes "reachable P" and "held P i = Some (HeldTicket t)" and "\<not> was_sent P t"
  shows "committed_checkpoint (ticket_source t) (send_and_ack t (machine P)) =
    (if \<exists>k\<in>open_ids P (ticket_source t). k < ticket_id t then committed_checkpoint (ticket_source t) (machine P)
     else Some (ticket_checkpoint t))"
  using send_and_ack_committed [OF _ refl refl, of "machine P" "sent P" "acked P" t] reachable_inv [OF assms(1)] assms(3)
  by (simp add: pipeline_inv_def was_sent_def open_ids_def)

text \<open>Two batches are created, and the second is sent and acknowledged.\<close>

definition late_run :: "nat pipeline" where
  "late_run = sample_acked 1 (sample_sent 1 (sample_created 7 20 (sample_created 7 10 sample_start)))"

lemma late_run_reachable: "reachable late_run"
proof -
  let ?P1 = "sample_created 7 10 sample_start"
  let ?P2 = "sample_created 7 20 ?P1"
  have "reachable ?P1" by (rule sample_created_reachable [OF sample_start_reachable]) (simp add: sample_defs)
  then have "reachable ?P2" by (rule sample_created_reachable) (simp add: sample_defs)
  then have "reachable (sample_sent 1 ?P2)"
    by (rule sample_sent_reachable [where t = "ticket_new 1 7 20"]) (simp_all add: sample_defs)
  then show ?thesis unfolding late_run_def
    by (rule sample_acked_reachable [where t = "ticket_begin_send (ticket_new 1 7 20)"]) (simp_all add: sample_defs)
qed

theorem late_send_regresses_witness:
  "committed_checkpoint 7 (machine late_run) = Some 20 \<and>
   committed_checkpoint 7 (send_and_ack (ticket_new 0 7 10) (machine late_run)) = Some 10"
proof
  have hist: "sent late_run 7 = [(1, 20)]" "acked late_run 7 = {1}"
    "held late_run 0 = Some (HeldTicket (ticket_new 0 7 10))" by (simp_all add: late_run_def sample_defs)
  have "tracks (machine late_run) (sent late_run) (acked late_run)"
    using reachable_inv [OF late_run_reachable] by (simp add: pipeline_inv_def)
  from tracksD(7) [OF this, of 7] show "committed_checkpoint 7 (machine late_run) = Some 20"
    by (simp add: hist prefix_checkpoint_def acked_prefix_def)
  have "\<not> was_sent late_run (ticket_new 0 7 10)" by (simp add: was_sent_def ticket_new_def hist)
  from late_send_regresses [OF late_run_reachable hist(3) this]
  show "committed_checkpoint 7 (send_and_ack (ticket_new 0 7 10) (machine late_run)) = Some 10"
    by (simp add: ticket_new_def open_ids_def hist)
qed

end
