(* ===== verification/Source_Registry.thy ===== *)
theory Source_Registry
  imports Btree_Map
begin

text \<open>
  The registry of data sources, \<^verbatim>\<open>ffwd-types/src/pipeline/registry.rs\<close>: the operations and the
  lifecycle of a source. \<open>None\<close> is an overflow of the generation counter.
\<close>

subsection \<open>Operations\<close>

datatype SourceState = Active | SourceDraining | Committed

record 'm SourceEntry =
  entry_metadata :: 'm
  entry_state :: SourceState
  entry_generation :: u64

record ('k, 'm) SourceRegistry =
  entries :: "('k, 'm SourceEntry) btree"
  current_generation :: u64

definition registry_new :: "('k, 'm) SourceRegistry" where
  "registry_new = \<lparr>entries = [], current_generation = 0\<rparr>"

definition registry_get :: "'k \<Rightarrow> ('k, 'm) SourceRegistry \<Rightarrow> 'm SourceEntry option" where
  "registry_get key r = btree_get key (entries r)"

definition upsert :: "'k::linorder \<Rightarrow> 'm \<Rightarrow> ('k, 'm) SourceRegistry \<Rightarrow> SourceState option \<times> ('k, 'm) SourceRegistry" where
  "upsert key metadata r =
     (map_option entry_state (btree_get key (entries r)),
      r\<lparr>entries := btree_insert key
          \<lparr>entry_metadata = metadata, entry_state = Active, entry_generation = current_generation r\<rparr> (entries r)\<rparr>)"

definition registry_begin_drain :: "'k::linorder \<Rightarrow> ('k, 'm) SourceRegistry \<Rightarrow> bool \<times> ('k, 'm) SourceRegistry" where
  "registry_begin_drain key r =
     (case btree_get key (entries r) of
        Some entry \<Rightarrow>
          if entry_state entry = Active
          then (True, r\<lparr>entries := btree_insert key
                 (entry\<lparr>entry_state := SourceDraining, entry_generation := current_generation r\<rparr>) (entries r)\<rparr>)
          else (False, r)
      | None \<Rightarrow> (False, r))"

definition commit :: "'k::linorder \<Rightarrow> ('k, 'm) SourceRegistry \<Rightarrow> bool \<times> ('k, 'm) SourceRegistry" where
  "commit key r =
     (case btree_get key (entries r) of
        Some entry \<Rightarrow>
          if entry_state entry = SourceDraining
          then (True, r\<lparr>entries := btree_insert key
                 (entry\<lparr>entry_state := Committed, entry_generation := current_generation r\<rparr>) (entries r)\<rparr>)
          else (False, r)
      | None \<Rightarrow> (False, r))"

definition registry_metadata :: "'k \<Rightarrow> ('k, 'm) SourceRegistry \<Rightarrow> 'm option" where
  "registry_metadata key r = map_option entry_metadata (btree_get key (entries r))"

definition tick :: "('k, 'm) SourceRegistry \<Rightarrow> ('k, 'm) SourceRegistry option" where
  "tick r = (if current_generation r = -1 then None
             else Some (r\<lparr>current_generation := current_generation r + 1\<rparr>))"

definition prune_committed :: "u64 \<Rightarrow> ('k, 'm) SourceRegistry \<Rightarrow> nat \<times> ('k, 'm) SourceRegistry" where
  "prune_committed min_generation r =
     (let before = length (entries r);
          kept = filter (\<lambda>e. \<not> (entry_state (snd e) = Committed \<and> entry_generation (snd e) < min_generation)) (entries r)
      in (before - length kept, r\<lparr>entries := kept\<rparr>))"

definition registry_len :: "('k, 'm) SourceRegistry \<Rightarrow> nat" where
  "registry_len r = length (entries r)"

definition registry_is_empty :: "('k, 'm) SourceRegistry \<Rightarrow> bool" where
  "registry_is_empty r \<longleftrightarrow> entries r = []"

subsection \<open>The lifecycle of a source\<close>

text \<open>The states a source can move to in one operation; \<open>None\<close> is unknown or pruned.\<close>

inductive source_move :: "SourceState option \<Rightarrow> SourceState option \<Rightarrow> bool" where
  move_stay: "source_move x x"
| move_activate: "source_move x (Some Active)"
| move_drain: "source_move (Some Active) (Some SourceDraining)"
| move_commit: "source_move (Some SourceDraining) (Some Committed)"
| move_prune: "source_move (Some Committed) None"

inductive registry_step :: "('k::linorder, 'm) SourceRegistry \<Rightarrow> ('k, 'm) SourceRegistry \<Rightarrow> bool" where
  reg_upsert: "registry_step r (snd (upsert key metadata r))"
| reg_begin_drain: "registry_step r (snd (registry_begin_drain key r))"
| reg_commit: "registry_step r (snd (commit key r))"
| reg_tick: "tick r = Some r' \<Longrightarrow> registry_step r r'"
| reg_prune: "registry_step r (snd (prune_committed g r))"

definition source_state :: "'k \<Rightarrow> ('k, 'm) SourceRegistry \<Rightarrow> SourceState option" where
  "source_state key r = map_option entry_state (registry_get key r)"

text \<open>No entry has a generation in the future.\<close>

definition registry_ok :: "('k::linorder, 'm) SourceRegistry \<Rightarrow> bool" where
  "registry_ok r \<longleftrightarrow> btree_ok (entries r) \<and> (\<forall>key entry. registry_get key r = Some entry \<longrightarrow> entry_generation entry \<le> current_generation r)"

lemma registry_step_ok:
  assumes "registry_step r r'" and ok: "registry_ok r"
  shows "registry_ok r'"
proof -
  have b: "btree_ok (entries r)" and g: "\<And>key entry. registry_get key r = Some entry \<Longrightarrow> entry_generation entry \<le> current_generation r"
    using ok by (simp_all add: registry_ok_def)
  from assms(1) show ?thesis
  proof cases
    case (reg_upsert key metadata)
    with b g show ?thesis by (auto simp: registry_ok_def registry_get_def upsert_def btree_simps split: if_splits)
  next
    case (reg_begin_drain key)
    with b g show ?thesis
      by (auto simp: registry_ok_def registry_get_def registry_begin_drain_def btree_simps split: if_splits option.splits)
  next
    case (reg_commit key)
    with b g show ?thesis by (auto simp: registry_ok_def registry_get_def commit_def btree_simps split: if_splits option.splits)
  next
    case reg_tick
    then have n: "current_generation r \<noteq> -1" and r': "r' = r\<lparr>current_generation := current_generation r + 1\<rparr>"
      by (auto simp: tick_def split: if_splits)
    have "entry_generation e \<le> current_generation r + 1" if "registry_get k r = Some e" for k e
      using g [OF that] u64_suc [OF n] by (simp add: order_less_imp_le)
    with b show ?thesis by (simp add: registry_ok_def r' registry_get_def)
  next
    case (reg_prune gen)
    have "registry_get k r = Some e" if "registry_get k r' = Some e" for k e
      using that by (auto simp: reg_prune registry_get_def prune_committed_def Let_def btree_get_filter [OF b] split: option.splits if_splits)
    with b g show ?thesis by (auto simp: registry_ok_def reg_prune prune_committed_def Let_def)
  qed
qed

text \<open>
  Property C16. Whatever operation runs, a source moves only along its lifecycle: it becomes draining only when
  active and committed only when draining, it can be activated at any time, and it disappears only when it is committed
  and older than the pruning bound, which is never so for one updated in the current generation. No entry ever has a
  generation in the future.
\<close>

theorem registry_lifecycle:
  assumes "registry_ok r" and "registry_step r r'"
  shows "registry_ok r' \<and> source_move (source_state key r) (source_state key r') \<and>
    (registry_get key r \<noteq> None \<and> registry_get key r' = None \<longrightarrow>
      (\<exists>g entry. r' = snd (prune_committed g r) \<and> registry_get key r = Some entry \<and> entry_state entry = Committed \<and> entry_generation entry < g))"
proof -
  have b: "btree_ok (entries r)" using assms(1) by (simp add: registry_ok_def)
  from assms(2) have "source_move (source_state key r) (source_state key r') \<and>
    (registry_get key r \<noteq> None \<and> registry_get key r' = None \<longrightarrow>
      (\<exists>g entry. r' = snd (prune_committed g r) \<and> registry_get key r = Some entry \<and> entry_state entry = Committed \<and> entry_generation entry < g))"
  proof cases
    case (reg_upsert k metadata)
    with b show ?thesis
      by (auto simp: source_state_def registry_get_def upsert_def btree_simps intro: source_move.intros)
  next
    case (reg_begin_drain k)
    with b show ?thesis
      by (auto simp: source_state_def registry_get_def registry_begin_drain_def btree_simps split: option.splits intro: source_move.intros)
  next
    case (reg_commit k)
    with b show ?thesis
      by (auto simp: source_state_def registry_get_def commit_def btree_simps split: option.splits intro: source_move.intros)
  next
    case reg_tick
    then show ?thesis by (auto simp: source_state_def registry_get_def tick_def split: if_splits intro: source_move.intros)
  next
    case (reg_prune g)
    show ?thesis
    proof (cases "registry_get key r")
      case None
      with b reg_prune have "registry_get key r' = None" by (simp add: registry_get_def prune_committed_def Let_def btree_get_filter)
      with None show ?thesis by (simp add: source_state_def move_stay)
    next
      case (Some e)
      with b have "registry_get key r' = (if entry_state e = Committed \<and> entry_generation e < g then None else Some e)"
        by (simp add: reg_prune registry_get_def prune_committed_def Let_def btree_get_filter)
      with Some reg_prune show ?thesis by (auto simp: source_state_def intro: move_stay move_prune)
    qed
  qed
  with registry_step_ok [OF assms(2,1)] show ?thesis by blast
qed

definition sample_registry :: "(nat, nat) SourceRegistry" where
  "sample_registry = snd (upsert 1 5 registry_new)"

lemma sample_registry_drain:
  "registry_begin_drain 1 sample_registry =
     (True, \<lparr>entries = [(1, \<lparr>entry_metadata = 5, entry_state = SourceDraining, entry_generation = 0\<rparr>)], current_generation = 0\<rparr>)"
  by (simp add: sample_registry_def upsert_def registry_new_def registry_begin_drain_def btree_get_def)

lemma sample_registry_ok: "registry_ok sample_registry"
  unfolding sample_registry_def
  by (rule registry_step_ok [OF reg_upsert]) (simp add: registry_ok_def registry_new_def btree_ok_def registry_get_def btree_simps)

theorem registry_lifecycle_witness:
  "source_move (source_state 1 sample_registry) (source_state 1 (snd (registry_begin_drain 1 sample_registry))) \<and>
   source_state 1 (snd (registry_begin_drain 1 sample_registry)) = Some SourceDraining"
proof
  show "source_move (source_state 1 sample_registry) (source_state 1 (snd (registry_begin_drain 1 sample_registry)))"
    using registry_lifecycle [OF sample_registry_ok reg_begin_drain] by blast
  show "source_state 1 (snd (registry_begin_drain 1 sample_registry)) = Some SourceDraining"
    unfolding sample_registry_drain by (simp add: source_state_def registry_get_def btree_get_def)
qed

end
