(* ===== verification/Otlp_Wire.thy ===== *)
theory Otlp_Wire
  imports Prelude
begin

text \<open>
  The protobuf wire format of \<^verbatim>\<open>ffwd-core/src/otlp.rs\<close>: varints, tags and the four field
  encodings the OTLP encoder writes, the sizes it precomputes, and the decoders with
  their error strings. Encoders append to the buffer they are given, as the code appends
  to its \<^verbatim>\<open>Vec<u8>\<close>. A \<^verbatim>\<open>Result<_, &'static str>\<close> is a sum with the message on the left.

  The reference encoding \<open>varint\<close> is over the naturals. The lemmas show that the code
  writes it, that its precomputed lengths are exact, and which values its decoder gives
  back.
\<close>

type_synonym 'a wire_result = "string + 'a"

subsection \<open>Encoders\<close>

function encode_varint :: "bytes \<Rightarrow> u64 \<Rightarrow> bytes" where
  "encode_varint buf v =
     (if v < 0x80 then buf @ [ucast v]
      else encode_varint (buf @ [(ucast v AND 0x7F) OR 0x80]) (drop_bit 7 v))"
  by pat_completeness auto
termination
  by (relation "measure (unat \<circ> snd)")
    (auto simp: word_less_nat_alt unat_drop_bit_eq drop_bit_eq_div [where 'a = nat] intro!: div_less_dividend)

declare encode_varint.simps [simp del]

definition varint_len :: "u64 \<Rightarrow> nat" where
  "varint_len v =
     (if v \<le> 0x7F then 1
      else if v \<le> 0x3FFF then 2
      else if v \<le> 0x1FFFFF then 3
      else if v \<le> 0xFFFFFFF then 4
      else if v \<le> 0x7FFFFFFFF then 5
      else if v \<le> 0x3FFFFFFFFFF then 6
      else if v \<le> 0x1FFFFFFFFFFFF then 7
      else if v \<le> 0xFFFFFFFFFFFFFF then 8
      else if v \<le> 0x7FFFFFFFFFFFFFFF then 9
      else 10)"

text \<open>\<^verbatim>\<open>((field_number as u64) << 3) | wire_type as u64\<close>.\<close>

definition encode_tag :: "bytes \<Rightarrow> u32 \<Rightarrow> u8 \<Rightarrow> bytes" where
  "encode_tag buf field_number wire_type =
     encode_varint buf (push_bit 3 (ucast field_number) OR ucast wire_type)"

text \<open>\<^verbatim>\<open>u64::to_le_bytes\<close> and \<^verbatim>\<open>u32::to_le_bytes\<close>, and their inverses.\<close>

definition to_le_bytes64 :: "u64 \<Rightarrow> bytes" where
  "to_le_bytes64 v = map (\<lambda>i. ucast (drop_bit (8 * i) v)) [0..<8]"

definition to_le_bytes32 :: "u32 \<Rightarrow> bytes" where
  "to_le_bytes32 v = map (\<lambda>i. ucast (drop_bit (8 * i) v)) [0..<4]"

definition from_le_bytes :: "bytes \<Rightarrow> 'a :: len word" where
  "from_le_bytes bs = foldr (\<lambda>b acc. push_bit 8 acc OR ucast b) bs 0"

definition encode_fixed64 :: "bytes \<Rightarrow> u32 \<Rightarrow> u64 \<Rightarrow> bytes" where
  "encode_fixed64 buf field_number v = encode_tag buf field_number 1 @ to_le_bytes64 v"

definition encode_varint_field :: "bytes \<Rightarrow> u32 \<Rightarrow> u64 \<Rightarrow> bytes" where
  "encode_varint_field buf field_number v = encode_varint (encode_tag buf field_number 0) v"

definition encode_bytes_field :: "bytes \<Rightarrow> u32 \<Rightarrow> bytes \<Rightarrow> bytes" where
  "encode_bytes_field buf field_number data =
     encode_varint (encode_tag buf field_number 2) (of_nat (length data)) @ data"

definition encode_fixed32 :: "bytes \<Rightarrow> u32 \<Rightarrow> u32 \<Rightarrow> bytes" where
  "encode_fixed32 buf field_number v = encode_tag buf field_number 5 @ to_le_bytes32 v"

definition tag_size :: "u32 \<Rightarrow> nat" where
  "tag_size field_number = varint_len (push_bit 3 (ucast field_number) OR 2)"

definition bytes_field_total_size :: "u32 \<Rightarrow> nat \<Rightarrow> nat" where
  "bytes_field_total_size field_number data_len =
     tag_size field_number + varint_len (of_nat data_len) + data_len"

definition bytes_field_size :: "u32 \<Rightarrow> nat \<Rightarrow> nat" where
  "bytes_field_size field_number data_len = bytes_field_total_size field_number data_len"

subsection \<open>Decoders\<close>

text \<open>
  The loop of \<^verbatim>\<open>decode_varint\<close>. \<^verbatim>\<open>shift\<close> stays at most 70, so its \<^verbatim>\<open>u32\<close> addition
  never overflows, and the shift by \<^verbatim>\<open>shift\<close> is only reached below 64.
\<close>

function decode_varint_loop :: "bytes \<Rightarrow> u64 \<Rightarrow> nat \<Rightarrow> nat \<Rightarrow> (u64 \<times> nat) wire_result" where
  "decode_varint_loop buf v shift i =
     (if length buf \<le> i then Inl ''varint: unexpected end of input''
      else let byte = buf ! i;
               v' = v OR push_bit shift (ucast (byte AND 0x7F))
           in if byte AND 0x80 = 0 then Inr (v', i + 1)
              else if 64 \<le> shift + 7 \<or> shift + 7 = 63 \<and> 1 < byte AND 0x7F
                   then Inl ''varint: too many bytes''
              else decode_varint_loop buf v' (shift + 7) (i + 1))"
  by pat_completeness auto
termination
  by (relation "measure (\<lambda>(buf, v, shift, i). length buf - i)") auto

declare decode_varint_loop.simps [simp del]

definition decode_varint :: "bytes \<Rightarrow> nat \<Rightarrow> (u64 \<times> nat) wire_result" where
  "decode_varint buf pos = decode_varint_loop buf 0 0 pos"

definition decode_tag :: "bytes \<Rightarrow> nat \<Rightarrow> (u32 \<times> u8 \<times> nat) wire_result" where
  "decode_tag buf pos =
     (case decode_varint buf pos of
        Inl e \<Rightarrow> Inl e
      | Inr (tag, new_pos) \<Rightarrow> Inr (ucast (drop_bit 3 tag), ucast (tag AND 0x07), new_pos))"

text \<open>
  \<^verbatim>\<open>pos.checked_add(n)\<close> against the buffer end: overflow of \<^verbatim>\<open>usize\<close> and running past the
  buffer give the same error in each branch of \<^verbatim>\<open>skip_field\<close>.
\<close>

definition checked_add_usize :: "nat \<Rightarrow> nat \<Rightarrow> nat option" where
  [arith_defs]: "checked_add_usize a b = (if a + b \<le> usize_max then Some (a + b) else None)"

definition skip_advance :: "bytes \<Rightarrow> nat \<Rightarrow> nat \<Rightarrow> string \<Rightarrow> nat wire_result" where
  "skip_advance buf pos n err =
     (case checked_add_usize pos n of
        None \<Rightarrow> Inl err
      | Some e \<Rightarrow> if length buf < e then Inl err else Inr e)"

definition skip_field :: "bytes \<Rightarrow> u8 \<Rightarrow> nat \<Rightarrow> nat wire_result" where
  "skip_field buf wire_type pos =
     (if wire_type = 0 then
        (case decode_varint buf pos of Inl e \<Rightarrow> Inl e | Inr (_, new_pos) \<Rightarrow> Inr new_pos)
      else if wire_type = 1 then skip_advance buf pos 8 ''skip: truncated fixed64''
      else if wire_type = 2 then
        (case decode_varint buf pos of
           Inl e \<Rightarrow> Inl e
         | Inr (len, new_pos) \<Rightarrow>
             skip_advance buf new_pos (unat len) ''skip: length-delimited overflow'')
      else if wire_type = 5 then skip_advance buf pos 4 ''skip: truncated fixed32''
      else Inl ''skip: unsupported wire type'')"

subsection \<open>The reference encoding\<close>

fun varint :: "nat \<Rightarrow> bytes" where
  "varint n = (if n < 128 then [of_nat n] else of_nat (n mod 128 + 128) # varint (n div 128))"

declare varint.simps [simp del]

lemma unat_low_bits: "unat ((b :: 'a :: len word) AND 0x7F) = unat b mod 128"
proof -
  have "b AND 0x7F = take_bit 7 b"
    by (simp add: take_bit_eq_mask mask_eq_exp_minus_1)
  then show ?thesis by (simp add: unsigned_take_bit_eq take_bit_eq_mod [where 'a = nat])
qed

lemma nat_or_shifted: "a < 2 ^ k \<Longrightarrow> a OR push_bit k b = a + b * 2 ^ k" for a b :: nat
proof -
  assume "a < 2 ^ k"
  then have a: "take_bit k a = a" by (simp add: take_bit_nat_eq_self_iff)
  have "take_bit k a AND push_bit k b = 0"
    by (rule bit_eqI) (auto simp: bit_simps)
  then show ?thesis
    unfolding a by (simp add: push_bit_eq_mult flip: disjunctive_add_eq_or)
qed

lemma unat_or_shifted:
  fixes a b :: "'a :: len word"
  assumes "unat a < 2 ^ k" and "unat b * 2 ^ k < 2 ^ LENGTH('a)"
  shows "unat (a OR push_bit k b) = unat a + unat b * 2 ^ k"
proof -
  have "unat (push_bit k b) = push_bit k (unat b)"
    using assms(2) by (simp add: unsigned_push_bit_eq push_bit_eq_mult [where 'a = nat] take_bit_nat_eq_self_iff)
  then show ?thesis using assms(1) by (simp add: unsigned_or_eq nat_or_shifted)
qed

lemma continuation_bit: "(b :: u8) AND 0x80 = 0 \<longleftrightarrow> unat b < 128"
proof -
  have "b AND 0x80 = 0 \<longleftrightarrow> \<not> bit b 7"
    using and_exp_eq_0_iff_not_bit [of b 7] by simp
  also have "bit b 7 \<longleftrightarrow> odd (unat b div 128)"
    using bit_unsigned_iff [where 'a = nat, of b 7] by (simp add: bit_iff_odd [where 'a = nat])
  also have "odd (unat b div 128) \<longleftrightarrow> \<not> unat b < 128"
  proof (cases "unat b < 128")
    case False
    moreover have "unat b < 256" using unsigned_less [of b] by simp
    ultimately have "unat b div 128 = 1" by (intro div_nat_eqI) simp_all
    then show ?thesis using False by simp
  qed simp
  finally show ?thesis by simp
qed

lemma unat_more_byte: "unat ((b AND 0x7F) OR 0x80 :: u8) = unat b mod 128 + 128"
  using unat_or_shifted [of "b AND 0x7F" 7 1] by (simp add: unat_low_bits)

lemma unat_drop7: "unat (drop_bit 7 (v :: u64)) = unat v div 128"
  by (simp add: unat_drop_bit_eq drop_bit_eq_div [where 'a = nat])

lemma byte_of_nat: "n < 256 \<Longrightarrow> b = of_nat n \<longleftrightarrow> unat (b :: u8) = n"
  by (auto simp: unat_of_nat)

lemma unat_ucast_u8: "unat (ucast (v :: u64) :: u8) = unat v mod 256"
  by (simp add: unsigned_ucast_eq take_bit_eq_mod [where 'a = nat])

lemma encode_varint_eq: "encode_varint buf v = buf @ varint (unat v)"
proof (induction buf v rule: encode_varint.induct)
  case (1 buf v)
  show ?case
  proof (cases "v < 0x80")
    case True
    then have small: "unat v < 128" by (simp add: word_less_nat_alt)
    then have "ucast v = (of_nat (unat v) :: u8)"
      by (subst byte_of_nat) (simp_all add: unat_ucast_u8)
    then show ?thesis using True small by (simp add: encode_varint.simps varint.simps)
  next
    case False
    then have big: "\<not> unat v < 128" by (simp add: word_less_nat_alt)
    have "(ucast v AND 0x7F) OR 0x80 = (of_nat (unat v mod 128 + 128) :: u8)"
      by (subst byte_of_nat) (simp_all add: unat_more_byte unat_ucast_u8 mod_mod_cancel)
    with False big 1 [OF False] show ?thesis
      by (simp add: encode_varint.simps [of buf v] varint.simps [of "unat v"] unat_drop7)
  qed
qed

lemma length_varint_pos [simp]: "varint n \<noteq> []"
  by (simp add: varint.simps [of n])

lemma length_varint_le:
  "0 < k \<Longrightarrow> n < 2 ^ (7 * k) \<Longrightarrow> length (varint n) \<le> k"
proof (induction k arbitrary: n)
  case (Suc k)
  show ?case
  proof (cases "n < 128")
    case False
    with Suc.prems have "0 < k" by (cases k) auto
    moreover have "n div 128 < 2 ^ (7 * k)"
      using Suc.prems by (simp add: div_less_iff_less_mult power_add)
    ultimately show ?thesis using Suc.IH False by (simp add: varint.simps [of n])
  qed (simp add: varint.simps)
qed simp

lemma length_varint_ge: "2 ^ (7 * k) \<le> n \<Longrightarrow> k < length (varint n)"
proof (induction k arbitrary: n)
  case (Suc k)
  then have "128 \<le> n" using order_trans [of 128 "2 ^ (7 * Suc k)" n] by (simp add: power_add)
  moreover have "2 ^ (7 * k) \<le> n div 128"
    using Suc.prems by (simp add: less_eq_div_iff_mult_less_eq power_add)
  ultimately show ?case using Suc.IH by (simp add: varint.simps [of n])
qed simp

lemma length_varintI:
  "2 ^ (7 * (k - 1)) \<le> n \<or> k = 1 \<Longrightarrow> n < 2 ^ (7 * k) \<Longrightarrow> 0 < k \<Longrightarrow> length (varint n) = k"
  using length_varint_le [of k n] length_varint_ge [of "k - 1" n] length_greater_0_conv [of "varint n"]
  by (cases k) (auto simp: Suc_le_eq intro: le_antisym)

lemma varint_len_eq: "varint_len v = length (varint (unat v))"
proof -
  have "unat v < 2 ^ (7 * 10)" using u64_bound [of v] by simp
  then show ?thesis
    by (auto simp: varint_len_def word_le_nat_alt intro!: length_varintI length_varintI [symmetric])
qed

subsection \<open>Fields\<close>

definition tag_value :: "u32 \<Rightarrow> u8 \<Rightarrow> nat" where
  "tag_value field_number wire_type = unat wire_type + unat field_number * 8"

lemma unat_tag:
  assumes "wire_type < 8"
  shows "unat (push_bit 3 (ucast (field_number :: u32)) OR ucast (wire_type :: u8) :: u64) =
    tag_value field_number wire_type"
proof -
  have w: "unat wire_type < 8" using assms by (simp add: word_less_nat_alt)
  have bound: "unat field_number < 2 ^ 32" using unsigned_less [where 'a = nat, of field_number] by simp
  then have f: "unat (ucast field_number :: u64) = unat field_number"
    by (simp add: unsigned_ucast_eq take_bit_nat_eq_self_iff)
  have wt: "unat (ucast wire_type :: u64) = unat wire_type"
    using w by (simp add: unsigned_ucast_eq take_bit_nat_eq_self_iff)
  from bound have "unat (ucast wire_type OR push_bit 3 (ucast field_number) :: u64) =
      unat wire_type + unat field_number * 2 ^ 3"
    using w by (subst unat_or_shifted) (simp_all add: f wt)
  then show ?thesis by (simp add: tag_value_def or.commute)
qed

lemma tag_value_bound: "wire_type < 8 \<Longrightarrow> tag_value field_number wire_type < 2 ^ 35"
  using unsigned_less [where 'a = nat, of field_number] by (simp add: tag_value_def word_less_nat_alt)

lemma encode_tag_eq:
  "wire_type < 8 \<Longrightarrow> encode_tag buf field_number wire_type = buf @ varint (tag_value field_number wire_type)"
  by (simp add: encode_tag_def encode_varint_eq unat_tag)

lemma length_le_bytes [simp]: "length (to_le_bytes64 v) = 8" "length (to_le_bytes32 w) = 4"
  by (simp_all add: to_le_bytes64_def to_le_bytes32_def)

text \<open>The precomputed sizes are the lengths the encoders write.\<close>

lemma length_encode_bytes_field:
  assumes "length data < 2 ^ 64"
  shows "length (encode_bytes_field buf field_number data) =
    length buf + bytes_field_size field_number (length data)"
proof -
  have "unat (of_nat (length data) :: u64) = length data"
    using assms by (simp add: unat_of_nat)
  moreover have "tag_size field_number = length (varint (tag_value field_number 2))"
    using unat_tag [of 2 field_number] by (simp add: tag_size_def varint_len_eq)
  ultimately show ?thesis
    by (simp add: encode_bytes_field_def encode_tag_eq encode_varint_eq bytes_field_size_def
        bytes_field_total_size_def varint_len_eq)
qed

subsection \<open>What the decoder of the core gives back\<close>

text \<open>
  The values the decoder of \<^verbatim>\<open>otlp.rs\<close> gives back: the test on the ninth byte (bits 56 to
  62 of the value) applies to every value that needs a tenth one.
\<close>

definition core_decodable :: "u64 \<Rightarrow> bool" where
  "core_decodable v \<longleftrightarrow> v < 2 ^ 63 \<or> drop_bit 56 v AND 0x7F \<le> 1"

lemma or_group:
  assumes "unat (v :: u64) < 2 ^ shift" and "unat b mod 128 * 2 ^ shift < 2 ^ 64"
  shows "v OR push_bit shift (ucast ((b :: u8) AND 0x7F)) = v + of_nat (unat b mod 128 * 2 ^ shift)"
proof -
  let ?u = "ucast (b AND 0x7F) :: u64"
  define k where "k = unat b mod 128 * 2 ^ shift"
  have u: "unat ?u = unat b mod 128"
    by (simp add: unsigned_ucast_eq unat_low_bits take_bit_nat_eq_self_iff)
  have "unat (v OR push_bit shift ?u) = unat v + k"
    using assms by (subst unat_or_shifted) (simp_all add: u k_def)
  then have "of_nat (unat (v OR push_bit shift ?u)) = (of_nat (unat v + k) :: u64)" by (rule arg_cong)
  then show ?thesis unfolding k_def [symmetric] by simp
qed

lemma varint_loop_step:
  assumes "drop i buf = b # rest" and "unat v < 2 ^ shift" and "unat b mod 128 * 2 ^ shift < 2 ^ 64"
  shows "decode_varint_loop buf v shift i =
     (let v' = v + of_nat (unat b mod 128 * 2 ^ shift)
      in if unat b < 128 then Inr (v', i + 1)
         else if 64 \<le> shift + 7 \<or> shift + 7 = 63 \<and> 1 < unat b mod 128
              then Inl ''varint: too many bytes''
         else decode_varint_loop buf v' (shift + 7) (i + 1))"
proof -
  have b: "i < length buf" "buf ! i = b"
    using assms(1) by (auto simp: nth_via_drop intro: ccontr)
  then show ?thesis
    using or_group [OF assms(2,3)] by (subst decode_varint_loop.simps)
      (simp add: Let_def continuation_bit word_less_nat_alt unat_low_bits)
qed

lemma continued_shift_le:
  assumes "128 \<le> n" and "n * 2 ^ shift < (2 :: nat) ^ 64"
  shows "shift \<le> 56"
proof (rule ccontr)
  assume "\<not> shift \<le> 56"
  then have "(2 :: nat) ^ 57 \<le> 2 ^ shift" by (intro power_increasing) simp_all
  with assms(1) have "128 * 2 ^ 57 \<le> n * 2 ^ shift" by (intro mult_le_mono) simp_all
  then show False using assms(2) by simp
qed

lemma low_group_split:
  "n * 2 ^ shift = n mod 128 * 2 ^ shift + n div 128 * 2 ^ (shift + 7)" for n :: nat
  using add_mult_distrib [of "n mod 128" "n div 128 * 128" "2 ^ shift"]
  by (simp add: power_add mult.assoc mult.commute)

lemma unat_add_group:
  assumes "unat (v :: u64) < 2 ^ shift" and "g < 128" and "shift \<le> 56"
  shows "unat (v + of_nat (g * 2 ^ shift)) = unat v + g * 2 ^ shift"
    and "unat v + g * 2 ^ shift < 2 ^ (shift + 7)"
proof -
  have "g * 2 ^ shift \<le> 127 * 2 ^ shift" using assms(2) by (intro mult_le_mono1) linarith
  then have "unat v + g * 2 ^ shift < 128 * 2 ^ shift" using assms(1) by linarith
  then show small: "unat v + g * 2 ^ shift < 2 ^ (shift + 7)" by (simp add: power_add mult.commute)
  have "(2 :: nat) ^ (shift + 7) \<le> 2 ^ 63" using assms(3) by (intro power_increasing) simp_all
  then show "unat (v + of_nat (g * 2 ^ shift)) = unat v + g * 2 ^ shift"
    using small by (simp add: unat_word_ariths unat_of_nat del: of_nat_mult)
qed

lemma decode_loop_varint:
  assumes "drop i buf = varint n @ rest" and "unat v < 2 ^ shift" and "n * 2 ^ shift < 2 ^ 64"
    and "7 dvd shift" and "shift \<le> 63"
  shows "decode_varint_loop buf v shift i =
     (if shift \<le> 56 \<and> 128 \<le> n div 2 ^ (56 - shift) \<and> 1 < n div 2 ^ (56 - shift) mod 128
      then Inl ''varint: too many bytes''
      else Inr (v + of_nat (n * 2 ^ shift), i + length (varint n)))"
  using assms
proof (induction n arbitrary: v shift i rule: varint.induct)
  case (1 n)
  show ?case
  proof (cases "n < 128")
    case True
    have "n div 2 ^ (56 - shift) \<le> n" by simp
    then have "\<not> 128 \<le> n div 2 ^ (56 - shift)" using True by linarith
    moreover have "unat (of_nat n :: u8) = n" using True by (simp add: unat_of_nat)
    ultimately show ?thesis
      using 1(3,4) True varint_loop_step [of i buf "of_nat n" rest v shift]
        1(2) [unfolded varint.simps [of n]]
      by (simp add: varint.simps [of n] Let_def del: of_nat_mult)
  next
    case False
    define b :: u8 where "b = of_nat (n mod 128 + 128)"
    have b: "unat b = n mod 128 + 128"
      unfolding b_def by (rule byte_of_nat [THEN iffD1, OF _ refl]) simp
    have d: "drop i buf = b # varint (n div 128) @ rest"
      using 1(2) False by (simp add: varint.simps [of n] b_def)
    have sh: "shift \<le> 56" using continued_shift_le [OF _ 1(4)] False by simp
    define k where "k = n mod 128 * 2 ^ shift"
    have k: "k \<le> n * 2 ^ shift" unfolding k_def by simp
    have step: "decode_varint_loop buf v shift i =
       (if shift = 56 \<and> 1 < n mod 128 then Inl ''varint: too many bytes''
        else decode_varint_loop buf (v + of_nat k) (shift + 7) (i + 1))"
      using varint_loop_step [OF d 1(3)] k 1(4) sh by (simp add: b Let_def flip: k_def)
    have small: "unat (v + of_nat k) < 2 ^ (shift + 7)"
      using unat_add_group [OF 1(3) _ sh, of "n mod 128"] by (simp add: k_def)
    have split: "n * 2 ^ shift = k + n div 128 * 2 ^ (shift + 7)"
      unfolding k_def by (rule low_group_split)
    have dvd: "7 dvd shift + 7" using 1(5) by simp
    have rec: "decode_varint_loop buf (v + of_nat k) (shift + 7) (i + 1) =
       (if shift + 7 \<le> 56 \<and> 128 \<le> n div 128 div 2 ^ (56 - (shift + 7)) \<and>
           1 < n div 128 div 2 ^ (56 - (shift + 7)) mod 128
        then Inl ''varint: too many bytes''
        else Inr (v + of_nat k + of_nat (n div 128 * 2 ^ (shift + 7)), i + 1 + length (varint (n div 128))))"
    proof (rule 1(1) [OF False _ _ _ dvd])
      show "drop (i + 1) buf = varint (n div 128) @ rest"
        using d by (metis Suc_eq_plus1 drop_Suc list.sel(3) tl_drop)
      show "unat (v + of_nat k) < 2 ^ (shift + 7)" by (rule small)
      show "n div 128 * 2 ^ (shift + 7) < 2 ^ 64" using split 1(4) by linarith
      show "shift + 7 \<le> 63" using sh by simp
    qed
    have sum: "v + of_nat k + of_nat (n div 128 * 2 ^ (shift + 7)) = v + of_nat (n * 2 ^ shift)"
      unfolding split of_nat_add by (simp only: add.assoc)
    have len: "i + 1 + length (varint (n div 128)) = i + length (varint n)"
      using False by (simp add: varint.simps [of n])
    show ?thesis
    proof (cases "shift = 56")
      case True
      then show ?thesis using step rec sum len False by simp
    next
      case ne: False
      with sh 1(5) have lt: "shift + 7 \<le> 56" by (auto elim!: dvdE)
      then have "56 - shift = 7 + (56 - (shift + 7))" by simp
      then have "n div 2 ^ (56 - shift) = n div 128 div 2 ^ (56 - (shift + 7))"
        by (simp only: power_add div_mult2_eq) simp
      then show ?thesis using step rec sum len lt ne sh by simp
    qed
  qed
qed

text \<open>
  Property C8. Encoding a varint and decoding it with the decoder of the core gives the
  value back, and the position just after it, for exactly the values \<open>core_decodable\<close>
  describes; every other value that the encoder can write is rejected.
\<close>

theorem core_varint_roundtrip:
  "decode_varint (encode_varint buf v @ rest) (length buf) =
     (if core_decodable v then Inr (v, length (encode_varint buf v))
      else Inl ''varint: too many bytes'')"
proof -
  have "v < 2 ^ 63 \<longleftrightarrow> unat v < 2 ^ 63" by (simp add: word_less_nat_alt)
  moreover have "unat v < 2 ^ 63 \<longleftrightarrow> unat v div 2 ^ 56 < 128"
    by (simp add: div_less_iff_less_mult)
  moreover have "drop_bit 56 v AND 0x7F \<le> 1 \<longleftrightarrow> unat v div 2 ^ 56 mod 128 \<le> 1"
    by (simp add: word_le_nat_alt unat_low_bits unat_drop_bit_eq drop_bit_eq_div [where 'a = nat])
  ultimately have "core_decodable v \<longleftrightarrow>
      \<not> (128 \<le> unat v div 2 ^ 56 \<and> 1 < unat v div 2 ^ 56 mod 128)"
    unfolding core_decodable_def by linarith
  moreover have "decode_varint_loop (buf @ varint (unat v) @ rest) 0 0 (length buf) =
     (if 0 \<le> (56 :: nat) \<and> 128 \<le> unat v div 2 ^ (56 - 0) \<and> 1 < unat v div 2 ^ (56 - 0) mod 128
      then Inl ''varint: too many bytes''
      else Inr (0 + of_nat (unat v * 2 ^ 0), length buf + length (varint (unat v))))"
    using u64_bound [of v] by (intro decode_loop_varint [where rest = rest]) simp_all
  ultimately show ?thesis by (simp add: decode_varint_def encode_varint_eq)
qed

end
