(* ===== verification/Otlp_Reader.thy ===== *)
theory Otlp_Reader
  imports Otlp_Wire Rust_Std
begin

text \<open>
  The protobuf reader of the OTLP receiver, \<^verbatim>\<open>ffwd-io/src/otlp_receiver/projection/wire.rs\<close>:
  varints with their one-byte fast path, field keys, groups, the field walk
  \<^verbatim>\<open>for_each_field\<close> and UTF-8 validation with its ASCII fast path. A reader that advances
  an \<^verbatim>\<open>&mut &[u8]\<close> returns the rest of the input; \<^verbatim>\<open>?\<close> is \<open>bindE\<close>. The closure of
  \<^verbatim>\<open>for_each_field\<close> is a function that passes on the state it captures.

  A length-delimited payload carries its offset in the walked input: it is what
  \<^verbatim>\<open>subslice_range\<close> recovers from the two pointers. A \<^verbatim>\<open>f64\<close> is its bit pattern.
\<close>

datatype ProjectionError = Invalid string | Unsupported string | Batch string

type_synonym 'a proj = "ProjectionError + 'a"

definition bindE :: "'e + 'a \<Rightarrow> ('a \<Rightarrow> 'e + 'b) \<Rightarrow> 'e + 'b" where
  "bindE m f = (case m of Inl e \<Rightarrow> Inl e | Inr x \<Rightarrow> f x)"

lemma bindE_simps [simp]: "bindE (Inl e) f = Inl e" "bindE (Inr x) f = f x"
  by (simp_all add: bindE_def)

lemma bindE_cong [fundef_cong]:
  "m = m' \<Longrightarrow> (\<And>x. m' = Inr x \<Longrightarrow> f x = f' x) \<Longrightarrow> bindE m f = bindE m' f'"
  by (cases m') simp_all

lemma bindE_Inr: "bindE m f = Inr y \<longleftrightarrow> (\<exists>x. m = Inr x \<and> f x = Inr y)"
  by (cases m) auto

subsection \<open>Varints\<close>

function read_varint_loop :: "nat \<Rightarrow> u64 \<Rightarrow> bytes \<Rightarrow> (u64 \<times> bytes) proj" where
  "read_varint_loop index result input =
     (if index < 10 then
        (case input of
           [] \<Rightarrow> Inl (Invalid ''truncated varint'')
         | byte # rest \<Rightarrow>
             if index = 9 \<and> 0x01 < byte then Inl (Invalid ''varint overflow'')
             else let result' = result OR push_bit (index * 7) (ucast (byte AND 0x7F))
                  in if byte AND 0x80 = 0 then Inr (result', rest)
                     else read_varint_loop (index + 1) result' rest)
      else Inl (Invalid ''varint overflow''))"
  by pat_completeness auto
termination
  by (relation "measure (\<lambda>(index, _). 10 - index)") auto

declare read_varint_loop.simps [simp del]

definition read_varint_multibyte :: "bytes \<Rightarrow> (u64 \<times> bytes) proj" where
  "read_varint_multibyte input = read_varint_loop 0 0 input"

definition read_varint :: "bytes \<Rightarrow> (u64 \<times> bytes) proj" where
  "read_varint input =
     (case input of
        first # rest \<Rightarrow> if first < 0x80 then Inr (ucast first, rest) else read_varint_multibyte input
      | [] \<Rightarrow> read_varint_multibyte input)"

lemma read_varint_loop_shorter:
  "read_varint_loop index result input = Inr (v, rest) \<Longrightarrow>
     length rest < length input \<and> (\<exists>taken. input = taken @ rest)"
proof (induction index result input rule: read_varint_loop.induct)
  case (1 index result input)
  show ?case
  proof (cases input)
    case (Cons byte tl)
    let ?r = "result OR push_bit (index * 7) (ucast (byte AND 0x7F))"
    consider "byte AND 0x80 = 0" "rest = tl"
      | "index < 10" "\<not> (index = 9 \<and> 0x01 < byte)" "byte AND 0x80 \<noteq> 0"
        "read_varint_loop (index + 1) ?r tl = Inr (v, rest)"
      using 1(2) Cons by (auto simp: read_varint_loop.simps [of index] Let_def split: if_splits)
    then show ?thesis
    proof cases
      case 1
      then show ?thesis using Cons by simp
    next
      case 2
      from "1.IH" [OF 2(1) Cons 2(2) refl 2(3,4)]
      show ?thesis using Cons by (auto intro: exI [of _ "byte # _"])
    qed
  qed (use 1(2) in \<open>simp add: read_varint_loop.simps [of index] split: if_splits\<close>)
qed

lemma read_varint_shorter:
  "read_varint input = Inr (v, rest) \<Longrightarrow>
     length rest < length input \<and> (\<exists>taken. input = taken @ rest)"
  using read_varint_loop_shorter [of 0 0 input v rest]
  by (auto simp: read_varint_def read_varint_multibyte_def split: list.splits if_splits)

subsection \<open>Keys and payloads\<close>

definition PROTOBUF_MAX_FIELD_NUMBER :: u64 where
  "PROTOBUF_MAX_FIELD_NUMBER = 0x1FFFFFFF"

definition decode_field_number :: "u64 \<Rightarrow> u32 proj" where
  "decode_field_number key =
     (let field = drop_bit 3 key
      in if field = 0 then Inl (Invalid ''protobuf field number zero'')
         else if PROTOBUF_MAX_FIELD_NUMBER < field
              then Inl (Invalid ''protobuf field number out of range'')
         else if field < 2 ^ 32 then Inr (ucast field)
         else Inl (Invalid ''protobuf field number overflow''))"

text \<open>
  \<^verbatim>\<open>input.split_at(n)\<close> after the length check, with the error text of the call site.
\<close>

definition take_bytes :: "nat \<Rightarrow> string \<Rightarrow> bytes \<Rightarrow> (bytes \<times> bytes) proj" where
  "take_bytes n err input =
     (if length input < n then Inl (Invalid err) else Inr (take n input, drop n input))"

text \<open>
  A length prefix and its payload. On a 64-bit target \<^verbatim>\<open>usize::try_from\<close> of the length
  succeeds.
\<close>

definition take_len :: "string \<Rightarrow> bytes \<Rightarrow> (bytes \<times> bytes) proj" where
  "take_len err input = bindE (read_varint input) (\<lambda>(len, rest). take_bytes (unat len) err rest)"

lemma take_bytes_shorter:
  "take_bytes n err input = Inr (bs, rest) \<Longrightarrow> length rest \<le> length input \<and> input = bs @ rest"
  by (auto simp: take_bytes_def split: if_splits)

lemma take_len_shorter:
  "take_len err input = Inr (bs, rest) \<Longrightarrow>
     length rest < length input \<and> (\<exists>taken. input = taken @ bs @ rest)"
  by (fastforce simp: take_len_def bindE_Inr dest: read_varint_shorter take_bytes_shorter)

lemmas reader_lengths =
  read_varint_shorter [THEN conjunct1] take_bytes_shorter [THEN conjunct1] take_len_shorter [THEN conjunct1]

subsection \<open>Groups\<close>

definition PROTOBUF_MAX_GROUP_DEPTH :: nat where
  "PROTOBUF_MAX_GROUP_DEPTH = 64"

text \<open>
  The loop of \<^verbatim>\<open>skip_group\<close>; the first \<^verbatim>\<open>depth\<close> entries of its \<^verbatim>\<open>field_stack\<close> are the list
  \<open>stack\<close>, innermost group first. It is never empty, so the \<open>[]\<close> branch is never taken.
\<close>

function skip_group_loop :: "u32 list \<Rightarrow> bytes \<Rightarrow> bytes proj" where
  "skip_group_loop stack input =
     (if input = [] then Inl (Invalid ''unterminated protobuf group'')
      else bindE (read_varint input) (\<lambda>(key, rest).
        bindE (decode_field_number key) (\<lambda>field.
          let wire_type = ucast (key AND 0x07) :: u8
          in if wire_type = 0 then bindE (read_varint rest) (\<lambda>(_, rest'). skip_group_loop stack rest')
             else if wire_type = 1 then
               bindE (take_bytes 8 ''truncated fixed64 field'' rest) (\<lambda>(_, rest'). skip_group_loop stack rest')
             else if wire_type = 2 then
               bindE (take_len ''truncated length-delimited field'' rest) (\<lambda>(_, rest'). skip_group_loop stack rest')
             else if wire_type = 3 then
               (if length stack = PROTOBUF_MAX_GROUP_DEPTH
                then Inl (Invalid ''protobuf group nesting too deep'')
                else skip_group_loop (field # stack) rest)
             else if wire_type = 4 then
               (case stack of
                  [] \<Rightarrow> Inl (Invalid ''mismatched protobuf end group'')
                | open_field # stack' \<Rightarrow>
                    if field \<noteq> open_field then Inl (Invalid ''mismatched protobuf end group'')
                    else if stack' = [] then Inr rest
                    else skip_group_loop stack' rest)
             else if wire_type = 5 then
               bindE (take_bytes 4 ''truncated fixed32 field'' rest) (\<lambda>(_, rest'). skip_group_loop stack rest')
             else Inl (Invalid ''invalid protobuf wire type''))))"
  by pat_completeness auto
termination
  by (relation "measure (length \<circ> snd)")
    (auto dest!: read_varint_shorter take_bytes_shorter take_len_shorter)

declare skip_group_loop.simps [simp del]

definition skip_group :: "u32 \<Rightarrow> bytes \<Rightarrow> bytes proj" where
  "skip_group start_field input = skip_group_loop [start_field] input"

lemma skip_group_loop_shorter:
  "skip_group_loop stack input = Inr rest \<Longrightarrow>
     length rest < length input"
proof (induction "length input" arbitrary: stack input rule: less_induct)
  case less
  note step = less(2) [unfolded skip_group_loop.simps [of stack input]]
  obtain key r where r: "read_varint input = Inr (key, r)"
    using step by (auto simp: bindE_Inr split: if_splits)
  have rec: "length rest < length input"
    if "skip_group_loop stack' r' = Inr rest" "length r' \<le> length r" for stack' r'
    using less(1) [OF _ that(1)] that(2) reader_lengths(1) [OF r] by linarith
  show ?case
    using step reader_lengths(1) [OF r] unfolding r
    by (auto simp: bindE_Inr Let_def intro: rec less_imp_le dest: reader_lengths
        split: if_splits list.splits)
qed

subsection \<open>The field walk\<close>

datatype WireField = Varint u64 | Fixed64 u64 | Len nat bytes | Fixed32 u32

text \<open>
  One turn of the loop of \<^verbatim>\<open>for_each_field\<close> up to the call of \<^verbatim>\<open>visit\<close>: the field it reads, or
  \<open>None\<close> for a group, which is skipped, and the rest of the input. \<open>whole\<close> is the length
  of the walked input.
\<close>

definition read_field :: "nat \<Rightarrow> bytes \<Rightarrow> ((u32 \<times> WireField) option \<times> bytes) proj" where
  "read_field whole input =
     bindE (read_varint input) (\<lambda>(key, rest).
       bindE (decode_field_number key) (\<lambda>field.
         let wire_type = ucast (key AND 0x07) :: u8
         in if wire_type = 0 then
              bindE (read_varint rest) (\<lambda>(v, rest'). Inr (Some (field, Varint v), rest'))
            else if wire_type = 1 then
              bindE (take_bytes 8 ''truncated fixed64 field'' rest)
                (\<lambda>(bs, rest'). Inr (Some (field, Fixed64 (from_le_bytes bs)), rest'))
            else if wire_type = 2 then
              bindE (take_len ''truncated length-delimited field'' rest)
                (\<lambda>(bs, rest'). Inr (Some (field, Len (whole - length rest' - length bs) bs), rest'))
            else if wire_type = 5 then
              bindE (take_bytes 4 ''truncated fixed32 field'' rest)
                (\<lambda>(bs, rest'). Inr (Some (field, Fixed32 (from_le_bytes bs)), rest'))
            else if wire_type = 3 then
              bindE (skip_group field rest) (\<lambda>rest'. Inr (None, rest'))
            else if wire_type = 4 then Inl (Invalid ''unexpected protobuf end group'')
            else Inl (Invalid ''invalid protobuf wire type'')))"

lemma read_field_shorter: "read_field whole input = Inr (f, rest) \<Longrightarrow> length rest < length input"
  by (auto simp: read_field_def bindE_Inr Let_def skip_group_def split: if_splits
      dest!: reader_lengths skip_group_loop_shorter)

function for_each_field_loop ::
  "('s \<Rightarrow> u32 \<Rightarrow> WireField \<Rightarrow> 's proj) \<Rightarrow> nat \<Rightarrow> 's \<Rightarrow> bytes \<Rightarrow> 's proj" where
  "for_each_field_loop visit whole st input =
     (if input = [] then Inr st
      else bindE (read_field whole input) (\<lambda>(f, rest).
        case f of
          None \<Rightarrow> for_each_field_loop visit whole st rest
        | Some (field, w) \<Rightarrow>
            bindE (visit st field w) (\<lambda>st'. for_each_field_loop visit whole st' rest)))"
  by pat_completeness auto
termination
  by (relation "measure (\<lambda>(_, _, _, input). length input)") (auto dest!: read_field_shorter)

declare for_each_field_loop.simps [simp del]

definition for_each_field :: "('s \<Rightarrow> u32 \<Rightarrow> WireField \<Rightarrow> 's proj) \<Rightarrow> 's \<Rightarrow> bytes \<Rightarrow> 's proj" where
  "for_each_field visit st input = for_each_field_loop visit (length input) st input"

subsection \<open>Reading what the encoders write\<close>

lemma read_loop_varint:
  assumes "unat r < 2 ^ (index * 7)" and "n * 2 ^ (index * 7) < 2 ^ 64" and "index < 10"
  shows "read_varint_loop index r (varint n @ rest) = Inr (r + of_nat (n * 2 ^ (index * 7)), rest)"
  using assms
proof (induction n arbitrary: index r rule: varint.induct)
  case (1 n)
  show ?case
  proof (cases "n < 128")
    case True
    then have b: "unat (of_nat n :: u8) = n" by (simp add: unat_of_nat)
    have "\<not> (index = 9 \<and> 1 < n)" using 1(3) by auto
    then have last: "\<not> (index = 9 \<and> 1 < (of_nat n :: u8))" by (simp add: word_less_nat_alt b)
    have "r OR push_bit (index * 7) (ucast ((of_nat n :: u8) AND 0x7F)) = r + of_nat (n * 2 ^ (index * 7))"
      using or_group [OF 1(2), of "of_nat n"] 1(3) True by (simp add: b del: of_nat_mult)
    then show ?thesis
      using 1(4) True last
      by (simp add: varint.simps [of n] read_varint_loop.simps [of index] Let_def continuation_bit b
          del: of_nat_mult)
  next
    case False
    define b :: u8 where "b = of_nat (n mod 128 + 128)"
    have b: "unat b = n mod 128 + 128"
      unfolding b_def by (rule byte_of_nat [THEN iffD1, OF _ refl]) simp
    have var: "varint n = b # varint (n div 128)"
      using False by (simp add: varint.simps [of n] b_def)
    have sh: "index * 7 \<le> 56" using continued_shift_le [OF _ 1(3)] False by simp
    define k where "k = n mod 128 * 2 ^ (index * 7)"
    have split: "n * 2 ^ (index * 7) = k + n div 128 * 2 ^ ((index + 1) * 7)"
      using low_group_split [of n "index * 7"] by (simp add: k_def add.commute)
    have or: "r OR push_bit (index * 7) (ucast (b AND 0x7F)) = r + of_nat k"
      using or_group [OF 1(2), of b] split 1(3) by (simp add: b flip: k_def)
    have "read_varint_loop index r (varint n @ rest) =
        read_varint_loop (index + 1) (r + of_nat k) (varint (n div 128) @ rest)"
      using sh 1(4) or unfolding var
      by (simp add: read_varint_loop.simps [of index] Let_def continuation_bit b)
    also have "\<dots> = Inr (r + of_nat k + of_nat (n div 128 * 2 ^ ((index + 1) * 7)), rest)"
    proof (rule 1(1) [OF False])
      show "unat (r + of_nat k) < 2 ^ ((index + 1) * 7)"
        using unat_add_group [OF 1(2) _ sh, of "n mod 128"] by (simp add: k_def add.commute)
      show "n div 128 * 2 ^ ((index + 1) * 7) < 2 ^ 64" using split 1(3) by linarith
      show "index + 1 < 10" using sh by simp
    qed
    finally show ?thesis unfolding split of_nat_add by (simp only: add.assoc)
  qed
qed

lemma read_varint_eq_loop: "read_varint input = read_varint_loop 0 0 input"
proof (cases input)
  case (Cons first rest)
  show ?thesis
  proof (cases "first < 0x80")
    case True
    then have small: "unat first < 128" by (simp add: word_less_nat_alt)
    then have "first AND 0x7F = first"
      by (simp add: word_unat_eq_iff unat_low_bits)
    then show ?thesis
      using Cons True small
      by (simp add: read_varint_def read_varint_loop.simps [of 0] Let_def continuation_bit)
  qed (simp add: Cons read_varint_def read_varint_multibyte_def)
qed (simp add: read_varint_def read_varint_multibyte_def)

lemma read_varint_varint:
  "n < 2 ^ 64 \<Longrightarrow> read_varint (varint n @ rest) = Inr (of_nat n, rest)"
  using read_loop_varint [of 0 0 n rest] by (simp add: read_varint_eq_loop)

lemma from_le_bytes_slices:
  "from_le_bytes (map (\<lambda>i. ucast (drop_bit (8 * i) v)) [j..<j + k]) =
     take_bit (8 * k) (drop_bit (8 * j) (v :: 'a :: len word))"
proof (induction k arbitrary: j)
  case (Suc k)
  have "from_le_bytes (map (\<lambda>i. ucast (drop_bit (8 * i) v)) [j..<j + Suc k]) =
      push_bit 8 (from_le_bytes (map (\<lambda>i. ucast (drop_bit (8 * i) v)) [Suc j..<Suc j + k]))
        OR ucast (ucast (drop_bit (8 * j) v) :: u8)"
    by (subst upt_conv_Cons) (simp_all add: from_le_bytes_def)
  also have "\<dots> = push_bit 8 (take_bit (8 * k) (drop_bit (8 * Suc j) v)) OR ucast (ucast (drop_bit (8 * j) v) :: u8)"
    by (simp only: Suc.IH)
  also have "\<dots> = take_bit (8 * Suc k) (drop_bit (8 * j) v)"
    by (rule bit_word_eqI) (auto simp: bit_simps add.commute)
  finally show ?case .
qed (simp add: from_le_bytes_def)

lemma from_to_le_bytes [simp]:
  "from_le_bytes (to_le_bytes64 v) = v" "from_le_bytes (to_le_bytes32 w) = w"
  using from_le_bytes_slices [of v 0 8] from_le_bytes_slices [of w 0 4]
  by (simp_all add: to_le_bytes64_def to_le_bytes32_def take_bit_word_eq_self)

text \<open>What the field encoders append for one field, and the field with its payload offset.\<close>

fun wire_type_of :: "WireField \<Rightarrow> u8" where
  "wire_type_of (Varint _) = 0"
| "wire_type_of (Fixed64 _) = 1"
| "wire_type_of (Len _ _) = 2"
| "wire_type_of (Fixed32 _) = 5"

fun encode_field :: "bytes \<Rightarrow> u32 \<times> WireField \<Rightarrow> bytes" where
  "encode_field buf (f, Varint v) = encode_varint_field buf f v"
| "encode_field buf (f, Fixed64 v) = encode_fixed64 buf f v"
| "encode_field buf (f, Len _ bs) = encode_bytes_field buf f bs"
| "encode_field buf (f, Fixed32 v) = encode_fixed32 buf f v"

definition field_bytes :: "u32 \<times> WireField \<Rightarrow> bytes" where
  "field_bytes fw = encode_field [] fw"

fun payload_len :: "WireField \<Rightarrow> nat" where
  "payload_len (Len _ bs) = length bs"
| "payload_len _ = 0"

fun place :: "nat \<Rightarrow> WireField \<Rightarrow> WireField" where
  "place off (Len _ bs) = Len off bs"
| "place _ w = w"

fun field_ok :: "u32 \<times> WireField \<Rightarrow> bool" where
  "field_ok (f, w) \<longleftrightarrow> 0 < f \<and> f \<le> 0x1FFFFFFF \<and> payload_len w < 2 ^ 64"

fun tail_bytes :: "WireField \<Rightarrow> bytes" where
  "tail_bytes (Varint v) = varint (unat v)"
| "tail_bytes (Fixed64 v) = to_le_bytes64 v"
| "tail_bytes (Len _ bs) = varint (length bs) @ bs"
| "tail_bytes (Fixed32 v) = to_le_bytes32 v"

lemma encode_field_eq:
  "field_ok (f, w) \<Longrightarrow>
     encode_field buf (f, w) = buf @ varint (tag_value f (wire_type_of w)) @ tail_bytes w"
  by (cases w)
    (simp_all add: encode_varint_field_def encode_fixed64_def encode_fixed32_def encode_bytes_field_def
      encode_tag_eq encode_varint_eq unat_of_nat)

lemma wire_type_small: "wire_type_of w < 8"
  by (cases w) simp_all

lemma unat_low3: "unat ((v :: u64) AND 0x07) = unat v mod 8"
proof -
  have "v AND 0x07 = take_bit 3 v"
    by (simp add: take_bit_eq_mask mask_eq_exp_minus_1)
  then show ?thesis by (simp add: unsigned_take_bit_eq take_bit_eq_mod [where 'a = nat])
qed

lemma unat_drop3: "unat (drop_bit 3 (v :: u64)) = unat v div 8"
  by (simp add: unat_drop_bit_eq drop_bit_eq_div [where 'a = nat])

lemma decode_key:
  assumes "0 < f" and "f \<le> 0x1FFFFFFF" and "wt < 8"
  shows "decode_field_number (of_nat (tag_value f wt)) = Inr f"
    and "ucast ((of_nat (tag_value f wt) :: u64) AND 0x07) = wt"
proof -
  define key :: u64 where "key = of_nat (tag_value f wt)"
  have wt: "unat wt < 8" using assms(3) by (simp add: word_less_nat_alt)
  have key: "unat key = tag_value f wt"
    using tag_value_bound [OF assms(3), of f] by (simp add: key_def unat_of_nat)
  have f: "unat (drop_bit 3 key) = unat f"
    using wt by (simp add: unat_drop3 key tag_value_def)
  have bounds: "0 < unat f" "unat f \<le> 0x1FFFFFFF"
    using assms(1,2) by (simp_all add: word_less_nat_alt word_le_nat_alt)
  have "ucast (drop_bit 3 key) = f"
    using bounds by (simp add: word_unat_eq_iff unsigned_ucast_eq f take_bit_nat_eq_self_iff)
  moreover have "drop_bit 3 key \<noteq> 0" using bounds(1) f by auto
  ultimately show "decode_field_number (of_nat (tag_value f wt)) = Inr f"
    using bounds unfolding key_def [symmetric]
    by (simp add: decode_field_number_def Let_def PROTOBUF_MAX_FIELD_NUMBER_def word_less_nat_alt f)
  have "unat (key AND 0x07) = unat wt" using wt by (simp add: unat_low3 key tag_value_def)
  then show "ucast ((of_nat (tag_value f wt) :: u64) AND 0x07) = wt"
    unfolding key_def [symmetric]
    by (simp add: word_unat_eq_iff unsigned_ucast_eq take_bit_nat_eq_self_iff)
qed

lemma take_bytes_append: "length bs = n \<Longrightarrow> take_bytes n err (bs @ rest) = Inr (bs, rest)"
  by (simp add: take_bytes_def)

lemma take_len_append:
  "length bs < 2 ^ 64 \<Longrightarrow> take_len err (varint (length bs) @ bs @ rest) = Inr (bs, rest)"
  by (simp add: take_len_def read_varint_varint take_bytes_append unat_of_nat)

lemma read_field_bytes:
  assumes "field_ok (f, w)"
  shows "read_field whole (field_bytes (f, w) @ rest) =
     Inr (Some (f, place (whole - length rest - payload_len w) w), rest)"
proof -
  have f: "0 < f" "f \<le> 0x1FFFFFFF" "payload_len w < 2 ^ 64" using assms by simp_all
  have "tag_value f (wire_type_of w) < 2 ^ 64"
    using tag_value_bound [OF wire_type_small, of f w] by simp
  note key = read_varint_varint [OF this] decode_key [OF f(1,2) wire_type_small, of w]
  have bytes: "field_bytes (f, w) @ rest = varint (tag_value f (wire_type_of w)) @ tail_bytes w @ rest"
    using encode_field_eq [OF assms, of "[]"] by (simp add: field_bytes_def)
  have v: "read_varint (varint (unat v) @ rest) = Inr (v, rest)" for v :: u64
    using read_varint_varint [OF u64_bound, of v rest] by simp
  show ?thesis
    unfolding bytes read_field_def key bindE_simps split_conv Let_def
    using f(3) by (cases w) (simp_all add: v take_len_append take_bytes_append)
qed

subsection \<open>Walking an encoded message\<close>

definition message :: "(u32 \<times> WireField) list \<Rightarrow> bytes" where
  "message fs = concat (map field_bytes fs)"

fun placed :: "nat \<Rightarrow> (u32 \<times> WireField) list \<Rightarrow> (u32 \<times> WireField) list" where
  "placed off [] = []"
| "placed off ((f, w) # fs) =
     (let next_off = off + length (field_bytes (f, w))
      in (f, place (next_off - payload_len w) w) # placed next_off fs)"

fun visit_all :: "('s \<Rightarrow> u32 \<Rightarrow> WireField \<Rightarrow> 's proj) \<Rightarrow> 's \<Rightarrow> (u32 \<times> WireField) list \<Rightarrow> 's proj" where
  "visit_all visit st [] = Inr st"
| "visit_all visit st ((f, w) # fs) = bindE (visit st f w) (\<lambda>st'. visit_all visit st' fs)"

lemma field_bytes_nonempty: "field_ok fw \<Longrightarrow> field_bytes fw \<noteq> []"
  by (cases fw) (simp add: field_bytes_def encode_field_eq)

lemma walk_loop:
  assumes "list_all field_ok fs" and "whole = off + length (message fs)"
  shows "for_each_field_loop visit whole st (message fs) = visit_all visit st (placed off fs)"
  using assms
proof (induction fs arbitrary: off st)
  case (Cons fw fs)
  obtain f w where fw: "fw = (f, w)" by (cases fw)
  have msg: "message (fw # fs) = field_bytes (f, w) @ message fs" by (simp add: message_def fw)
  have ok: "field_ok (f, w)" "list_all field_ok fs" using Cons.prems(1) fw by simp_all
  have whole: "whole = off + length (field_bytes (f, w)) + length (message fs)"
    using Cons.prems(2) msg by simp
  show ?case
    using read_field_bytes [OF ok(1), of whole "message fs"] field_bytes_nonempty [OF ok(1)]
      Cons.IH [OF ok(2) whole]
    unfolding msg by (subst for_each_field_loop.simps) (simp add: fw Let_def whole)
qed (simp add: message_def for_each_field_loop.simps)

lemma walk_message:
  "list_all field_ok fs \<Longrightarrow> for_each_field visit st (message fs) = visit_all visit st (placed 0 fs)"
  by (simp add: for_each_field_def walk_loop)

lemma foldl_encode_field: "list_all field_ok fs \<Longrightarrow> foldl encode_field buf fs = buf @ message fs"
proof (induction fs arbitrary: buf)
  case (Cons fw fs)
  obtain f w where fw: "fw = (f, w)" by (cases fw)
  show ?case
    using Cons encode_field_eq [of f w buf] encode_field_eq [of f w "[]"]
    by (simp add: fw message_def field_bytes_def)
qed (simp add: message_def)

lemma placed_payload:
  assumes "list_all field_ok fs" and "(f, Len p bs) \<in> set (placed (length pre) fs)"
  shows "p + length bs \<le> length (pre @ message fs) \<and> subslice (pre @ message fs) p (p + length bs) = bs"
  using assms
proof (induction fs arbitrary: pre)
  case (Cons fw fs)
  obtain g w where fw: "fw = (g, w)" by (cases fw)
  have msg: "message (fw # fs) = field_bytes (g, w) @ message fs" by (simp add: message_def fw)
  show ?case
  proof (cases "(f, Len p bs) \<in> set (placed (length (pre @ field_bytes (g, w))) fs)")
    case True
    then show ?thesis using Cons.IH [of "pre @ field_bytes (g, w)"] Cons.prems(1) msg by simp
  next
    case False
    with Cons.prems(2) fw have here: "g = f" "Len p bs = place (length pre + length (field_bytes (g, w)) - payload_len w) w"
      by (auto simp: Let_def)
    then obtain q where w: "w = Len q bs" "p = length pre + length (field_bytes (g, w)) - length bs"
      by (cases w) auto
    have "field_bytes (g, w) = varint (tag_value g 2) @ varint (length bs) @ bs"
      using encode_field_eq [of g w "[]"] Cons.prems(1) fw w(1) by (simp add: field_bytes_def)
    then show ?thesis unfolding msg using w(2) by (simp add: subslice_def)
  qed
qed simp

text \<open>
  Property C9. The receiver reads back what the encoders of the core write: the field walk
  over a message visits exactly its fields, in order, with the values and payload bytes
  that were encoded, and the offset it reports for a payload is where that payload lies in
  the message.
\<close>

theorem message_walk_roundtrip:
  assumes "list_all field_ok fs"
  shows "for_each_field visit st (foldl encode_field [] fs) = visit_all visit st (placed 0 fs) \<and>
    (\<forall>f p bs. (f, Len p bs) \<in> set (placed 0 fs) \<longrightarrow>
       subslice (foldl encode_field [] fs) p (p + length bs) = bs)"
  using walk_message [OF assms] placed_payload [OF assms, where pre = "[]"]
  by (simp add: foldl_encode_field [OF assms])

definition sample_fields :: "(u32 \<times> WireField) list" where
  "sample_fields = [(1, Fixed64 7), (2, Varint 300), (3, Len 0 (bstr ''hi'')), (8, Fixed32 5)]"

theorem message_walk_roundtrip_witness:
  "for_each_field (\<lambda>acc f w. Inr (acc @ [(f, w)])) [] (foldl encode_field [] sample_fields) =
     Inr [(1, Fixed64 7), (2, Varint 300), (3, Len 14 (bstr ''hi'')), (8, Fixed32 5)]"
proof -
  have ok: "list_all field_ok sample_fields" by (simp add: sample_fields_def bstr_def)
  have "placed 0 sample_fields = [(1, Fixed64 7), (2, Varint 300), (3, Len 14 (bstr ''hi'')), (8, Fixed32 5)]"
    by code_simp
  then show ?thesis
    using message_walk_roundtrip [OF ok, of "\<lambda>acc f w. Inr (acc @ [(f, w)])" "[]"] by simp
qed

end
