(* ===== verification/Otlp_Projection.thy ===== *)
theory Otlp_Projection
  imports Otlp_Reader
begin

text \<open>
  The decoders the OTLP receiver builds on the field walk:
  \<^verbatim>\<open>ffwd-io/src/otlp_receiver/projection/wire.rs\<close> (UTF-8 validation, payload ranges and the
  inlined \<^verbatim>\<open>KeyValue\<close> decoder) and \<^verbatim>\<open>projection/generated.rs\<close> (\<^verbatim>\<open>AnyValue\<close>, \<^verbatim>\<open>KeyValue\<close>,
  \<^verbatim>\<open>InstrumentationScope\<close>, \<^verbatim>\<open>LogRecord\<close> and the walkers of the enclosing messages).

  The validator of the \<^verbatim>\<open>simdutf8\<close> crate is the parameter \<open>simd\<close>; the locale \<open>simdutf8_crate\<close>
  holds what the crate documents of it. The lemmas show that the fast path of
  \<^verbatim>\<open>require_utf8\<close> changes nothing, and how the inlined decoder relates to the reference one.
\<close>

subsection \<open>UTF-8 validation\<close>

definition require_utf8_full :: "(bytes \<Rightarrow> bool) \<Rightarrow> bytes \<Rightarrow> string \<Rightarrow> bytes proj" where
  "require_utf8_full simd bs ctx = (if simd bs then Inr bs else Inl (Invalid ctx))"

definition HIGH_BITS :: u64 where
  "HIGH_BITS = 0x8080808080808080"

text \<open>
  The two loops: eight bytes at a time against the mask, then byte by byte. The byte order of
  \<^verbatim>\<open>from_ne_bytes\<close> does not matter under this mask; the model takes the little-endian one.
\<close>

function utf8_chunks :: "(bytes \<Rightarrow> bool) \<Rightarrow> bytes \<Rightarrow> string \<Rightarrow> nat \<Rightarrow> bytes proj" where
  "utf8_chunks simd bs ctx i =
     (if i + 8 \<le> length bs then
        (if (from_le_bytes (subslice bs i (i + 8)) :: u64) AND HIGH_BITS \<noteq> 0
         then require_utf8_full simd bs ctx
         else utf8_chunks simd bs ctx (i + 8))
      else if \<exists>b \<in> set (drop i bs). 0x80 \<le> b then require_utf8_full simd bs ctx
      else Inr bs)"
  by pat_completeness auto
termination
  by (relation "measure (\<lambda>(_, bs, _, i). length bs - i)") auto

declare utf8_chunks.simps [simp del]

definition require_utf8 :: "(bytes \<Rightarrow> bool) \<Rightarrow> bytes \<Rightarrow> string \<Rightarrow> bytes proj" where
  "require_utf8 simd bs ctx = utf8_chunks simd bs ctx 0"

lemma bit_from_le_bytes:
  "n < 8 * length bs \<Longrightarrow> n < LENGTH('a :: len) \<Longrightarrow>
     bit (from_le_bytes bs :: 'a word) n = bit (bs ! (n div 8)) (n mod 8)"
proof (induction bs arbitrary: n)
  case (Cons b bs)
  show ?case
  proof (cases "n < 8")
    case True
    then show ?thesis using Cons.prems by (simp add: from_le_bytes_def bit_simps)
  next
    case False
    then have d: "n div 8 = Suc ((n - 8) div 8)" "n mod 8 = (n - 8) mod 8"
      by (simp_all add: le_div_geq le_mod_geq)
    have "\<not> bit b n" using False by (auto dest: bit_imp_le_length)
    then show ?thesis
      using Cons.IH [of "n - 8"] Cons.prems False d by (simp add: from_le_bytes_def bit_simps)
  qed
qed simp

lemma chunk_ascii:
  assumes "length bs = 8" and "(from_le_bytes bs :: u64) AND HIGH_BITS = 0" and "b \<in> set bs"
  shows "b < 0x80"
proof -
  obtain k where k: "k < 8" "bs ! k = b" using assms(1,3) by (auto simp: in_set_conv_nth)
  have "list_all (\<lambda>k. bit HIGH_BITS (8 * k + 7)) [0..<8]" by code_simp
  then have "bit HIGH_BITS (8 * k + 7)" using k(1) by (simp add: list_all_iff)
  moreover have "\<not> bit ((from_le_bytes bs :: u64) AND HIGH_BITS) (8 * k + 7)"
    unfolding assms(2) by simp
  ultimately have "\<not> bit (from_le_bytes bs :: u64) (8 * k + 7)" unfolding bit_and_iff by blast
  then have "\<not> bit b 7"
    using bit_from_le_bytes [of "8 * k + 7" bs, where 'a = 64] assms(1) k by simp
  then have "b AND 0x80 = 0" using and_exp_eq_0_iff_not_bit [of b 7] by simp
  then show ?thesis by (simp add: continuation_bit word_less_nat_alt)
qed

lemma valid_utf8_all_ascii: "\<forall>b \<in> set bs. b < 0x80 \<Longrightarrow> valid_utf8 bs"
proof (induction bs)
  case (Cons b bs)
  then have "b \<le> 127" by (simp add: word_less_nat_alt word_le_nat_alt)
  then show ?case using Cons by (simp add: valid_utf8_ascii)
qed simp

locale simdutf8_crate =
  fixes simd :: "bytes \<Rightarrow> bool"
  assumes simd_valid: "simd bs \<longleftrightarrow> valid_utf8 bs"
begin

lemma utf8_chunks_valid:
  assumes "\<forall>b \<in> set (take i bs). b < 0x80" and "i \<le> length bs"
  shows "utf8_chunks simd bs ctx i = require_utf8_full simd bs ctx"
  using assms
proof (induction "length bs - i" arbitrary: i rule: less_induct)
  case less
  let ?c = "subslice bs i (i + 8)"
  show ?case
  proof (cases "i + 8 \<le> length bs")
    case True
    have "take (i + 8) bs = take i bs @ ?c" by (simp add: take_add subslice_def)
    then have "utf8_chunks simd bs ctx (i + 8) = require_utf8_full simd bs ctx"
      if "(from_le_bytes ?c :: u64) AND HIGH_BITS = 0"
      using less(2) True chunk_ascii [OF _ that] by (intro less(1)) auto
    then show ?thesis using True by (subst utf8_chunks.simps) simp
  next
    case False
    have "set bs = set (take i bs) \<union> set (drop i bs)" by (metis append_take_drop_id set_append)
    then have "valid_utf8 bs" if "\<not> (\<exists>b \<in> set (drop i bs). 0x80 \<le> b)"
      using that less(2) by (intro valid_utf8_all_ascii) (auto simp: not_le)
    then show ?thesis
      using False by (subst utf8_chunks.simps) (auto simp: require_utf8_full_def simd_valid)
  qed
qed

lemma require_utf8_valid:
  "require_utf8 simd bs ctx = (if valid_utf8 bs then Inr bs else Inl (Invalid ctx))"
  by (simp add: require_utf8_def utf8_chunks_valid require_utf8_full_def simd_valid)

end

interpretation std_utf8: simdutf8_crate valid_utf8
  by unfold_locales simp

text \<open>
  \<^verbatim>\<open>subslice_range\<close>, with the two slices given by start address and length.
\<close>

definition subslice_range :: "nat \<times> nat \<Rightarrow> nat \<times> nat \<Rightarrow> (nat \<times> nat) proj" where
  "subslice_range parent child =
     (case checked_add_usize (fst child) (snd child) of
        None \<Rightarrow> Inl (Invalid ''invalid protobuf subslice'')
      | Some child_end \<Rightarrow>
          (case checked_add_usize (fst parent) (snd parent) of
             None \<Rightarrow> Inl (Invalid ''invalid protobuf parent slice'')
           | Some parent_end \<Rightarrow>
               if fst child < fst parent \<or> parent_end < child_end
               then Inl (Invalid ''protobuf field outside parent slice'')
               else Inr (fst child - fst parent, snd child)))"

subsection \<open>AnyValue and KeyValue\<close>

datatype WireAny =
    AnyString bytes | AnyBool bool | AnyInt int | AnyDouble u64
  | AnyBytes bytes | ArrayRaw bytes | KvListRaw bytes

abbreviation bad_wire :: "string \<Rightarrow> 'a proj" where
  "bad_wire what \<equiv> Inl (Invalid (''invalid wire type for '' @ what))"

text \<open>The closure of \<^verbatim>\<open>decode_any_value_wire\<close>, on the captured \<^verbatim>\<open>out\<close>.\<close>

definition any_value_visit ::
  "(bytes \<Rightarrow> bool) \<Rightarrow> WireAny option \<Rightarrow> u32 \<Rightarrow> WireField \<Rightarrow> WireAny option proj" where
  "any_value_visit simd out field w =
     (if field = 1 then
        (case w of Len _ bs \<Rightarrow> bindE (require_utf8 simd bs ''invalid UTF-8 AnyValue string'') (\<lambda>s. Inr (Some (AnyString s)))
         | _ \<Rightarrow> bad_wire ''AnyValue.string_value'')
      else if field = 2 then
        (case w of Varint v \<Rightarrow> Inr (Some (AnyBool (v \<noteq> 0))) | _ \<Rightarrow> bad_wire ''AnyValue.bool_value'')
      else if field = 3 then
        (case w of Varint v \<Rightarrow> Inr (Some (AnyInt (sint v))) | _ \<Rightarrow> bad_wire ''AnyValue.int_value'')
      else if field = 4 then
        (case w of Fixed64 v \<Rightarrow> Inr (Some (AnyDouble v)) | _ \<Rightarrow> bad_wire ''AnyValue.double_value'')
      else if field = 5 then
        (case w of Len _ bs \<Rightarrow> Inr (Some (ArrayRaw bs)) | _ \<Rightarrow> bad_wire ''AnyValue.array_value'')
      else if field = 6 then
        (case w of Len _ bs \<Rightarrow> Inr (Some (KvListRaw bs)) | _ \<Rightarrow> bad_wire ''AnyValue.kvlist_value'')
      else if field = 7 then
        (case w of Len _ bs \<Rightarrow> Inr (Some (AnyBytes bs)) | _ \<Rightarrow> bad_wire ''AnyValue.bytes_value'')
      else Inr out)"

definition decode_any_value_wire :: "(bytes \<Rightarrow> bool) \<Rightarrow> bytes \<Rightarrow> WireAny option proj" where
  "decode_any_value_wire simd input = for_each_field (any_value_visit simd) None input"

definition key_value_visit ::
  "(bytes \<Rightarrow> bool) \<Rightarrow> bytes \<times> WireAny option \<Rightarrow> u32 \<Rightarrow> WireField \<Rightarrow> (bytes \<times> WireAny option) proj" where
  "key_value_visit simd kv field w =
     (if field = 1 then
        (case w of Len _ bs \<Rightarrow> Inr (bs, snd kv) | _ \<Rightarrow> bad_wire ''KeyValue.key'')
      else if field = 2 then
        (case w of
           Len _ bs \<Rightarrow> bindE (decode_any_value_wire simd bs)
             (\<lambda>decoded. Inr (case decoded of None \<Rightarrow> kv | Some v \<Rightarrow> (fst kv, Some v)))
         | _ \<Rightarrow> bad_wire ''KeyValue.value'')
      else Inr kv)"

definition decode_key_value_wire :: "(bytes \<Rightarrow> bool) \<Rightarrow> bytes \<Rightarrow> (bytes \<times> WireAny) option proj" where
  "decode_key_value_wire simd input =
     bindE (for_each_field (key_value_visit simd) ([], None) input)
       (\<lambda>(key, v). Inr (map_option (\<lambda>v. (key, v)) v))"

text \<open>
  The inlined decoders. The branches that skip an unknown field are shared by both, with
  the error texts of their message.
\<close>

definition skip_unknown :: "string \<Rightarrow> u32 \<Rightarrow> u8 \<Rightarrow> bytes \<Rightarrow> bytes proj" where
  "skip_unknown what field wire_type rest =
     (if wire_type = 0 then bindE (read_varint rest) (\<lambda>(_, rest'). Inr rest')
      else if wire_type = 1 then bindE (take_bytes 8 (''truncated fixed64 in '' @ what) rest) (\<lambda>(_, rest'). Inr rest')
      else if wire_type = 2 then bindE (take_len (''truncated LEN in '' @ what) rest) (\<lambda>(_, rest'). Inr rest')
      else if wire_type = 3 then skip_group field rest
      else if wire_type = 4 then Inl (Invalid (''unexpected end group in '' @ what))
      else if wire_type = 5 then bindE (take_bytes 4 (''truncated fixed32 in '' @ what) rest) (\<lambda>(_, rest'). Inr rest')
      else Inl (Invalid (''invalid wire type in '' @ what)))"

lemma skip_unknown_shorter: "skip_unknown what field wt input = Inr rest \<Longrightarrow> length rest \<le> length input"
  by (auto simp: skip_unknown_def bindE_Inr skip_group_def split: if_splits
      dest!: reader_lengths skip_group_loop_shorter)

text \<open>One turn of the loop of \<^verbatim>\<open>decode_any_value_inline\<close>: the new \<^verbatim>\<open>out\<close> and the rest.\<close>

definition any_inline_step ::
  "(bytes \<Rightarrow> bool) \<Rightarrow> WireAny option \<Rightarrow> bytes \<Rightarrow> (WireAny option \<times> bytes) proj" where
  "any_inline_step simd out input =
     bindE (read_varint input) (\<lambda>(tag, rest).
       let field = ucast (drop_bit 3 tag) :: u32; wire_type = ucast (tag AND 0x07) :: u8
       in if field = 1 then
            (if wire_type = 2 then
               bindE (take_len ''truncated AnyValue.string_value'' rest) (\<lambda>(bs, rest').
                 bindE (require_utf8 simd bs ''invalid UTF-8 AnyValue string'') (\<lambda>s. Inr (Some (AnyString s), rest')))
             else bad_wire ''AnyValue.string_value'')
          else if field = 2 then
            (if wire_type = 0 then bindE (read_varint rest) (\<lambda>(v, rest'). Inr (Some (AnyBool (v \<noteq> 0)), rest'))
             else bad_wire ''AnyValue.bool_value'')
          else if field = 3 then
            (if wire_type = 0 then bindE (read_varint rest) (\<lambda>(v, rest'). Inr (Some (AnyInt (sint v)), rest'))
             else bad_wire ''AnyValue.int_value'')
          else if field = 4 then
            (if wire_type = 1 then
               bindE (take_bytes 8 ''truncated AnyValue.double_value'' rest)
                 (\<lambda>(bs, rest'). Inr (Some (AnyDouble (from_le_bytes bs)), rest'))
             else bad_wire ''AnyValue.double_value'')
          else if field = 5 then
            (if wire_type = 2 then
               bindE (take_len ''truncated AnyValue.array_value'' rest) (\<lambda>(bs, rest'). Inr (Some (ArrayRaw bs), rest'))
             else bad_wire ''AnyValue.array_value'')
          else if field = 6 then
            (if wire_type = 2 then
               bindE (take_len ''truncated AnyValue.kvlist_value'' rest) (\<lambda>(bs, rest'). Inr (Some (KvListRaw bs), rest'))
             else bad_wire ''AnyValue.kvlist_value'')
          else if field = 7 then
            (if wire_type = 2 then
               bindE (take_len ''truncated AnyValue.bytes_value'' rest) (\<lambda>(bs, rest'). Inr (Some (AnyBytes bs), rest'))
             else bad_wire ''AnyValue.bytes_value'')
          else bindE (skip_unknown ''AnyValue'' field wire_type rest) (\<lambda>rest'. Inr (out, rest')))"

lemma any_inline_step_shorter: "any_inline_step simd out input = Inr (out', rest) \<Longrightarrow> length rest < length input"
  by (auto simp: any_inline_step_def bindE_Inr Let_def split: if_splits
      dest!: reader_lengths skip_unknown_shorter)

function any_inline_loop :: "(bytes \<Rightarrow> bool) \<Rightarrow> WireAny option \<Rightarrow> bytes \<Rightarrow> WireAny option proj" where
  "any_inline_loop simd out input =
     (if input = [] then Inr out
      else bindE (any_inline_step simd out input) (\<lambda>(out', rest). any_inline_loop simd out' rest))"
  by pat_completeness auto
termination
  by (relation "measure (\<lambda>(_, _, input). length input)") (auto dest: any_inline_step_shorter)

declare any_inline_loop.simps [simp del]

definition decode_any_value_inline :: "(bytes \<Rightarrow> bool) \<Rightarrow> bytes \<Rightarrow> WireAny option proj" where
  "decode_any_value_inline simd input = any_inline_loop simd None input"

definition kv_inline_step ::
  "(bytes \<Rightarrow> bool) \<Rightarrow> bytes \<times> WireAny option \<Rightarrow> bytes \<Rightarrow> ((bytes \<times> WireAny option) \<times> bytes) proj" where
  "kv_inline_step simd kv input =
     bindE (read_varint input) (\<lambda>(tag, rest).
       let field = ucast (drop_bit 3 tag) :: u32; wire_type = ucast (tag AND 0x07) :: u8
       in if field = 1 then
            (if wire_type = 2 then
               bindE (take_len ''truncated KeyValue.key'' rest) (\<lambda>(bs, rest'). Inr ((bs, snd kv), rest'))
             else bad_wire ''KeyValue.key'')
          else if field = 2 then
            (if wire_type = 2 then
               bindE (take_len ''truncated KeyValue.value'' rest) (\<lambda>(bs, rest').
                 bindE (decode_any_value_inline simd bs) (\<lambda>decoded.
                   Inr (case decoded of None \<Rightarrow> kv | Some v \<Rightarrow> (fst kv, Some v), rest')))
             else bad_wire ''KeyValue.value'')
          else bindE (skip_unknown ''KeyValue'' field wire_type rest) (\<lambda>rest'. Inr (kv, rest')))"

lemma kv_inline_step_shorter: "kv_inline_step simd kv input = Inr (kv', rest) \<Longrightarrow> length rest < length input"
  by (auto simp: kv_inline_step_def bindE_Inr Let_def split: if_splits
      dest!: reader_lengths skip_unknown_shorter)

function kv_inline_loop ::
  "(bytes \<Rightarrow> bool) \<Rightarrow> bytes \<times> WireAny option \<Rightarrow> bytes \<Rightarrow> (bytes \<times> WireAny option) proj" where
  "kv_inline_loop simd kv input =
     (if input = [] then Inr kv
      else bindE (kv_inline_step simd kv input) (\<lambda>(kv', rest). kv_inline_loop simd kv' rest))"
  by pat_completeness auto
termination
  by (relation "measure (\<lambda>(_, _, input). length input)") (auto dest: kv_inline_step_shorter)

declare kv_inline_loop.simps [simp del]

definition decode_kv_inline :: "(bytes \<Rightarrow> bool) \<Rightarrow> bytes \<Rightarrow> (bytes \<times> WireAny) option proj" where
  "decode_kv_inline simd input =
     bindE (kv_inline_loop simd ([], None) input) (\<lambda>(key, v). Inr (map_option (\<lambda>v. (key, v)) v))"

subsection \<open>The inlined decoder against the reference\<close>

definition number_error :: "ProjectionError \<Rightarrow> bool" where
  "number_error e \<longleftrightarrow>
     e = Invalid ''protobuf field number zero'' \<or> e = Invalid ''protobuf field number out of range''"

definition wire_error :: "ProjectionError \<Rightarrow> bool" where
  "wire_error e \<longleftrightarrow> (\<exists>what. e = Invalid (''invalid wire type for '' @ what))"

text \<open>
  \<open>agrees r i\<close>: what \<open>i\<close> accepts, the reference \<open>r\<close> accepts with the same result or rejects
  for a field number; what \<open>i\<close> rejects, \<open>r\<close> rejects, unless \<open>i\<close> objects to a wire type.
\<close>

definition agrees :: "'a proj \<Rightarrow> 'a proj \<Rightarrow> bool" where
  "agrees r i \<longleftrightarrow>
     (case i of
        Inr x \<Rightarrow> (case r of Inr y \<Rightarrow> y = x | Inl e \<Rightarrow> number_error e)
      | Inl e \<Rightarrow> isl r \<or> wire_error e)"

lemma agrees_simps [simp]:
  "agrees (Inr y) (Inr x) \<longleftrightarrow> y = x"
  "agrees (Inl e) (Inr x) \<longleftrightarrow> number_error e"
  "agrees r (Inl e') \<longleftrightarrow> isl r \<or> wire_error e'"
  by (simp_all add: agrees_def)

lemma wire_error_bad [simp]: "wire_error (Invalid (CHR ''i'' # CHR ''n'' # CHR ''v'' # CHR ''a'' # CHR ''l'' #
    CHR ''i'' # CHR ''d'' # CHR '' '' # CHR ''w'' # CHR ''i'' # CHR ''r'' # CHR ''e'' # CHR '' '' # CHR ''t'' #
    CHR ''y'' # CHR ''p'' # CHR ''e'' # CHR '' '' # CHR ''f'' # CHR ''o'' # CHR ''r'' # CHR '' '' # what))"
  by (simp add: wire_error_def)

lemma isl_bindE [simp]: "isl (bindE m f) \<longleftrightarrow> (\<forall>x. m = Inr x \<longrightarrow> isl (f x))"
  by (cases m) simp_all

lemma agrees_refl: "agrees r r"
  by (cases r) simp_all

lemma agrees_number: "number_error e \<Longrightarrow> agrees (Inl e) i"
  by (cases i) simp_all

lemma agrees_bind:
  "agrees r i \<Longrightarrow> (\<And>x. r = Inr x \<Longrightarrow> agrees (f x) (g x)) \<Longrightarrow> agrees (bindE r f) (bindE i g)"
  by (cases r; cases i) (auto intro: agrees_number)

lemma agrees_take_bytes: "agrees (take_bytes n err input) (take_bytes n err' input)"
  by (simp add: take_bytes_def)

lemma agrees_take_len: "agrees (take_len err input) (take_len err' input)"
  unfolding take_len_def by (rule agrees_bind) (auto intro: agrees_refl agrees_take_bytes)

lemmas agrees_intros = agrees_refl agrees_take_bytes agrees_take_len

text \<open>A turn of the reference walk: the field and the call of the closure.\<close>

definition walk_step ::
  "('s \<Rightarrow> u32 \<Rightarrow> WireField \<Rightarrow> 's proj) \<Rightarrow> nat \<Rightarrow> 's \<Rightarrow> bytes \<Rightarrow> ('s \<times> bytes) proj" where
  "walk_step visit whole st input =
     bindE (read_field whole input) (\<lambda>(f, rest).
       case f of None \<Rightarrow> Inr (st, rest) | Some (field, w) \<Rightarrow> bindE (visit st field w) (\<lambda>st'. Inr (st', rest)))"

lemma for_each_field_loop_step:
  "for_each_field_loop visit whole st input =
     (if input = [] then Inr st
      else bindE (walk_step visit whole st input) (\<lambda>(st', rest). for_each_field_loop visit whole st' rest))"
  by (subst for_each_field_loop.simps)
    (auto simp: walk_step_def bindE_def split: sum.splits prod.splits option.splits)

lemma walk_step_shorter: "walk_step visit whole st input = Inr (st', rest) \<Longrightarrow> length rest < length input"
  by (auto simp: walk_step_def bindE_Inr split: option.splits dest!: read_field_shorter)

lemma agrees_field_number: "agrees (decode_field_number key) (Inr (ucast (drop_bit 3 key)))"
proof -
  have "drop_bit 3 key < 2 ^ 32" if "\<not> 0x1FFFFFFF < drop_bit 3 key"
    using that by (simp add: word_less_nat_alt)
  then show ?thesis
    by (simp add: decode_field_number_def Let_def PROTOBUF_MAX_FIELD_NUMBER_def number_error_def)
qed

lemma wire_type_cases:
  obtains "wt = (0 :: u8)" | "wt = 1" | "wt = 2" | "wt = 3" | "wt = 4" | "wt = 5"
    | "wt \<noteq> 0" "wt \<noteq> 1" "wt \<noteq> 2" "wt \<noteq> 3" "wt \<noteq> 4" "wt \<noteq> 5"
  by metis

lemma agrees_walk_step:
  assumes "\<And>key rest field. read_varint input = Inr (key, rest) \<Longrightarrow> decode_field_number key = Inr field \<Longrightarrow>
     field = ucast (drop_bit 3 key) \<Longrightarrow>
     agrees (walk_step visit whole st input) (inline input)"
    and "isl (read_varint input) \<Longrightarrow> isl (inline input)"
  shows "agrees (walk_step visit whole st input) (inline input)"
proof (cases "read_varint input")
  case (Inl e)
  then show ?thesis using assms(2) by (auto simp: walk_step_def read_field_def isl_def)
next
  case (Inr kr)
  then obtain key rest where k: "read_varint input = Inr (key, rest)" by (cases kr) simp
  show ?thesis
  proof (cases "decode_field_number key")
    case (Inl e)
    then show ?thesis
      using k agrees_field_number [of key] by (simp add: walk_step_def read_field_def agrees_number)
  next
    case (Inr field)
    then show ?thesis using assms(1) [OF k] agrees_field_number [of key] by simp
  qed
qed

lemma bindE_assoc: "bindE (bindE m f) g = bindE m (\<lambda>x. bindE (f x) g)"
  by (cases m) simp_all

lemma walk_step_eq:
  assumes "read_varint input = Inr (key, rest)" and "decode_field_number key = Inr field"
    and "(wt :: u8) = ucast (key AND 0x07)"
  shows "walk_step visit whole st input =
    (if wt = 0 then bindE (read_varint rest) (\<lambda>(v, rest'). bindE (visit st field (Varint v)) (\<lambda>st'. Inr (st', rest')))
     else if wt = 1 then bindE (take_bytes 8 ''truncated fixed64 field'' rest)
       (\<lambda>(bs, rest'). bindE (visit st field (Fixed64 (from_le_bytes bs))) (\<lambda>st'. Inr (st', rest')))
     else if wt = 2 then bindE (take_len ''truncated length-delimited field'' rest)
       (\<lambda>(bs, rest'). bindE (visit st field (Len (whole - length rest' - length bs) bs)) (\<lambda>st'. Inr (st', rest')))
     else if wt = 5 then bindE (take_bytes 4 ''truncated fixed32 field'' rest)
       (\<lambda>(bs, rest'). bindE (visit st field (Fixed32 (from_le_bytes bs))) (\<lambda>st'. Inr (st', rest')))
     else if wt = 3 then bindE (skip_group field rest) (\<lambda>rest'. Inr (st, rest'))
     else if wt = 4 then Inl (Invalid ''unexpected protobuf end group'')
     else Inl (Invalid ''invalid protobuf wire type''))"
  unfolding walk_step_def read_field_def assms(1,2) bindE_simps split_conv Let_def assms(3) [symmetric]
  by (cases wt rule: wire_type_cases) (simp_all add: bindE_assoc split_def)

lemma agrees_any_step: "agrees (walk_step (any_value_visit simd) whole out input) (any_inline_step simd out input)"
proof (rule agrees_walk_step)
  fix key rest field
  assume k: "read_varint input = Inr (key, rest)" and f: "decode_field_number key = Inr field"
    and field: "field = ucast (drop_bit 3 key)"
  define wt :: u8 where "wt = ucast (key AND 0x07)"
  show "agrees (walk_step (any_value_visit simd) whole out input) (any_inline_step simd out input)"
    unfolding walk_step_eq [OF k f wt_def] any_inline_step_def k bindE_simps split_conv Let_def
      field [symmetric] wt_def [symmetric]
    by (cases wt rule: wire_type_cases)
      (simp_all add: any_value_visit_def skip_unknown_def bindE_assoc split_def agrees_bind agrees_intros)
qed (auto simp: any_inline_step_def isl_def)

lemma agrees_loop:
  assumes step: "\<And>st input. agrees (walk_step visit whole st input) (inline_step st input)"
    and loop: "\<And>st input. inline_loop st input =
      (if input = [] then Inr st else bindE (inline_step st input) (\<lambda>(st', rest). inline_loop st' rest))"
  shows "agrees (for_each_field_loop visit whole st input) (inline_loop st input)"
proof (induction "length input" arbitrary: st input rule: less_induct)
  case less
  show ?case
  proof (cases "input = []")
    case True
    then show ?thesis by (subst for_each_field_loop_step, subst loop) simp
  next
    case False
    have "agrees (bindE (walk_step visit whole st input) (\<lambda>(st', rest). for_each_field_loop visit whole st' rest))
       (bindE (inline_step st input) (\<lambda>(st', rest). inline_loop st' rest))"
      using less by (intro agrees_bind step) (auto dest: walk_step_shorter)
    then show ?thesis using False by (subst for_each_field_loop_step, subst loop) simp
  qed
qed

lemma agrees_any_value: "agrees (decode_any_value_wire simd input) (decode_any_value_inline simd input)"
  unfolding decode_any_value_wire_def for_each_field_def decode_any_value_inline_def
  by (rule agrees_loop [OF agrees_any_step any_inline_loop.simps])

lemma agrees_kv_step: "agrees (walk_step (key_value_visit simd) whole kv input) (kv_inline_step simd kv input)"
proof (rule agrees_walk_step)
  fix key rest field
  assume k: "read_varint input = Inr (key, rest)" and f: "decode_field_number key = Inr field"
    and field: "field = ucast (drop_bit 3 key)"
  define wt :: u8 where "wt = ucast (key AND 0x07)"
  show "agrees (walk_step (key_value_visit simd) whole kv input) (kv_inline_step simd kv input)"
    unfolding walk_step_eq [OF k f wt_def] kv_inline_step_def k bindE_simps split_conv Let_def
      field [symmetric] wt_def [symmetric]
    by (cases wt rule: wire_type_cases)
      (simp_all add: key_value_visit_def skip_unknown_def bindE_assoc split_def agrees_bind agrees_intros
        agrees_any_value)
qed (auto simp: kv_inline_step_def isl_def)

text \<open>
  Property C10. The inlined \<^verbatim>\<open>KeyValue\<close> decoder against the reference decoder, on every input:
  a result it returns is the result of the reference, or the reference rejects the input
  for a field number that is zero or above the protobuf maximum; when it rejects, the
  reference rejects too, or the inlined decoder objects to the wire type of a known field.
\<close>

theorem kv_inline_agrees:
  "case decode_kv_inline simd input of
     Inr r \<Rightarrow> decode_key_value_wire simd input = Inr r \<or>
       (\<exists>e. decode_key_value_wire simd input = Inl e \<and> number_error e)
   | Inl e \<Rightarrow> (\<exists>e'. decode_key_value_wire simd input = Inl e') \<or> wire_error e"
proof -
  have "agrees (decode_key_value_wire simd input) (decode_kv_inline simd input)"
    unfolding decode_key_value_wire_def decode_kv_inline_def for_each_field_def
    by (intro agrees_bind agrees_loop [OF agrees_kv_step kv_inline_loop.simps]) (auto intro: agrees_refl)
  then show ?thesis
    by (auto simp: agrees_def isl_def split: sum.splits)
qed

text \<open>
  Both escapes are real. With field number zero the reference rejects and the inlined
  decoder skips; with a group under a known field number it is the other way round.
\<close>

lemma kv_inline_differs:
  "decode_key_value_wire simd [0x00, 0x05] = Inl (Invalid ''protobuf field number zero'') \<and>
   decode_kv_inline simd [0x00, 0x05] = Inr None \<and>
   decode_key_value_wire simd [0x0B, 0x0C] = Inr None \<and>
   decode_kv_inline simd [0x0B, 0x0C] = Inl (Invalid ''invalid wire type for KeyValue.key'')"
  by (intro conjI; code_simp)

subsection \<open>Scopes, log records and the enclosing messages\<close>

record ScopeFields =
  scope_name :: "bytes option"
  scope_version :: "bytes option"

definition merge_scope_visit ::
  "(bytes \<Rightarrow> bool) \<Rightarrow> ScopeFields \<Rightarrow> u32 \<Rightarrow> WireField \<Rightarrow> ScopeFields proj" where
  "merge_scope_visit simd sf field w =
     (if field = 1 then
        (case w of Len _ bs \<Rightarrow> bindE (require_utf8 simd bs ''invalid UTF-8 scope name'') (\<lambda>s. Inr (sf\<lparr>scope_name := Some s\<rparr>))
         | _ \<Rightarrow> bad_wire ''InstrumentationScope.name'')
      else if field = 2 then
        (case w of Len _ bs \<Rightarrow> bindE (require_utf8 simd bs ''invalid UTF-8 scope version'') (\<lambda>s. Inr (sf\<lparr>scope_version := Some s\<rparr>))
         | _ \<Rightarrow> bad_wire ''InstrumentationScope.version'')
      else Inr sf)"

definition merge_scope_wire :: "(bytes \<Rightarrow> bool) \<Rightarrow> bytes \<Rightarrow> ScopeFields \<Rightarrow> ScopeFields proj" where
  "merge_scope_wire simd scope sf = for_each_field (merge_scope_visit simd) sf scope"

record LogRecordFields =
  time_unix_nano :: u64
  observed_time_unix_nano :: u64
  severity_number :: int
  severity_text :: "bytes option"
  lr_body :: "WireAny option"
  trace_id :: "bytes option"
  span_id :: "bytes option"
  lr_flags :: int

definition LogRecordFields_default :: LogRecordFields where
  "LogRecordFields_default =
     \<lparr>time_unix_nano = 0, observed_time_unix_nano = 0, severity_number = 0, severity_text = None,
      lr_body = None, trace_id = None, span_id = None, lr_flags = 0\<rparr>"

text \<open>
  The closure of \<^verbatim>\<open>decode_log_record_fields\<close>. It captures \<^verbatim>\<open>out\<close> and the ranges of the
  attributes; addresses are relative to the record. \<^verbatim>\<open>value as i32\<close> keeps the low 32 bits.
\<close>

definition log_record_visit ::
  "(bytes \<Rightarrow> bool) \<Rightarrow> bytes \<Rightarrow> LogRecordFields \<times> (nat \<times> nat) list \<Rightarrow> u32 \<Rightarrow> WireField \<Rightarrow>
     (LogRecordFields \<times> (nat \<times> nat) list) proj" where
  "log_record_visit simd log_record st field w =
     (let (out, ranges) = st
      in if field = 1 then
           (case w of Fixed64 v \<Rightarrow> Inr (out\<lparr>time_unix_nano := v\<rparr>, ranges) | _ \<Rightarrow> bad_wire ''LogRecord.time_unix_nano'')
         else if field = 11 then
           (case w of Fixed64 v \<Rightarrow> Inr (out\<lparr>observed_time_unix_nano := v\<rparr>, ranges)
            | _ \<Rightarrow> bad_wire ''LogRecord.observed_time_unix_nano'')
         else if field = 2 then
           (case w of Varint v \<Rightarrow> Inr (out\<lparr>severity_number := sint (ucast v :: u32)\<rparr>, ranges)
            | _ \<Rightarrow> bad_wire ''LogRecord.severity_number'')
         else if field = 3 then
           (case w of
              Len _ bs \<Rightarrow>
                if bs = [] then Inr (out\<lparr>severity_text := None\<rparr>, ranges)
                else bindE (require_utf8 simd bs ''invalid UTF-8 severity text'')
                  (\<lambda>s. Inr (out\<lparr>severity_text := Some s\<rparr>, ranges))
            | _ \<Rightarrow> bad_wire ''LogRecord.severity_text'')
         else if field = 5 then
           (case w of
              Len _ bs \<Rightarrow> bindE (decode_any_value_wire simd bs)
                (\<lambda>v. Inr (case v of None \<Rightarrow> out | Some a \<Rightarrow> out\<lparr>lr_body := Some a\<rparr>, ranges))
            | _ \<Rightarrow> bad_wire ''LogRecord.body'')
         else if field = 9 then
           (case w of Len _ bs \<Rightarrow> Inr (out\<lparr>trace_id := (if bs \<noteq> [] then Some bs else None)\<rparr>, ranges)
            | _ \<Rightarrow> bad_wire ''LogRecord.trace_id'')
         else if field = 10 then
           (case w of Len _ bs \<Rightarrow> Inr (out\<lparr>span_id := (if bs \<noteq> [] then Some bs else None)\<rparr>, ranges)
            | _ \<Rightarrow> bad_wire ''LogRecord.span_id'')
         else if field = 8 then
           (case w of Fixed32 v \<Rightarrow> Inr (out\<lparr>lr_flags := uint v\<rparr>, ranges) | _ \<Rightarrow> bad_wire ''LogRecord.flags'')
         else if field = 6 then
           (case w of
              Len off bs \<Rightarrow> bindE (subslice_range (0, length log_record) (off, length bs))
                (\<lambda>r. Inr (out, ranges @ [r]))
            | _ \<Rightarrow> bad_wire ''LogRecord.attributes'')
         else if field = 7 then
           (case w of Varint _ \<Rightarrow> Inr st | _ \<Rightarrow> bad_wire ''LogRecord.dropped_attributes_count'')
         else if field = 12 then
           (case w of
              Len _ bs \<Rightarrow>
                if bs \<noteq> [] then bindE (require_utf8 simd bs ''invalid UTF-8 LogRecord.event_name'') (\<lambda>_. Inr st)
                else Inr st
            | _ \<Rightarrow> bad_wire ''LogRecord.event_name'')
         else Inr st)"

definition decode_log_record_fields ::
  "(bytes \<Rightarrow> bool) \<Rightarrow> bytes \<Rightarrow> (nat \<times> nat) list \<Rightarrow> (LogRecordFields \<times> (nat \<times> nat) list) proj" where
  "decode_log_record_fields simd log_record ranges =
     for_each_field (log_record_visit simd log_record) (LogRecordFields_default, ranges) log_record"

text \<open>
  The walkers of the enclosing messages all pass the payloads of one field number to their
  closure and reject another wire type under it.
\<close>

definition submessage_visit ::
  "u32 \<Rightarrow> string \<Rightarrow> ('s \<Rightarrow> bytes \<Rightarrow> 's proj) \<Rightarrow> 's \<Rightarrow> u32 \<Rightarrow> WireField \<Rightarrow> 's proj" where
  "submessage_visit number what visit st field w =
     (if field = number then (case w of Len _ bs \<Rightarrow> visit st bs | _ \<Rightarrow> bad_wire what) else Inr st)"

definition for_each_export_resource_logs :: "('s \<Rightarrow> bytes \<Rightarrow> 's proj) \<Rightarrow> 's \<Rightarrow> bytes \<Rightarrow> 's proj" where
  "for_each_export_resource_logs visit =
     for_each_field (submessage_visit 1 ''ExportLogsServiceRequest.resource_logs'' visit)"

definition for_each_resource_logs_resource :: "('s \<Rightarrow> bytes \<Rightarrow> 's proj) \<Rightarrow> 's \<Rightarrow> bytes \<Rightarrow> 's proj" where
  "for_each_resource_logs_resource visit =
     for_each_field (submessage_visit 1 ''ResourceLogs.resource'' visit)"

definition for_each_resource_logs_scope_logs :: "('s \<Rightarrow> bytes \<Rightarrow> 's proj) \<Rightarrow> 's \<Rightarrow> bytes \<Rightarrow> 's proj" where
  "for_each_resource_logs_scope_logs visit =
     for_each_field (submessage_visit 2 ''ResourceLogs.scope_logs'' visit)"

definition for_each_resource_attribute :: "('s \<Rightarrow> bytes \<Rightarrow> 's proj) \<Rightarrow> 's \<Rightarrow> bytes \<Rightarrow> 's proj" where
  "for_each_resource_attribute visit =
     for_each_field (submessage_visit 1 ''Resource.attributes'' visit)"

definition for_each_scope_logs_scope :: "('s \<Rightarrow> bytes \<Rightarrow> 's proj) \<Rightarrow> 's \<Rightarrow> bytes \<Rightarrow> 's proj" where
  "for_each_scope_logs_scope visit =
     for_each_field (submessage_visit 1 ''ScopeLogs.scope'' visit)"

definition for_each_scope_logs_log_record :: "('s \<Rightarrow> bytes \<Rightarrow> 's proj) \<Rightarrow> 's \<Rightarrow> bytes \<Rightarrow> 's proj" where
  "for_each_scope_logs_log_record visit =
     for_each_field (submessage_visit 2 ''ScopeLogs.log_records'' visit)"

end
