(* ===== verification/Otlp_Preflight.thy ===== *)
theory Otlp_Preflight
  imports Otlp_Projection
begin

text \<open>
  The preflight of the OTLP receiver, \<^verbatim>\<open>classify_projection_support\<close> of
  \<^verbatim>\<open>ffwd-io/src/otlp_receiver/projection/generated.rs\<close>: the field tables and the scan that
  validates a request against them before anything is written to the builder. The scan is
  recursive on untrusted input, so it is defined without a termination argument and shown to
  return; what it accepts, the decoders can only reject for invalid UTF-8.
\<close>

subsection \<open>The field tables\<close>

datatype WireKind = WVarint | WFixed64 | WLen | WStartGroup | WEndGroup | WFixed32

datatype ProjectionAction = Project | Descend | Ignore | UnsupportedField

datatype MessageKind =
    ExportLogsServiceRequest | ResourceLogs | Resource | ScopeLogs | InstrumentationScope
  | LogRecord | KeyValue | AnyValue | ArrayValue | KeyValueList

record FieldRule =
  rule_number :: u32
  rule_name :: string
  expected_wire :: WireKind
  rule_action :: ProjectionAction
  rule_child :: "MessageKind option"

definition field_rule :: "u32 \<Rightarrow> string \<Rightarrow> WireKind \<Rightarrow> ProjectionAction \<Rightarrow> MessageKind option \<Rightarrow> FieldRule" where
  "field_rule n name wire act ch =
     \<lparr>rule_number = n, rule_name = name, expected_wire = wire, rule_action = act, rule_child = ch\<rparr>"

definition EXPORTLOGSSERVICEREQUEST_FIELDS :: "FieldRule list" where
  "EXPORTLOGSSERVICEREQUEST_FIELDS = [field_rule 1 ''resource_logs'' WLen Descend (Some ResourceLogs)]"

definition RESOURCELOGS_FIELDS :: "FieldRule list" where
  "RESOURCELOGS_FIELDS =
     [field_rule 1 ''resource'' WLen Descend (Some Resource),
      field_rule 2 ''scope_logs'' WLen Descend (Some ScopeLogs),
      field_rule 3 ''schema_url'' WLen Ignore None]"

definition RESOURCE_FIELDS :: "FieldRule list" where
  "RESOURCE_FIELDS =
     [field_rule 1 ''attributes'' WLen Descend (Some KeyValue),
      field_rule 2 ''dropped_attributes_count'' WVarint Ignore None,
      field_rule 3 ''entity_refs'' WLen Ignore None]"

definition SCOPELOGS_FIELDS :: "FieldRule list" where
  "SCOPELOGS_FIELDS =
     [field_rule 1 ''scope'' WLen Descend (Some InstrumentationScope),
      field_rule 2 ''log_records'' WLen Descend (Some LogRecord),
      field_rule 3 ''schema_url'' WLen Ignore None]"

definition INSTRUMENTATIONSCOPE_FIELDS :: "FieldRule list" where
  "INSTRUMENTATIONSCOPE_FIELDS =
     [field_rule 1 ''name'' WLen Project None,
      field_rule 2 ''version'' WLen Project None,
      field_rule 3 ''attributes'' WLen Ignore None,
      field_rule 4 ''dropped_attributes_count'' WVarint Ignore None]"

definition LOGRECORD_FIELDS :: "FieldRule list" where
  "LOGRECORD_FIELDS =
     [field_rule 1 ''time_unix_nano'' WFixed64 Project None,
      field_rule 2 ''severity_number'' WVarint Project None,
      field_rule 3 ''severity_text'' WLen Project None,
      field_rule 5 ''body'' WLen Descend (Some AnyValue),
      field_rule 6 ''attributes'' WLen Descend (Some KeyValue),
      field_rule 7 ''dropped_attributes_count'' WVarint Ignore None,
      field_rule 8 ''flags'' WFixed32 Project None,
      field_rule 9 ''trace_id'' WLen Project None,
      field_rule 10 ''span_id'' WLen Project None,
      field_rule 11 ''observed_time_unix_nano'' WFixed64 Project None,
      field_rule 12 ''event_name'' WLen Ignore None]"

definition KEYVALUE_FIELDS :: "FieldRule list" where
  "KEYVALUE_FIELDS =
     [field_rule 1 ''key'' WLen Project None,
      field_rule 2 ''value'' WLen Descend (Some AnyValue)]"

definition ANYVALUE_FIELDS :: "FieldRule list" where
  "ANYVALUE_FIELDS =
     [field_rule 1 ''string_value'' WLen Project None,
      field_rule 2 ''bool_value'' WVarint Project None,
      field_rule 3 ''int_value'' WVarint Project None,
      field_rule 4 ''double_value'' WFixed64 Project None,
      field_rule 5 ''array_value'' WLen Project None,
      field_rule 6 ''kvlist_value'' WLen Project None,
      field_rule 7 ''bytes_value'' WLen Project None]"

definition ARRAYVALUE_FIELDS :: "FieldRule list" where
  "ARRAYVALUE_FIELDS = [field_rule 1 ''values'' WLen Descend (Some AnyValue)]"

definition KEYVALUELIST_FIELDS :: "FieldRule list" where
  "KEYVALUELIST_FIELDS = [field_rule 1 ''values'' WLen Descend (Some KeyValue)]"

fun fields_for :: "MessageKind \<Rightarrow> FieldRule list" where
  "fields_for ExportLogsServiceRequest = EXPORTLOGSSERVICEREQUEST_FIELDS"
| "fields_for ResourceLogs = RESOURCELOGS_FIELDS"
| "fields_for Resource = RESOURCE_FIELDS"
| "fields_for ScopeLogs = SCOPELOGS_FIELDS"
| "fields_for InstrumentationScope = INSTRUMENTATIONSCOPE_FIELDS"
| "fields_for LogRecord = LOGRECORD_FIELDS"
| "fields_for KeyValue = KEYVALUE_FIELDS"
| "fields_for AnyValue = ANYVALUE_FIELDS"
| "fields_for ArrayValue = ARRAYVALUE_FIELDS"
| "fields_for KeyValueList = KEYVALUELIST_FIELDS"

text \<open>The generated lookup goes by number to a fixed position of the table.\<close>

fun lookup_field :: "MessageKind \<Rightarrow> u32 \<Rightarrow> FieldRule option" where
  "lookup_field ExportLogsServiceRequest n = (if n = 1 then Some (EXPORTLOGSSERVICEREQUEST_FIELDS ! 0) else None)"
| "lookup_field ResourceLogs n =
     (if n = 1 then Some (RESOURCELOGS_FIELDS ! 0)
      else if n = 2 then Some (RESOURCELOGS_FIELDS ! 1)
      else if n = 3 then Some (RESOURCELOGS_FIELDS ! 2) else None)"
| "lookup_field Resource n =
     (if n = 1 then Some (RESOURCE_FIELDS ! 0)
      else if n = 2 then Some (RESOURCE_FIELDS ! 1)
      else if n = 3 then Some (RESOURCE_FIELDS ! 2) else None)"
| "lookup_field ScopeLogs n =
     (if n = 1 then Some (SCOPELOGS_FIELDS ! 0)
      else if n = 2 then Some (SCOPELOGS_FIELDS ! 1)
      else if n = 3 then Some (SCOPELOGS_FIELDS ! 2) else None)"
| "lookup_field InstrumentationScope n =
     (if n = 1 then Some (INSTRUMENTATIONSCOPE_FIELDS ! 0)
      else if n = 2 then Some (INSTRUMENTATIONSCOPE_FIELDS ! 1)
      else if n = 3 then Some (INSTRUMENTATIONSCOPE_FIELDS ! 2)
      else if n = 4 then Some (INSTRUMENTATIONSCOPE_FIELDS ! 3) else None)"
| "lookup_field LogRecord n =
     (if n = 1 then Some (LOGRECORD_FIELDS ! 0)
      else if n = 2 then Some (LOGRECORD_FIELDS ! 1)
      else if n = 3 then Some (LOGRECORD_FIELDS ! 2)
      else if n = 5 then Some (LOGRECORD_FIELDS ! 3)
      else if n = 6 then Some (LOGRECORD_FIELDS ! 4)
      else if n = 7 then Some (LOGRECORD_FIELDS ! 5)
      else if n = 8 then Some (LOGRECORD_FIELDS ! 6)
      else if n = 9 then Some (LOGRECORD_FIELDS ! 7)
      else if n = 10 then Some (LOGRECORD_FIELDS ! 8)
      else if n = 11 then Some (LOGRECORD_FIELDS ! 9)
      else if n = 12 then Some (LOGRECORD_FIELDS ! 10) else None)"
| "lookup_field KeyValue n =
     (if n = 1 then Some (KEYVALUE_FIELDS ! 0) else if n = 2 then Some (KEYVALUE_FIELDS ! 1) else None)"
| "lookup_field AnyValue n =
     (if n = 1 then Some (ANYVALUE_FIELDS ! 0)
      else if n = 2 then Some (ANYVALUE_FIELDS ! 1)
      else if n = 3 then Some (ANYVALUE_FIELDS ! 2)
      else if n = 4 then Some (ANYVALUE_FIELDS ! 3)
      else if n = 5 then Some (ANYVALUE_FIELDS ! 4)
      else if n = 6 then Some (ANYVALUE_FIELDS ! 5)
      else if n = 7 then Some (ANYVALUE_FIELDS ! 6) else None)"
| "lookup_field ArrayValue n = (if n = 1 then Some (ARRAYVALUE_FIELDS ! 0) else None)"
| "lookup_field KeyValueList n = (if n = 1 then Some (KEYVALUELIST_FIELDS ! 0) else None)"

declare lookup_field.simps [simp del]

lemmas table_defs = lookup_field.simps field_rule_def EXPORTLOGSSERVICEREQUEST_FIELDS_def RESOURCELOGS_FIELDS_def RESOURCE_FIELDS_def
  SCOPELOGS_FIELDS_def INSTRUMENTATIONSCOPE_FIELDS_def LOGRECORD_FIELDS_def KEYVALUE_FIELDS_def ANYVALUE_FIELDS_def
  ARRAYVALUE_FIELDS_def KEYVALUELIST_FIELDS_def

subsection \<open>Reading fields\<close>

text \<open>
  The generated module has its own copies of the readers. Its \<^verbatim>\<open>read_varint\<close> is the loop
  without the one-byte path; its \<^verbatim>\<open>decode_field_number\<close> is that of \<^verbatim>\<open>wire.rs\<close>.
\<close>

definition scan_varint :: "bytes \<Rightarrow> (u64 \<times> bytes) proj" where
  "scan_varint input = read_varint_loop 0 0 input"

definition consume_fixed :: "nat \<Rightarrow> string \<Rightarrow> bytes \<Rightarrow> bytes proj" where
  "consume_fixed len msg input = (if length input < len then Inl (Invalid msg) else Inr (drop len input))"

definition consume_len :: "bytes \<Rightarrow> (bytes \<times> bytes) proj" where
  "consume_len input =
     bindE (scan_varint input) (\<lambda>(len, rest).
       if length rest < unat len then Inl (Invalid ''truncated length-delimited field'')
       else Inr (take (unat len) rest, drop (unat len) rest))"

definition decode_wire_kind :: "u8 \<Rightarrow> WireKind proj" where
  "decode_wire_kind wire_type =
     (if wire_type = 0 then Inr WVarint
      else if wire_type = 1 then Inr WFixed64
      else if wire_type = 2 then Inr WLen
      else if wire_type = 3 then Inr WStartGroup
      else if wire_type = 4 then Inr WEndGroup
      else if wire_type = 5 then Inr WFixed32
      else Inl (Invalid ''invalid protobuf wire type''))"

lemma scan_varint_eq: "scan_varint input = read_varint input"
  by (simp add: scan_varint_def read_varint_eq_loop)

lemma consume_fixed_eq: "consume_fixed n msg input = bindE (take_bytes n msg input) (\<lambda>(_, rest). Inr rest)"
  by (simp add: consume_fixed_def take_bytes_def)

lemma consume_len_eq: "consume_len input = take_len ''truncated length-delimited field'' input"
  by (simp add: consume_len_def take_len_def take_bytes_def scan_varint_eq)

lemma consume_lengths:
  "scan_varint input = Inr (v, rest) \<Longrightarrow> length rest < length input"
  "consume_fixed n msg input = Inr rest \<Longrightarrow> length rest \<le> length input"
  "consume_len input = Inr (bs, rest) \<Longrightarrow> length rest < length input"
  by (auto simp: scan_varint_eq consume_len_eq consume_fixed_def dest: reader_lengths split: if_splits)

function scan_skip_loop :: "u32 list \<Rightarrow> bytes \<Rightarrow> bytes proj" where
  "scan_skip_loop stack input =
     (if input = [] then Inl (Invalid ''unterminated protobuf group'')
      else bindE (scan_varint input) (\<lambda>(key, rest).
        bindE (decode_field_number key) (\<lambda>field.
        bindE (decode_wire_kind (ucast (key AND 0x07))) (\<lambda>wire.
          case wire of
            WVarint \<Rightarrow> bindE (scan_varint rest) (\<lambda>(_, rest'). scan_skip_loop stack rest')
          | WFixed64 \<Rightarrow> bindE (consume_fixed 8 ''truncated fixed64 field'' rest) (scan_skip_loop stack)
          | WLen \<Rightarrow> bindE (consume_len rest) (\<lambda>(_, rest'). scan_skip_loop stack rest')
          | WStartGroup \<Rightarrow>
              if length stack = PROTOBUF_MAX_GROUP_DEPTH then Inl (Invalid ''protobuf group nesting too deep'')
              else scan_skip_loop (field # stack) rest
          | WEndGroup \<Rightarrow>
              (case stack of
                 [] \<Rightarrow> Inl (Invalid ''mismatched protobuf end group'')
               | open_field # stack' \<Rightarrow>
                   if field \<noteq> open_field then Inl (Invalid ''mismatched protobuf end group'')
                   else if stack' = [] then Inr rest
                   else scan_skip_loop stack' rest)
          | WFixed32 \<Rightarrow> bindE (consume_fixed 4 ''truncated fixed32 field'' rest) (scan_skip_loop stack)))))"
  by pat_completeness auto
termination
  by (relation "measure (length \<circ> snd)") (auto dest!: consume_lengths)

declare scan_skip_loop.simps [simp del]

definition scan_skip_group :: "u32 \<Rightarrow> bytes \<Rightarrow> bytes proj" where
  "scan_skip_group start_field input = scan_skip_loop [start_field] input"

lemma scan_skip_loop_eq: "scan_skip_loop stack input = skip_group_loop stack input"
proof (induction "length input" arbitrary: stack input rule: less_induct)
  case less
  have rec: "scan_skip_loop st r = skip_group_loop st r" if "length r < length input" for st r
    using less that by simp
  show ?case
    unfolding scan_skip_loop.simps [of stack input] skip_group_loop.simps [of stack input]
    by (auto simp: scan_varint_eq consume_fixed_eq consume_len_eq bindE_assoc decode_wire_kind_def Let_def
        intro!: bindE_cong rec dest!: reader_lengths split: list.splits)
qed

lemma scan_skip_group_eq: "scan_skip_group = skip_group"
  by (simp add: fun_eq_iff scan_skip_group_def skip_group_def scan_skip_loop_eq)

subsection \<open>The scan\<close>

text \<open>
  One field as both scans read it: number, wire kind, payload of a length-delimited field,
  and the rest.
\<close>

definition consume_payload :: "WireKind \<Rightarrow> u32 \<Rightarrow> bytes \<Rightarrow> (bytes option \<times> bytes) proj" where
  "consume_payload wire field input =
     (case wire of
        WVarint \<Rightarrow> bindE (scan_varint input) (\<lambda>(_, rest). Inr (None, rest))
      | WFixed64 \<Rightarrow> bindE (consume_fixed 8 ''truncated fixed64 field'' input) (\<lambda>rest. Inr (None, rest))
      | WLen \<Rightarrow> bindE (consume_len input) (\<lambda>(bs, rest). Inr (Some bs, rest))
      | WStartGroup \<Rightarrow> bindE (scan_skip_group field input) (\<lambda>rest. Inr (None, rest))
      | WEndGroup \<Rightarrow> Inl (Invalid ''unexpected protobuf end group'')
      | WFixed32 \<Rightarrow> bindE (consume_fixed 4 ''truncated fixed32 field'' input) (\<lambda>rest. Inr (None, rest)))"

definition scan_head :: "bytes \<Rightarrow> (u32 \<times> WireKind \<times> bytes option \<times> bytes) proj" where
  "scan_head input =
     bindE (scan_varint input) (\<lambda>(key, rest).
       bindE (decode_field_number key) (\<lambda>field.
       bindE (decode_wire_kind (ucast (key AND 0x07))) (\<lambda>wire.
       bindE (consume_payload wire field rest) (\<lambda>(payload, rest'). Inr (field, wire, payload, rest')))))"

lemma scan_head_shorter: "scan_head input = Inr (field, wire, payload, rest) \<Longrightarrow> length rest < length input"
  by (cases wire)
    (auto simp: scan_head_def consume_payload_def bindE_Inr scan_skip_group_eq skip_group_def
      dest!: consume_lengths skip_group_loop_shorter)

text \<open>Whether a rule of the table objects to the wire kind.\<close>

definition wire_mismatch :: "MessageKind \<Rightarrow> u32 \<Rightarrow> WireKind \<Rightarrow> bool" where
  "wire_mismatch mk field wire \<longleftrightarrow>
     (case lookup_field mk field of None \<Rightarrow> False | Some r \<Rightarrow> wire \<noteq> expected_wire r)"

function scan_any_loop :: "ProjectionAction option \<Rightarrow> bytes \<Rightarrow> ProjectionAction option proj" where
  "scan_any_loop final_oneof input =
     (if input = [] then Inr final_oneof
      else bindE (scan_head input) (\<lambda>(field, wire, _, rest).
        case lookup_field AnyValue field of
          None \<Rightarrow> scan_any_loop final_oneof rest
        | Some r \<Rightarrow>
            if wire \<noteq> expected_wire r then Inl (Invalid ''invalid wire type for AnyValue field'')
            else scan_any_loop (Some (rule_action r)) rest))"
  by pat_completeness auto
termination
  by (relation "measure (length \<circ> snd)") (auto dest!: scan_head_shorter)

declare scan_any_loop.simps [simp del]

definition scan_any_value :: "bytes \<Rightarrow> unit proj" where
  "scan_any_value input =
     bindE (scan_any_loop None input) (\<lambda>final_oneof.
       if final_oneof = Some UnsupportedField then Inl (Unsupported ''generated AnyValue unsupported oneof'')
       else Inr ())"

text \<open>The submessage a length-delimited field of a known number leads to.\<close>

definition descend :: "MessageKind \<Rightarrow> u32 \<Rightarrow> bytes option \<Rightarrow> (bytes \<times> MessageKind) option proj" where
  "descend mk field payload =
     (case payload of
        None \<Rightarrow> Inr None
      | Some bs \<Rightarrow>
          (case lookup_field mk field of
             None \<Rightarrow> Inr None
           | Some r \<Rightarrow>
               if expected_wire r \<noteq> WLen then Inl (Invalid ''invalid wire type for projected OTLP field'')
               else Inr (map_option (Pair bs) (rule_child r))))"

definition scan_field_of :: "MessageKind \<Rightarrow> bytes \<Rightarrow> (u32 \<times> WireKind \<times> (bytes \<times> MessageKind) option \<times> bytes) proj" where
  "scan_field_of mk input =
     bindE (scan_head input) (\<lambda>(field, wire, payload, rest).
       bindE (descend mk field payload) (\<lambda>sub. Inr (field, wire, sub, rest)))"

text \<open>\<^verbatim>\<open>scan_message\<close>; \<open>None\<close> stands for a call that does not return.\<close>

partial_function (option) scan_message :: "bytes \<Rightarrow> MessageKind \<Rightarrow> unit proj option" where
  "scan_message input mk =
     (if mk = AnyValue then Some (scan_any_value input)
      else if input = [] then Some (Inr ())
      else (case scan_field_of mk input of
              Inl e \<Rightarrow> Some (Inl e)
            | Inr (field, wire, sub, rest) \<Rightarrow>
                Option.bind (case sub of None \<Rightarrow> Some (Inr ()) | Some (bs, child) \<Rightarrow> scan_message bs child)
                  (\<lambda>r. case r of
                         Inl e \<Rightarrow> Some (Inl e)
                       | Inr _ \<Rightarrow>
                           if wire_mismatch mk field wire
                           then Some (Inl (Invalid ''invalid wire type for projected OTLP field''))
                           else scan_message rest mk)))"

definition classify_projection_support :: "bytes \<Rightarrow> unit proj option" where
  "classify_projection_support input = scan_message input ExportLogsServiceRequest"

subsection \<open>The scan returns\<close>

text \<open>The tables nest messages to a bounded depth.\<close>

fun message_rank :: "MessageKind \<Rightarrow> nat" where
  "message_rank ExportLogsServiceRequest = 5"
| "message_rank ResourceLogs = 4"
| "message_rank ScopeLogs = 3"
| "message_rank LogRecord = 2"
| "message_rank Resource = 2"
| "message_rank KeyValueList = 2"
| "message_rank KeyValue = 1"
| "message_rank ArrayValue = 1"
| "message_rank InstrumentationScope = 0"
| "message_rank AnyValue = 0"

lemma child_rank:
  "lookup_field mk n = Some r \<Longrightarrow> rule_child r = Some c \<Longrightarrow> message_rank c < message_rank mk"
  by (cases mk) (auto simp: table_defs split: if_splits)

lemma child_len: "lookup_field mk n = Some r \<Longrightarrow> rule_child r = Some c \<Longrightarrow> expected_wire r = WLen"
  by (cases mk) (auto simp: table_defs split: if_splits)

lemma descend_Inr:
  "descend mk field payload = Inr (Some (bs, c)) \<longleftrightarrow>
     payload = Some bs \<and> (\<exists>r. lookup_field mk field = Some r \<and> expected_wire r = WLen \<and> rule_child r = Some c)"
  by (auto simp: descend_def split: option.splits)

lemma scan_field_of_Inr:
  "scan_field_of mk input = Inr (field, wire, sub, rest) \<longleftrightarrow>
     (\<exists>payload. scan_head input = Inr (field, wire, payload, rest) \<and> descend mk field payload = Inr sub)"
  by (auto simp: scan_field_of_def bindE_Inr)

lemma scan_field_of_smaller:
  assumes "scan_field_of mk input = Inr (field, wire, sub, rest)"
  shows "length rest < length input" and "sub = Some (bs, c) \<Longrightarrow> message_rank c < message_rank mk"
  using assms by (auto simp: scan_field_of_Inr descend_Inr child_rank dest: scan_head_shorter)

text \<open>Induction on the calls of the scan.\<close>

lemma scan_induct [case_names step]:
  assumes "\<And>mk input.
      (\<And>rest. length rest < length input \<Longrightarrow> P mk rest) \<Longrightarrow>
      (\<And>c bs. message_rank c < message_rank mk \<Longrightarrow> P c bs) \<Longrightarrow> P mk input"
  shows "P mk input"
proof -
  have "P (fst mi) (snd mi)" for mi
  proof (induction mi rule: wf_induct [OF wf_mlex [OF wf_measure], of "message_rank \<circ> fst" "length \<circ> snd"])
    case (1 mi)
    then show ?case using assms [of "snd mi" "fst mi"] by (auto simp: mlex_prod_def)
  qed
  from this [of "(mk, input)"] show ?thesis by simp
qed

lemma no_unsupported_action: "lookup_field mk n = Some r \<Longrightarrow> rule_action r \<noteq> UnsupportedField"
  by (cases mk) (auto simp: table_defs split: if_splits)

definition unsupported :: "'a proj \<Rightarrow> bool" where
  "unsupported r \<longleftrightarrow> (\<exists>what. r = Inl (Unsupported what))"

lemma unsupported_simps [simp]: "\<not> unsupported (Inr x)" "\<not> unsupported (Inl (Invalid what))"
  by (simp_all add: unsupported_def)

lemma unsupported_bindE: "unsupported (bindE m f) \<longleftrightarrow> unsupported m \<or> (\<exists>x. m = Inr x \<and> unsupported (f x))"
  by (cases m) (auto simp: unsupported_def)

lemma readers_supported [simp]:
  "\<not> unsupported (read_varint input)" "\<not> unsupported (decode_field_number key)" "\<not> unsupported (take_bytes n err input)"
  "\<not> unsupported (take_len err input)"
proof -
  have loop: "\<not> unsupported (read_varint_loop i r input)" for i r input
    by (induction i r input rule: read_varint_loop.induct)
      (subst read_varint_loop.simps, auto simp: Let_def split: list.split)
  then show v: "\<not> unsupported (read_varint input)" for input by (simp add: read_varint_eq_loop)
  show "\<not> unsupported (decode_field_number key)" by (simp add: decode_field_number_def Let_def)
  show t: "\<not> unsupported (take_bytes n err input)" for n input by (simp add: take_bytes_def)
  show "\<not> unsupported (take_len err input)" by (auto simp: take_len_def unsupported_bindE v t)
qed

lemma skip_group_supported: "\<not> unsupported (skip_group_loop stack input)"
proof (induction "length input" arbitrary: stack input rule: less_induct)
  case less
  have rec: "\<not> unsupported (skip_group_loop st r)" if "length r < length input" for st r
    using less that by simp
  show ?case
    unfolding skip_group_loop.simps [of stack input]
    by (auto simp: unsupported_bindE Let_def rec split: list.splits dest!: reader_lengths)
qed

lemma scan_head_supported: "\<not> unsupported (scan_head input)"
  by (auto simp: scan_head_def unsupported_bindE scan_varint_eq consume_payload_def consume_fixed_eq consume_len_eq
      scan_skip_group_eq skip_group_def skip_group_supported decode_wire_kind_def split: WireKind.splits)

text \<open>The walk over the fields of an \<^verbatim>\<open>AnyValue\<close>, by its next field.\<close>

lemma scan_any_loop_cases:
  "scan_any_loop f [] = Inr f"
  "input \<noteq> [] \<Longrightarrow> scan_head input = Inl e \<Longrightarrow> scan_any_loop f input = Inl e"
  "input \<noteq> [] \<Longrightarrow> scan_head input = Inr (n, wire, payload, rest) \<Longrightarrow> wire_mismatch AnyValue n wire \<Longrightarrow>
     scan_any_loop f input = Inl (Invalid ''invalid wire type for AnyValue field'')"
  "input \<noteq> [] \<Longrightarrow> scan_head input = Inr (n, wire, payload, rest) \<Longrightarrow> \<not> wire_mismatch AnyValue n wire \<Longrightarrow>
     scan_any_loop f input =
       scan_any_loop (case lookup_field AnyValue n of None \<Rightarrow> f | Some r \<Rightarrow> Some (rule_action r)) rest"
  by (simp_all add: scan_any_loop.simps [of f input] scan_any_loop.simps [of f "[]"] wire_mismatch_def
      split: option.split_asm)

lemma scan_any_loop_supported:
  assumes "f \<noteq> Some UnsupportedField"
  shows "\<not> unsupported (scan_any_loop f input) \<and> scan_any_loop f input \<noteq> Inr (Some UnsupportedField)"
  using assms
proof (induction "length input" arbitrary: f input rule: less_induct)
  case less
  consider "input = []" | e where "input \<noteq> []" "scan_head input = Inl e"
    | n wire payload rest where "input \<noteq> []" "scan_head input = Inr (n, wire, payload, rest)"
    by (cases "scan_head input") auto
  then show ?case
  proof cases
    case 1
    then show ?thesis using less(2) by (simp add: scan_any_loop_cases)
  next
    case 2
    then show ?thesis using scan_head_supported [of input] by (simp add: scan_any_loop_cases unsupported_def)
  next
    case 3
    let ?f = "case lookup_field AnyValue n of None \<Rightarrow> f | Some r \<Rightarrow> Some (rule_action r)"
    have "?f \<noteq> Some UnsupportedField" using less(2) no_unsupported_action by (auto split: option.splits)
    from less(1) [OF scan_head_shorter [OF 3(2)] this] show ?thesis
      using scan_any_loop_cases(3,4) [OF 3, of f] by (cases "wire_mismatch AnyValue n wire") simp_all
  qed
qed

lemma scan_any_value_supported: "\<not> unsupported (scan_any_value input)"
  using scan_any_loop_supported [of None input]
  by (auto simp: scan_any_value_def unsupported_bindE split: if_splits)

lemma scan_message_returns: "\<exists>r. scan_message input mk = Some r \<and> \<not> unsupported r"
proof (induction mk input rule: scan_induct)
  case (step mk input)
  show ?case
  proof (cases "scan_field_of mk input")
    case (Inl e)
    have "\<not> unsupported (scan_field_of mk input)"
      using scan_head_supported [of input]
      by (auto simp: scan_field_of_def unsupported_bindE descend_def split: option.splits)
    then show ?thesis
      using Inl scan_any_value_supported by (subst scan_message.simps) (auto simp: unsupported_def)
  next
    case (Inr x)
    obtain field wire sub rest where x: "x = (field, wire, sub, rest)" by (cases x)
    note smaller = scan_field_of_smaller [OF Inr [unfolded x]]
    obtain r where r: "scan_message rest mk = Some r" "\<not> unsupported r" using step(1) smaller(1) by blast
    have "\<exists>s. (case sub of None \<Rightarrow> Some (Inr ()) | Some (bs, c) \<Rightarrow> scan_message bs c) = Some s \<and> \<not> unsupported s"
      using step(2) smaller(2) by (cases sub) auto
    then show ?thesis
      using r Inr x scan_any_value_supported
      by (subst scan_message.simps) (auto simp: unsupported_def split: sum.splits)
  qed
qed

text \<open>
  Property C13. The preflight returns for every input, however its messages nest, and never asks
  for the fallback decoder: the tables of the generated module mark no field as unsupported.
\<close>

theorem preflight_returns:
  "\<exists>r. classify_projection_support body = Some r \<and> (\<forall>what. r \<noteq> Inl (Unsupported what))"
  using scan_message_returns [of body ExportLogsServiceRequest]
  by (auto simp: classify_projection_support_def unsupported_def)

subsection \<open>What the scan accepts\<close>

fun kind_of :: "WireField \<Rightarrow> WireKind" where
  "kind_of (Varint _) = WVarint"
| "kind_of (Fixed64 _) = WFixed64"
| "kind_of (Len _ _) = WLen"
| "kind_of (Fixed32 _) = WFixed32"

text \<open>The field walk of the decoders reads the field that the scan reads.\<close>

lemma scan_head_read:
  assumes "scan_head input = Inr (field, wire, payload, rest)"
  obtains (group) "wire = WStartGroup" "read_field whole input = Inr (None, rest)"
    | (len) taken bs where "wire = WLen" "payload = Some bs" "input = taken @ bs @ rest"
        "read_field whole input = Inr (Some (field, Len (whole - length rest - length bs) bs), rest)"
    | (fixed) w where "kind_of w = wire" "wire \<noteq> WLen" "payload = None"
        "read_field whole input = Inr (Some (field, w), rest)"
proof -
  obtain key r where r: "read_varint input = Inr (key, r)" "decode_field_number key = Inr field"
    "decode_wire_kind (ucast (key AND 0x07)) = Inr wire" "consume_payload wire field r = Inr (payload, rest)"
    using assms by (auto simp: scan_head_def scan_varint_eq bindE_Inr)
  let ?wt = "ucast (key AND 0x07) :: u8"
  have wt: "?wt = (case wire of WVarint \<Rightarrow> 0 | WFixed64 \<Rightarrow> 1 | WLen \<Rightarrow> 2 | WStartGroup \<Rightarrow> 3 | WEndGroup \<Rightarrow> 4 | WFixed32 \<Rightarrow> 5)"
    using r(3) by (auto simp: decode_wire_kind_def split: if_splits)
  note read = read_field_def r(1,2) Let_def
  note consumed = r(4) [unfolded consume_payload_def scan_varint_eq consume_fixed_eq consume_len_eq scan_skip_group_eq]
  show thesis
  proof (cases wire)
    case WVarint
    then obtain v where "read_varint r = Inr (v, rest)" "payload = None" using consumed by (auto simp: bindE_Inr)
    then show ?thesis using WVarint wt fixed [of "Varint v"] by (simp add: read)
  next
    case WFixed64
    then obtain bs where "take_bytes 8 ''truncated fixed64 field'' r = Inr (bs, rest)" "payload = None"
      using consumed by (auto simp: bindE_Inr)
    then show ?thesis using WFixed64 wt fixed [of "Fixed64 (from_le_bytes bs)"] by (simp add: read)
  next
    case WLen
    then obtain bs where bs: "take_len ''truncated length-delimited field'' r = Inr (bs, rest)" "payload = Some bs"
      using consumed by (auto simp: bindE_Inr)
    obtain taken where taken: "input = taken @ bs @ rest"
      using read_varint_shorter [OF r(1)] take_len_shorter [OF bs(1)] by (metis append.assoc)
    have "read_field whole input = Inr (Some (field, Len (whole - length rest - length bs) bs), rest)"
      using WLen wt bs(1) by (simp add: read)
    with len WLen bs(2) taken show ?thesis by blast
  next
    case WStartGroup
    then have "skip_group field r = Inr rest" using consumed by (auto simp: bindE_Inr)
    then show ?thesis using WStartGroup wt group by (simp add: read)
  next
    case WFixed32
    then obtain bs where "take_bytes 4 ''truncated fixed32 field'' r = Inr (bs, rest)" "payload = None"
      using consumed by (auto simp: bindE_Inr)
    then show ?thesis using WFixed32 wt fixed [of "Fixed32 (from_le_bytes bs)"] by (simp add: read)
  qed (use consumed in simp)
qed

lemma reader_suffix:
  "read_varint input = Inr (v, rest) \<Longrightarrow> \<exists>t. input = t @ rest"
  "take_bytes n err input = Inr (bs, rest) \<Longrightarrow> \<exists>t. input = t @ rest"
  "take_len err input = Inr (bs, rest) \<Longrightarrow> \<exists>t. input = t @ rest"
  using read_varint_shorter take_bytes_shorter take_len_shorter by (blast, blast, metis append.assoc)

lemma skip_group_loop_suffix: "skip_group_loop stack input = Inr rest \<Longrightarrow> \<exists>taken. input = taken @ rest"
proof (induction "length input" arbitrary: stack input rule: less_induct)
  case less
  note step = less(2) [unfolded skip_group_loop.simps [of stack input]]
  obtain key r taken where r: "read_varint input = Inr (key, r)" "input = taken @ r" "length r < length input"
    using step read_varint_shorter [of input] by (fastforce simp: bindE_Inr split: if_splits)
  have rec: "\<exists>t. r = t @ rest" if skip: "skip_group_loop st r' = Inr rest" and suffix: "\<exists>t. r = t @ r'" for st r'
  proof -
    obtain t where t: "r = t @ r'" using suffix by blast
    then have "\<exists>t. r' = t @ rest" using less(1) [OF _ skip] r(3) by simp
    then show ?thesis using t by auto
  qed
  have "\<exists>t. r = t @ rest"
    using step unfolding r(1)
    by (auto simp: bindE_Inr Let_def intro: rec dest: reader_suffix split: if_splits list.splits)
  then show ?case using r(2) by auto
qed

lemma scan_head_suffix:
  assumes "scan_head input = Inr (field, wire, payload, rest)"
  obtains taken where "input = taken @ rest"
proof -
  obtain key r where r: "read_varint input = Inr (key, r)" "consume_payload wire field r = Inr (payload, rest)"
    using assms by (auto simp: scan_head_def scan_varint_eq bindE_Inr)
  have "\<exists>t. r = t @ rest"
    using r(2) unfolding consume_payload_def scan_varint_eq consume_fixed_eq consume_len_eq scan_skip_group_eq skip_group_def
    by (cases wire) (auto simp: bindE_Inr dest: reader_suffix skip_group_loop_suffix)
  then show thesis using read_varint_shorter [OF r(1)] that by (metis append.assoc)
qed

text \<open>
  A field of the message \<open>full\<close> that the scan let pass: it has the wire kind of the table, its
  payload lies inside the message, and the scan of its submessage succeeded.
\<close>

fun accepted :: "MessageKind \<Rightarrow> bytes \<Rightarrow> u32 \<times> WireField \<Rightarrow> bool" where
  "accepted mk full (f, Len p bs) \<longleftrightarrow>
     \<not> wire_mismatch mk f WLen \<and> p + length bs \<le> length full \<and> subslice full p (p + length bs) = bs \<and>
     (\<forall>r c. lookup_field mk f = Some r \<longrightarrow> rule_child r = Some c \<longrightarrow> scan_message bs c = Some (Inr ()))"
| "accepted mk full (f, w) \<longleftrightarrow> \<not> wire_mismatch mk f (kind_of w)"

text \<open>A walk over the rest \<open>input\<close> of the message \<open>full\<close> visits accepted fields.\<close>

definition walks :: "('s \<Rightarrow> u32 \<Rightarrow> WireField \<Rightarrow> 's proj) \<Rightarrow> MessageKind \<Rightarrow> bytes \<Rightarrow> bytes \<Rightarrow> bool" where
  "walks visit mk full input \<longleftrightarrow>
     (\<exists>fs. list_all (accepted mk full) fs \<and>
           (\<forall>st. for_each_field_loop visit (length full) st input = visit_all visit st fs))"

lemma walks_Nil: "walks visit mk full []"
  by (auto simp: walks_def for_each_field_loop.simps [of _ _ _ "[]"] intro: exI [of _ "[]"])

lemma walks_step:
  assumes "scan_head input = Inr (field, wire, payload, rest)" and "\<not> wire_mismatch mk field wire"
    and "full = pre @ input" and "walks visit mk full rest" and "input \<noteq> []"
    and "\<And>bs r c. payload = Some bs \<Longrightarrow> lookup_field mk field = Some r \<Longrightarrow> rule_child r = Some c \<Longrightarrow>
      scan_message bs c = Some (Inr ())"
  shows "walks visit mk full input"
proof -
  obtain fs where fs: "list_all (accepted mk full) fs"
    "\<And>st. for_each_field_loop visit (length full) st rest = visit_all visit st fs"
    using assms(4) unfolding walks_def by blast
  note loop = for_each_field_loop.simps [of visit "length full" _ input]
  from assms(1) show ?thesis
  proof (cases rule: scan_head_read [where whole = "length full"])
    case group
    then show ?thesis using fs assms(5) by (auto simp: walks_def loop)
  next
    case (len taken bs)
    then have "accepted mk full (field, Len (length full - length rest - length bs) bs)"
      using assms(2,3,6) by (simp add: subslice_def)
    then show ?thesis
      using fs assms(5) len(4)
      by (auto simp: walks_def loop intro!: exI [of _ "(field, Len (length full - length rest - length bs) bs) # fs"])
  next
    case (fixed w)
    then have "accepted mk full (field, w)" using assms(2) by (cases w) auto
    then show ?thesis using fs assms(5) fixed(4) by (auto simp: walks_def loop intro!: exI [of _ "(field, w) # fs"])
  qed
qed

text \<open>A scan that succeeds, by its next field.\<close>

lemma scan_message_step:
  assumes "scan_message input mk = Some (Inr ())" and "mk \<noteq> AnyValue" and "input \<noteq> []"
  obtains field wire payload rest where "scan_head input = Inr (field, wire, payload, rest)"
    "\<not> wire_mismatch mk field wire" "scan_message rest mk = Some (Inr ())"
    "\<And>bs r c. payload = Some bs \<Longrightarrow> lookup_field mk field = Some r \<Longrightarrow> rule_child r = Some c \<Longrightarrow>
       scan_message bs c = Some (Inr ())"
proof -
  note unfold = assms(1) [unfolded scan_message.simps [of input mk]]
  obtain field wire sub rest where step: "scan_field_of mk input = Inr (field, wire, sub, rest)"
    using unfold assms(2,3) by (cases "scan_field_of mk input") auto
  then obtain payload where head: "scan_head input = Inr (field, wire, payload, rest)" "descend mk field payload = Inr sub"
    by (auto simp: scan_field_of_Inr)
  let ?sub = "case sub of None \<Rightarrow> Some (Inr ()) | Some (bs, c) \<Rightarrow> scan_message bs c"
  obtain s where "?sub = Some s" "(case s of Inl e \<Rightarrow> Some (Inl e) | Inr _ \<Rightarrow>
      if wire_mismatch mk field wire then Some (Inl (Invalid ''invalid wire type for projected OTLP field''))
      else scan_message rest mk) = Some (Inr ())"
    using unfold assms(2,3) step by (auto simp: Option.bind_eq_Some_conv)
  then have u: "?sub = Some (Inr ())" "\<not> wire_mismatch mk field wire" "scan_message rest mk = Some (Inr ())"
    by (cases s; auto split: if_splits)+
  have "scan_message bs c = Some (Inr ())"
    if "payload = Some bs" "lookup_field mk field = Some r" "rule_child r = Some c" for bs r c
    using u(1) head(2) that child_len [OF that(2,3)] by (auto simp: descend_def)
  then show thesis using that head(1) u(2,3) by blast
qed

lemma scan_message_walks:
  assumes "scan_message input mk = Some (Inr ())" and "mk \<noteq> AnyValue" and "full = pre @ input"
  shows "walks visit mk full input"
  using assms(1,3)
proof (induction "length input" arbitrary: input pre rule: less_induct)
  case less
  show ?case
  proof (cases "input = []")
    case False
    from scan_message_step [OF less(2) assms(2) False] obtain field wire payload rest
      where head: "scan_head input = Inr (field, wire, payload, rest)"
        and ok: "\<not> wire_mismatch mk field wire" "scan_message rest mk = Some (Inr ())"
        and child: "\<And>bs r c. payload = Some bs \<Longrightarrow> lookup_field mk field = Some r \<Longrightarrow> rule_child r = Some c \<Longrightarrow>
          scan_message bs c = Some (Inr ())" by metis
    obtain taken where "input = taken @ rest" using head scan_head_suffix by blast
    with less have "walks visit mk full rest" using ok(2) scan_head_shorter [OF head] by (metis append.assoc)
    then show ?thesis using walks_step [OF head ok(1) less(3)] False child by blast
  qed (simp add: walks_Nil)
qed

lemma scan_any_walks:
  assumes "scan_any_loop f input = Inr f'" and "full = pre @ input"
  shows "walks visit AnyValue full input"
  using assms
proof (induction "length input" arbitrary: f input pre rule: less_induct)
  case less
  show ?case
  proof (cases "input = []")
    case False
    obtain n wire payload rest where head: "scan_head input = Inr (n, wire, payload, rest)"
      using less(2) False scan_any_loop_cases(2) [of input] by (cases "scan_head input") fastforce+
    have ok: "\<not> wire_mismatch AnyValue n wire" using less(2) scan_any_loop_cases(3) [OF False head] by fastforce
    obtain taken where "input = taken @ rest"
      using head scan_head_suffix by blast
    with less have "walks visit AnyValue full rest"
      using scan_any_loop_cases(4) [OF False head ok] scan_head_shorter [OF head] by (metis append.assoc)
    moreover have "rule_child r = None" if "lookup_field AnyValue n = Some r" for r
      using that by (auto simp: table_defs split: if_splits)
    ultimately show ?thesis using walks_step [OF head ok less(3)] False by fastforce
  qed (simp add: walks_Nil)
qed

lemma scan_walks:
  assumes "scan_message input mk = Some (Inr ())"
  shows "walks visit mk input input"
proof (cases "mk = AnyValue")
  case True
  then obtain f where "scan_any_loop None input = Inr f"
    using assms by (auto simp: scan_message.simps [of input] scan_any_value_def bindE_Inr)
  then show ?thesis using scan_any_walks [of None input f input "[]"] True by simp
next
  case False
  then show ?thesis using scan_message_walks [OF assms False, of input "[]"] by simp
qed

text \<open>So the decoders fail on an accepted message only where their visitor does on an accepted field.\<close>

lemma accepted_visits:
  assumes "scan_message input mk = Some (Inr ())"
    and "\<And>f w st e. accepted mk input (f, w) \<Longrightarrow> visit st f w = Inl e \<Longrightarrow> P e"
    and "for_each_field visit st input = Inl e"
  shows "P e"
proof -
  obtain fs where fs: "list_all (accepted mk input) fs" "for_each_field visit st input = visit_all visit st fs"
    using scan_walks [OF assms(1), of visit] by (auto simp: walks_def for_each_field_def)
  have "visit_all visit st fs = Inl e \<Longrightarrow> list_all (accepted mk input) fs \<Longrightarrow> P e" for st
  proof (induction fs arbitrary: st)
    case (Cons fw fs)
    then show ?case using assms(2) by (cases fw; cases "visit st (fst fw) (snd fw)") auto
  qed simp
  then show ?thesis using fs assms(3) by simp
qed

subsection \<open>Decoding what the scan accepted\<close>

text \<open>On accepted messages the inlined decoders and the reference are equal, not only in agreement.\<close>

lemma reader_err:
  "take_bytes n err input = Inr x \<Longrightarrow> take_bytes n err' input = Inr x"
  "take_len err input = Inr x \<Longrightarrow> take_len err' input = Inr x"
  by (auto simp: take_bytes_def take_len_def bindE_Inr split: if_splits)

text \<open>What the scan read, in terms of the readers of the decoders.\<close>

fun reads_payload :: "WireKind \<Rightarrow> u8 \<Rightarrow> u32 \<Rightarrow> bytes option \<Rightarrow> bytes \<Rightarrow> bytes \<Rightarrow> bool" where
  "reads_payload WVarint wt field payload r rest \<longleftrightarrow> wt = 0 \<and> (\<exists>v. read_varint r = Inr (v, rest))"
| "reads_payload WFixed64 wt field payload r rest \<longleftrightarrow> wt = 1 \<and> (\<exists>bs. \<forall>err. take_bytes 8 err r = Inr (bs, rest))"
| "reads_payload WLen wt field payload r rest \<longleftrightarrow>
     wt = 2 \<and> (\<exists>bs. payload = Some bs \<and> (\<forall>err. take_len err r = Inr (bs, rest)))"
| "reads_payload WStartGroup wt field payload r rest \<longleftrightarrow> wt = 3 \<and> skip_group field r = Inr rest"
| "reads_payload WEndGroup wt field payload r rest \<longleftrightarrow> False"
| "reads_payload WFixed32 wt field payload r rest \<longleftrightarrow> wt = 5 \<and> (\<exists>bs. \<forall>err. take_bytes 4 err r = Inr (bs, rest))"

lemma scan_head_reads:
  assumes "scan_head input = Inr (field, wire, payload, rest)"
  obtains key r where "read_varint input = Inr (key, r)" "decode_field_number key = Inr field"
    "field = ucast (drop_bit 3 key)"
    "reads_payload wire (ucast (key AND 0x07)) field payload r rest"
proof -
  obtain key r where r: "read_varint input = Inr (key, r)" "decode_field_number key = Inr field"
    "decode_wire_kind (ucast (key AND 0x07)) = Inr wire" "consume_payload wire field r = Inr (payload, rest)"
    using assms by (auto simp: scan_head_def scan_varint_eq bindE_Inr)
  have "field = ucast (drop_bit 3 key)" using agrees_field_number [of key] r(2) by simp
  moreover note r(4) [unfolded consume_payload_def scan_varint_eq consume_fixed_eq consume_len_eq scan_skip_group_eq]
  ultimately show thesis
    using r(1,2,3) that [of key r]
    by (cases wire) (auto simp: bindE_Inr decode_wire_kind_def split: if_splits intro: reader_err)
qed

lemma any_step_exact:
  assumes "scan_head input = Inr (field, wire, payload, rest)" and "\<not> wire_mismatch AnyValue field wire"
  shows "any_inline_step simd out input = walk_step (any_value_visit simd) whole out input"
proof -
  from scan_head_reads [OF assms(1)] obtain key r where r: "read_varint input = Inr (key, r)"
    "decode_field_number key = Inr field" "field = ucast (drop_bit 3 key)"
    and wire: "reads_payload wire (ucast (key AND 0x07)) field payload r rest" .
  define wt :: u8 where "wt = ucast (key AND 0x07)"
  show ?thesis
    using wire assms(2)
    unfolding walk_step_eq [OF r(1,2) wt_def] any_inline_step_def r(1) bindE_simps split_conv Let_def
      r(3) [symmetric] wt_def [symmetric]
    by (cases wire)
      (auto simp: any_value_visit_def skip_unknown_def bindE_assoc wire_mismatch_def table_defs split: if_splits)
qed

lemma kv_step_exact:
  assumes "scan_head input = Inr (field, wire, payload, rest)" and "\<not> wire_mismatch KeyValue field wire"
    and "\<And>bs. payload = Some bs \<Longrightarrow> field = 2 \<Longrightarrow> decode_any_value_inline simd bs = decode_any_value_wire simd bs"
  shows "kv_inline_step simd kv input = walk_step (key_value_visit simd) whole kv input"
proof -
  from scan_head_reads [OF assms(1)] obtain key r where r: "read_varint input = Inr (key, r)"
    "decode_field_number key = Inr field" "field = ucast (drop_bit 3 key)"
    and wire: "reads_payload wire (ucast (key AND 0x07)) field payload r rest" .
  define wt :: u8 where "wt = ucast (key AND 0x07)"
  show ?thesis
    using wire assms(2,3)
    unfolding walk_step_eq [OF r(1,2) wt_def] kv_inline_step_def r(1) bindE_simps split_conv Let_def
      r(3) [symmetric] wt_def [symmetric]
    by (cases wire)
      (auto simp: key_value_visit_def skip_unknown_def bindE_assoc wire_mismatch_def table_defs split: if_splits)
qed

lemma walk_step_rest:
  assumes "walk_step visit whole st input = Inr (st', rest')" and "scan_head input = Inr (field, wire, payload, rest)"
  shows "rest' = rest"
  using assms(2)
proof (cases rule: scan_head_read [where whole = whole])
  case group
  then show ?thesis using assms(1) by (simp add: walk_step_def)
next
  case len
  then show ?thesis using assms(1) by (auto simp: walk_step_def bindE_Inr)
next
  case fixed
  then show ?thesis using assms(1) by (auto simp: walk_step_def bindE_Inr)
qed

lemma any_loop_exact:
  assumes "scan_any_loop f input = Inr f'"
  shows "any_inline_loop simd out input = for_each_field_loop (any_value_visit simd) whole out input"
  using assms
proof (induction "length input" arbitrary: f out input rule: less_induct)
  case less
  show ?case
  proof (cases "input = []")
    case False
    obtain n wire payload rest where head: "scan_head input = Inr (n, wire, payload, rest)"
      using less(2) False scan_any_loop_cases(2) [of input] by (cases "scan_head input") fastforce+
    have ok: "\<not> wire_mismatch AnyValue n wire" using less(2) scan_any_loop_cases(3) [OF False head] by fastforce
    have rec: "any_inline_loop simd o' rest = for_each_field_loop (any_value_visit simd) whole o' rest" for o'
      using less scan_any_loop_cases(4) [OF False head ok] scan_head_shorter [OF head] by simp
    show ?thesis
      unfolding any_inline_loop.simps [of simd out input] for_each_field_loop_step [of _ _ out input]
        any_step_exact [OF head ok, of simd out whole]
      by (auto intro!: bindE_cong simp: rec dest!: walk_step_rest [OF _ head])
  qed (simp add: any_inline_loop.simps for_each_field_loop.simps)
qed

lemma any_value_exact:
  "scan_message input AnyValue = Some (Inr ()) \<Longrightarrow> decode_any_value_inline simd input = decode_any_value_wire simd input"
  by (auto simp: scan_message.simps [of input] scan_any_value_def bindE_Inr decode_any_value_inline_def
      decode_any_value_wire_def for_each_field_def any_loop_exact)

lemma kv_loop_exact:
  assumes "scan_message input KeyValue = Some (Inr ())"
  shows "kv_inline_loop simd kv input = for_each_field_loop (key_value_visit simd) whole kv input"
  using assms
proof (induction "length input" arbitrary: kv input rule: less_induct)
  case less
  show ?case
  proof (cases "input = []")
    case False
    have "KeyValue \<noteq> AnyValue" by simp
    from scan_message_step [OF less(2) this False] obtain field wire payload rest
      where head: "scan_head input = Inr (field, wire, payload, rest)"
        and ok: "\<not> wire_mismatch KeyValue field wire" "scan_message rest KeyValue = Some (Inr ())"
        and child: "\<And>bs r c. payload = Some bs \<Longrightarrow> lookup_field KeyValue field = Some r \<Longrightarrow> rule_child r = Some c \<Longrightarrow>
          scan_message bs c = Some (Inr ())" by metis
    have any: "decode_any_value_inline simd bs = decode_any_value_wire simd bs"
      if "payload = Some bs" "field = 2" for bs
      by (rule any_value_exact, rule child) (use that in \<open>auto simp: table_defs\<close>)
    have rec: "kv_inline_loop simd kv' rest = for_each_field_loop (key_value_visit simd) whole kv' rest" for kv'
      using less ok(2) scan_head_shorter [OF head] by simp
    have step: "kv_inline_step simd kv input = walk_step (key_value_visit simd) whole kv input"
      by (rule kv_step_exact [OF head ok(1) any])
    show ?thesis
      unfolding kv_inline_loop.simps [of simd kv input] for_each_field_loop_step [of _ _ kv input] step
      by (auto intro!: bindE_cong simp: rec dest!: walk_step_rest [OF _ head])
  qed (simp add: kv_inline_loop.simps for_each_field_loop.simps)
qed

lemma kv_inline_exact:
  "scan_message input KeyValue = Some (Inr ()) \<Longrightarrow> decode_kv_inline simd input = decode_key_value_wire simd input"
  using kv_loop_exact [of input simd "([], None)" "length input"]
  by (simp add: decode_kv_inline_def decode_key_value_wire_def for_each_field_def)

definition utf8_error :: "ProjectionError \<Rightarrow> bool" where
  "utf8_error e \<longleftrightarrow> (\<exists>what. e = Invalid (''invalid UTF-8 '' @ what))"

lemma utf8_errorI: "utf8_error (Invalid (''invalid UTF-8 '' @ what))"
  by (auto simp: utf8_error_def)

lemma require_utf8_Inl: "require_utf8 simd bs ctx = Inl e \<Longrightarrow> e = Invalid ctx"
proof -
  have "utf8_chunks simd bs ctx i = Inl e \<Longrightarrow> e = Invalid ctx" for i
    by (induction simd bs ctx i rule: utf8_chunks.induct)
      (subst (asm) (2) utf8_chunks.simps, auto simp: require_utf8_full_def split: if_splits)
  then show "require_utf8 simd bs ctx = Inl e \<Longrightarrow> e = Invalid ctx" by (simp add: require_utf8_def)
qed

definition only_utf8 :: "'a proj \<Rightarrow> bool" where
  "only_utf8 r \<longleftrightarrow> (\<forall>e. r = Inl e \<longrightarrow> utf8_error e)"

lemma only_utf8_Inr [simp]: "only_utf8 (Inr x)"
  by (simp add: only_utf8_def)

lemma only_utf8_bindE: "only_utf8 m \<Longrightarrow> (\<And>x. m = Inr x \<Longrightarrow> only_utf8 (f x)) \<Longrightarrow> only_utf8 (bindE m f)"
  by (cases m) (simp_all add: only_utf8_def)

lemma only_utf8_require: "ctx = ''invalid UTF-8 '' @ what \<Longrightarrow> only_utf8 (require_utf8 simd bs ctx)"
  by (auto simp: only_utf8_def utf8_error_def dest!: require_utf8_Inl)

lemma only_utf8_walk:
  assumes "scan_message input mk = Some (Inr ())"
    and "\<And>f w st. accepted mk input (f, w) \<Longrightarrow> only_utf8 (visit st f w)"
  shows "only_utf8 (for_each_field visit st input)"
  using accepted_visits [OF assms(1), of visit utf8_error st] assms(2) by (auto simp: only_utf8_def)

lemma any_value_only_utf8:
  assumes "scan_message input AnyValue = Some (Inr ())"
  shows "only_utf8 (decode_any_value_wire simd input)"
  unfolding decode_any_value_wire_def
proof (rule only_utf8_walk [OF assms])
  fix f w st
  assume "accepted AnyValue input (f, w)"
  then show "only_utf8 (any_value_visit simd st f w)"
    by (cases w)
      (auto simp: any_value_visit_def wire_mismatch_def table_defs split: if_splits
        intro!: only_utf8_bindE only_utf8_require)
qed

lemma key_value_only_utf8:
  assumes "scan_message input KeyValue = Some (Inr ())"
  shows "only_utf8 (decode_kv_inline simd input)"
  unfolding kv_inline_exact [OF assms] decode_key_value_wire_def
proof (intro only_utf8_bindE only_utf8_walk [OF assms])
  fix f w st
  assume ok: "accepted KeyValue input (f, w)"
  show "only_utf8 (key_value_visit simd st f w)"
  proof (cases "f = 2")
    case True
    with ok obtain p bs where w: "w = Len p bs" by (cases w) (auto simp: wire_mismatch_def table_defs)
    with ok True have "scan_message bs AnyValue = Some (Inr ())" by (simp add: table_defs)
    then show ?thesis using True w by (auto simp: key_value_visit_def intro!: only_utf8_bindE any_value_only_utf8)
  next
    case False
    then show ?thesis
      using ok by (cases w) (auto simp: key_value_visit_def wire_mismatch_def table_defs split: if_splits)
  qed
qed auto

lemma scope_only_utf8:
  assumes "scan_message input InstrumentationScope = Some (Inr ())"
  shows "only_utf8 (merge_scope_wire simd input sf)"
  unfolding merge_scope_wire_def
proof (rule only_utf8_walk [OF assms])
  fix f w st
  assume "accepted InstrumentationScope input (f, w)"
  then show "only_utf8 (merge_scope_visit simd st f w)"
    by (cases w)
      (auto simp: merge_scope_visit_def wire_mismatch_def table_defs split: if_splits
        intro!: only_utf8_bindE only_utf8_require)
qed

text \<open>The same for what a decoder establishes: an invariant of its state that every accepted field keeps.\<close>

lemma accepted_keeps:
  assumes "scan_message input mk = Some (Inr ())" and "P st"
    and "\<And>f w st st'. accepted mk input (f, w) \<Longrightarrow> P st \<Longrightarrow> visit st f w = Inr st' \<Longrightarrow> P st'"
    and "for_each_field visit st input = Inr st'"
  shows "P st'"
proof -
  obtain fs where fs: "list_all (accepted mk input) fs" "for_each_field visit st input = visit_all visit st fs"
    using scan_walks [OF assms(1), of visit] by (auto simp: walks_def for_each_field_def)
  have "visit_all visit st fs = Inr st' \<Longrightarrow> list_all (accepted mk input) fs \<Longrightarrow> P st \<Longrightarrow> P st'" for st
  proof (induction fs arbitrary: st)
    case (Cons fw fs)
    obtain f w where fw: "fw = (f, w)" by (cases fw)
    obtain st1 where st1: "visit st f w = Inr st1" "visit_all visit st1 fs = Inr st'"
      using Cons.prems(1) fw by (cases "visit st f w") auto
    have "P st1" using assms(3) [OF _ Cons.prems(3) st1(1)] Cons.prems(2) fw by simp
    then show ?case using Cons.IH st1(2) Cons.prems(2) by simp
  qed simp
  then show ?thesis using fs assms(2,4) by simp
qed

lemma subslice_range_inside:
  "p + n \<le> len \<Longrightarrow> len \<le> usize_max \<Longrightarrow> subslice_range (0, len) (p, n) = Inr (p, n)"
  by (simp add: subslice_range_def checked_add_usize_def)

text \<open>What the table says of the fields of a log record.\<close>

lemma log_record_table:
  "wire_mismatch LogRecord 1 k \<longleftrightarrow> k \<noteq> WFixed64" "wire_mismatch LogRecord 11 k \<longleftrightarrow> k \<noteq> WFixed64"
  "wire_mismatch LogRecord 2 k \<longleftrightarrow> k \<noteq> WVarint" "wire_mismatch LogRecord 7 k \<longleftrightarrow> k \<noteq> WVarint"
  "wire_mismatch LogRecord 3 k \<longleftrightarrow> k \<noteq> WLen" "wire_mismatch LogRecord 5 k \<longleftrightarrow> k \<noteq> WLen"
  "wire_mismatch LogRecord 6 k \<longleftrightarrow> k \<noteq> WLen" "wire_mismatch LogRecord 9 k \<longleftrightarrow> k \<noteq> WLen"
  "wire_mismatch LogRecord 10 k \<longleftrightarrow> k \<noteq> WLen" "wire_mismatch LogRecord 12 k \<longleftrightarrow> k \<noteq> WLen"
  "wire_mismatch LogRecord 8 k \<longleftrightarrow> k \<noteq> WFixed32"
  by (auto simp: wire_mismatch_def table_defs)

lemma log_record_cases [consumes 1]:
  assumes "accepted LogRecord rec (f, w)"
  obtains (time) v where "f = 1" "w = Fixed64 v" | (observed) v where "f = 11" "w = Fixed64 v"
    | (severity) v where "f = 2" "w = Varint v" | (sev_text) p bs where "f = 3" "w = Len p bs"
    | (body) p bs where "f = 5" "w = Len p bs" "scan_message bs AnyValue = Some (Inr ())"
    | (trace) p bs where "f = 9" "w = Len p bs" | (span) p bs where "f = 10" "w = Len p bs"
    | (flags) v where "f = 8" "w = Fixed32 v"
    | (attr) p bs where "f = 6" "w = Len p bs" "p + length bs \<le> length rec" "subslice rec p (p + length bs) = bs"
        "scan_message bs KeyValue = Some (Inr ())"
    | (dropped) v where "f = 7" "w = Varint v" | (event) p bs where "f = 12" "w = Len p bs"
    | (other) "f \<notin> {1, 2, 3, 5, 6, 7, 8, 9, 10, 11, 12}"
proof -
  have kind: "\<not> wire_mismatch LogRecord f (kind_of w)" using assms by (cases w) auto
  consider "f \<in> {1, 11}" | "f \<in> {2, 7}" | "f = 8" | "f \<in> {3, 9, 10, 12}" | "f \<in> {5, 6}" | (other) "f \<notin> {1, 2, 3, 5, 6, 7, 8, 9, 10, 11, 12}"
    by blast
  then show thesis
  proof cases
    case 1
    then obtain v where "w = Fixed64 v" using kind by (cases w) (auto simp: log_record_table)
    then show thesis using 1 that(1,2) by blast
  next
    case 2
    then obtain v where "w = Varint v" using kind by (cases w) (auto simp: log_record_table)
    then show thesis using 2 that(3,10) by blast
  next
    case 3
    then obtain v where "w = Fixed32 v" using kind by (cases w) (auto simp: log_record_table)
    then show thesis using 3 that(8) by blast
  next
    case 4
    then obtain p bs where "w = Len p bs" using kind by (cases w) (auto simp: log_record_table)
    then show thesis using 4 that(4,6,7,11) by blast
  next
    case 5
    then obtain p bs where w: "w = Len p bs" using kind by (cases w) (auto simp: log_record_table)
    have "f = 5 \<Longrightarrow> scan_message bs AnyValue = Some (Inr ())" "f = 6 \<Longrightarrow> scan_message bs KeyValue = Some (Inr ())"
      using assms w by (simp_all add: table_defs)
    then show thesis using 5 w assms that(5,9) by auto
  qed (rule that(12))
qed

lemma log_record_only_utf8:
  assumes "scan_message rec LogRecord = Some (Inr ())" and "length rec \<le> usize_max"
  shows "only_utf8 (decode_log_record_fields simd rec ranges)"
  unfolding decode_log_record_fields_def
proof (rule only_utf8_walk [OF assms(1)])
  fix f w and st :: "LogRecordFields \<times> (nat \<times> nat) list"
  obtain out ranges where st: "st = (out, ranges)" by (cases st)
  assume "accepted LogRecord rec (f, w)"
  then show "only_utf8 (log_record_visit simd rec st f w)"
  proof (cases rule: log_record_cases)
    case (body p bs)
    then show ?thesis using st by (simp add: log_record_visit_def only_utf8_bindE any_value_only_utf8)
  next
    case (attr p bs)
    then show ?thesis using st assms(2) by (simp add: log_record_visit_def subslice_range_inside)
  qed (simp_all add: st log_record_visit_def only_utf8_bindE only_utf8_require)
qed

text \<open>The attribute ranges of an accepted record lie inside it and hold accepted attributes.\<close>

definition attr_range_ok :: "bytes \<Rightarrow> nat \<times> nat \<Rightarrow> bool" where
  "attr_range_ok rec r \<longleftrightarrow>
     fst r + snd r \<le> length rec \<and> scan_message (subslice rec (fst r) (fst r + snd r)) KeyValue = Some (Inr ())"

lemma log_record_ranges:
  assumes "scan_message rec LogRecord = Some (Inr ())" and "length rec \<le> usize_max"
    and "decode_log_record_fields simd rec [] = Inr (out, ranges)"
  shows "list_all (attr_range_ok rec) ranges"
proof -
  have "list_all (attr_range_ok rec) (snd st')"
    if ok: "accepted LogRecord rec (f, w)" and ranges: "list_all (attr_range_ok rec) (snd st)"
      and v: "log_record_visit simd rec st f w = Inr st'" for f w st st'
  proof -
    obtain out rs where st: "st = (out, rs)" by (cases st)
    from ok show ?thesis
    proof (cases rule: log_record_cases)
      case (attr p bs)
      then show ?thesis
        using st v ranges assms(2) by (auto simp: log_record_visit_def subslice_range_inside attr_range_ok_def)
    qed (use st v ranges in \<open>auto simp: log_record_visit_def bindE_Inr split: if_splits\<close>)
  qed
  then show ?thesis
    using accepted_keeps [OF assms(1), of "\<lambda>st. list_all (attr_range_ok rec) (snd st)" "(LogRecordFields_default, [])"
      "log_record_visit simd rec" "(out, ranges)"] assms(3)
    unfolding decode_log_record_fields_def by simp
qed

text \<open>
  Property C7. On a log record that the preflight scan accepted, the decoder can fail only because a
  string is not UTF-8: no wire-type, truncation, tag or range error is left. The attribute
  ranges it records lie inside the record, so slicing them cannot panic, and decoding each of
  those attributes with the inlined decoder again fails only for invalid UTF-8.
\<close>

theorem preflight_covers_record:
  assumes "scan_message rec LogRecord = Some (Inr ())" and "length rec \<le> usize_max"
  shows "only_utf8 (decode_log_record_fields simd rec []) \<and>
    (\<forall>out ranges. decode_log_record_fields simd rec [] = Inr (out, ranges) \<longrightarrow>
       list_all (\<lambda>(start, len). start + len \<le> length rec \<and>
         only_utf8 (decode_kv_inline simd (subslice rec start (start + len)))) ranges)"
proof (intro conjI allI impI)
  fix out ranges
  assume "decode_log_record_fields simd rec [] = Inr (out, ranges)"
  then have "list_all (attr_range_ok rec) ranges" using log_record_ranges [OF assms] by blast
  then show "list_all (\<lambda>(start, len). start + len \<le> length rec \<and>
      only_utf8 (decode_kv_inline simd (subslice rec start (start + len)))) ranges"
    by (rule list.pred_mono_strong) (auto simp: attr_range_ok_def key_value_only_utf8)
qed (rule log_record_only_utf8 [OF assms])

text \<open>A record with a severity number and the attribute \<^verbatim>\<open>a\<close>, whose value is the empty string.\<close>

definition preflight_record :: bytes where
  "preflight_record = [0x10, 9, 0x32, 7, 0x0A, 1, 97, 0x12, 2, 0x0A, 0]"

lemma preflight_record_steps:
  "scan_field_of LogRecord preflight_record = Inr (2, WVarint, None, drop 2 preflight_record)"
  "scan_field_of LogRecord (drop 2 preflight_record) = Inr (6, WLen, Some (drop 4 preflight_record, KeyValue), [])"
  "scan_field_of KeyValue (drop 4 preflight_record) = Inr (1, WLen, None, drop 7 preflight_record)"
  "scan_field_of KeyValue (drop 7 preflight_record) = Inr (2, WLen, Some (drop 9 preflight_record, AnyValue), [])"
  "scan_any_value (drop 9 preflight_record) = Inr ()"
  "\<not> wire_mismatch LogRecord 2 WVarint" "\<not> wire_mismatch LogRecord 6 WLen"
  "\<not> wire_mismatch KeyValue 1 WLen" "\<not> wire_mismatch KeyValue 2 WLen"
  by code_simp+

lemma preflight_record_accepted: "scan_message preflight_record LogRecord = Some (Inr ())"
proof -
  note u = scan_message.simps
  have any: "scan_message (drop 9 preflight_record) AnyValue = Some (Inr ())"
    by (subst u) (simp add: preflight_record_steps)
  have nil: "mk \<noteq> AnyValue \<Longrightarrow> scan_message [] mk = Some (Inr ())" for mk by (subst u) simp
  have val: "scan_message (drop 7 preflight_record) KeyValue = Some (Inr ())"
    by (subst u) (simp add: preflight_record_steps any nil)
  have kv: "scan_message (drop 4 preflight_record) KeyValue = Some (Inr ())"
    by (subst u) (simp add: preflight_record_steps val)
  have attr: "scan_message (drop 2 preflight_record) LogRecord = Some (Inr ())"
    by (subst u) (simp add: preflight_record_steps kv nil)
  show ?thesis by (subst u) (simp add: preflight_record_steps attr)
qed
lemma preflight_record_decoded:
  "decode_log_record_fields valid_utf8 preflight_record [] =
     Inr (LogRecordFields_default\<lparr>severity_number := 9\<rparr>, [(4, 7)])"
proof -
  have r: "read_field 11 preflight_record = Inr (Some (2, Varint 9), drop 2 preflight_record)"
    "read_field 11 (drop 2 preflight_record) = Inr (Some (6, Len 4 (drop 4 preflight_record)), [])"
    "length preflight_record = 11" "preflight_record \<noteq> []" "drop 2 preflight_record \<noteq> []" "length (drop 4 preflight_record) = 7"
    by code_simp+
  show ?thesis
    by (simp add: decode_log_record_fields_def for_each_field_def for_each_field_loop.simps r log_record_visit_def
        subslice_range_inside usize_max_def)
qed

theorem preflight_covers_record_witness:
  "scan_message preflight_record LogRecord = Some (Inr ()) \<and>
   decode_log_record_fields valid_utf8 preflight_record [] =
     Inr (LogRecordFields_default\<lparr>severity_number := 9\<rparr>, [(4, 7)]) \<and>
   4 + 7 \<le> length preflight_record \<and>
   only_utf8 (decode_kv_inline valid_utf8 (subslice preflight_record 4 (4 + 7)))"
proof -
  have "length preflight_record \<le> usize_max" by (simp add: preflight_record_def usize_max_def)
  note covers = preflight_covers_record [OF preflight_record_accepted this, of valid_utf8]
  show ?thesis
    using covers preflight_record_accepted preflight_record_decoded by simp
qed

end
