(* ===== verification/Otlp_Fields.thy ===== *)
theory Otlp_Fields
  imports Otlp_Wire Rust_Std
begin

text \<open>
  The field conversions of \<^verbatim>\<open>ffwd-core/src/otlp.rs\<close>: hexadecimal identifiers, severity names
  and RFC 3339 timestamps, with the civil calendar they use. Nibbles and digits are bytes as
  in the code; calendar quantities, \<^verbatim>\<open>i64\<close> in the code, are integers whose checked operations
  are written out.

  The lemmas show that \<^verbatim>\<open>hex_decode\<close> inverts the hexadecimal writer of the receiver, that
  severity names match exactly up to ASCII case, that \<^verbatim>\<open>days_from_civil\<close> counts days, and
  which instant a well-formed timestamp denotes.
\<close>

subsection \<open>Hexadecimal identifiers\<close>

definition hex_nibble :: "u8 \<Rightarrow> u8" where
  "hex_nibble c =
     (if 48 \<le> c \<and> c \<le> 57 then c - 48
      else if 97 \<le> c \<and> c \<le> 102 then c - 97 + 10
      else if 65 \<le> c \<and> c \<le> 70 then c - 65 + 10
      else 0xFF)"

text \<open>The table is built by a loop over all bytes, and looked up by byte value.\<close>

definition HEX_NIBBLE_LUT :: "u8 list" where
  "HEX_NIBBLE_LUT = map (\<lambda>i. hex_nibble (of_nat i)) [0..<256]"

abbreviation lut :: "u8 \<Rightarrow> u8" where
  "lut b \<equiv> HEX_NIBBLE_LUT ! unat b"

text \<open>\<^verbatim>\<open>hex_decode\<close> returns whether it succeeded and the new contents of \<^verbatim>\<open>out\<close>.\<close>

definition hex_decode :: "bytes \<Rightarrow> bytes \<Rightarrow> bool \<times> bytes" where
  "hex_decode hex_bytes out =
     (if length hex_bytes \<noteq> length out * 2 then (False, out)
      else if fold (\<lambda>b any_invalid. any_invalid OR lut b) hex_bytes 0 AND 0xF0 \<noteq> 0 then (False, out)
      else (True, map (\<lambda>i. push_bit 4 (lut (hex_bytes ! (i * 2))) OR lut (hex_bytes ! (i * 2 + 1)))
                    [0..<length out]))"

text \<open>
  The two lower-case writers: \<^verbatim>\<open>write_hex_to_buf\<close> of \<^verbatim>\<open>projection/write.rs\<close>, for byte values inside JSON, and
  \<^verbatim>\<open>encode_hex_lower_into\<close> of \<^verbatim>\<open>ffwd-arrow/src/columnar/builder.rs\<close>, for trace and span identifiers. The
  latter fills the zeros it appended, and is called with twice the length of the value.
\<close>

definition HEX_LOWER :: bytes where
  "HEX_LOWER = bstr ''0123456789abcdef''"

definition write_hex_to_buf :: "bytes \<Rightarrow> bytes \<Rightarrow> bytes" where
  "write_hex_to_buf out bs =
     fold (\<lambda>b out. out @ [HEX_LOWER ! unat (drop_bit 4 b), HEX_LOWER ! unat (b AND 0x0F)]) bs out"

definition encode_hex_lower_into :: "bytes \<Rightarrow> bytes \<Rightarrow> nat \<Rightarrow> bytes" where
  "encode_hex_lower_into out val encoded_len =
     (let old_len = length out
      in fold (\<lambda>i out. out[old_len + i * 2 := HEX_LOWER ! unat (drop_bit 4 (val ! i)),
                            old_len + (i * 2 + 1) := HEX_LOWER ! unat (val ! i AND 0x0F)])
           [0..<length val] (out @ replicate encoded_len 0))"

subsection \<open>Severity\<close>

datatype Severity = Unspecified | Trace | Debug | Info | Warn | Error | Fatal

fun severity_code :: "Severity \<Rightarrow> u64" where
  "severity_code Unspecified = 0"
| "severity_code Trace = 1"
| "severity_code Debug = 5"
| "severity_code Info = 9"
| "severity_code Warn = 13"
| "severity_code Error = 17"
| "severity_code Fatal = 21"

text \<open>
  \<^verbatim>\<open>eq_ignore_case_3\<close> to \<^verbatim>\<open>eq_ignore_case_8\<close>: the first \<open>n\<close> bytes agree after \<^verbatim>\<open>|0x20\<close>.
\<close>

definition eq_ignore_case :: "nat \<Rightarrow> bytes \<Rightarrow> bytes \<Rightarrow> bool" where
  "eq_ignore_case n a b \<longleftrightarrow> list_all (\<lambda>i. a ! i OR 0x20 = b ! i OR 0x20) [0..<n]"

definition parse_severity :: "bytes \<Rightarrow> Severity \<times> bytes" where
  "parse_severity s =
     (let sev =
        (if length s = 3 \<and> eq_ignore_case 3 s (bstr ''ERR'') then Error
         else if length s = 4 \<and> eq_ignore_case 4 s (bstr ''INFO'') then Info
         else if length s = 4 \<and> eq_ignore_case 4 s (bstr ''WARN'') then Warn
         else if length s = 5 \<and> eq_ignore_case 5 s (bstr ''DEBUG'') then Debug
         else if length s = 5 \<and> eq_ignore_case 5 s (bstr ''TRACE'') then Trace
         else if length s = 5 \<and> eq_ignore_case 5 s (bstr ''ERROR'') then Error
         else if length s = 5 \<and> eq_ignore_case 5 s (bstr ''FATAL'') then Fatal
         else if length s = 6 \<and> eq_ignore_case 6 s (bstr ''NOTICE'') then Info
         else if length s = 7 \<and> eq_ignore_case 7 s (bstr ''WARNING'') then Warn
         else if length s = 8 \<and> eq_ignore_case 8 s (bstr ''CRITICAL'') then Fatal
         else Unspecified)
      in (sev, s))"

subsection \<open>The civil calendar\<close>

definition is_leap_year :: "int \<Rightarrow> bool" where
  "is_leap_year year \<longleftrightarrow> year mod 4 = 0 \<and> (year mod 100 \<noteq> 0 \<or> year mod 400 = 0)"

definition days_in_month :: "int \<Rightarrow> int \<Rightarrow> int" where
  "days_in_month year month =
     (if month \<in> {1, 3, 5, 7, 8, 10, 12} then 31
      else if month \<in> {4, 6, 9, 11} then 30
      else if month = 2 then (if is_leap_year year then 29 else 28)
      else 0)"

definition days_from_civil :: "int \<Rightarrow> int \<Rightarrow> int \<Rightarrow> int" where
  "days_from_civil year month day =
     (let y = (if month \<le> 2 then year - 1 else year);
          m = (if month \<le> 2 then month + 9 else month - 3);
          era = y div 400;
          yoe = y mod 400;
          doy = (153 * m + 2) div 5 + day - 1;
          doe = yoe * 365 + yoe div 4 - yoe div 100 + doy
      in era * 146097 + doe - 719468)"

subsection \<open>Timestamps\<close>

definition parse_2digits_checked :: "bytes \<Rightarrow> nat \<Rightarrow> int option" where
  "parse_2digits_checked s off =
     (let a = s ! off - 48; b = s ! (off + 1) - 48
      in if 9 < a \<or> 9 < b then None else Some (uint a * 10 + uint b))"

definition parse_4digits_checked :: "bytes \<Rightarrow> nat \<Rightarrow> int option" where
  "parse_4digits_checked s off =
     (let a = s ! off - 48; b = s ! (off + 1) - 48; c = s ! (off + 2) - 48; d = s ! (off + 3) - 48
      in if 9 < a \<or> 9 < b \<or> 9 < c \<or> 9 < d then None
         else Some (uint a * 1000 + uint b * 100 + uint c * 10 + uint d))"

text \<open>
  The fraction: the digits after the point, the loop over the first nine of them with the loop that
  pads to nine, and the position after them. Nine digits fit a \<^verbatim>\<open>u64\<close>, so the products never overflow.
\<close>

definition fraction_digits :: "bytes \<Rightarrow> bytes" where
  "fraction_digits ts = takeWhile is_ascii_digit (drop 20 ts)"

definition fraction_nanos :: "bytes \<Rightarrow> int" where
  "fraction_nanos digits =
     (if digits = [] then 0
      else let frac_val = foldl (\<lambda>v b. v * 10 + uint (b - 48)) 0 (take 9 digits)
           in foldl (\<lambda>v _. v * 10) frac_val [length digits..<9])"

definition parse_fraction :: "bytes \<Rightarrow> nat \<times> int" where
  "parse_fraction ts =
     (if 19 < length ts \<and> ts ! 19 = DOT then
        (let digits = fraction_digits ts in (20 + length digits, fraction_nanos digits))
      else (19, 0))"

definition parse_zone :: "bytes \<Rightarrow> nat \<Rightarrow> int option" where
  "parse_zone ts tz_start =
     (if length ts \<le> tz_start then None
      else if (ts ! tz_start = 90 \<or> ts ! tz_start = 122) \<and> tz_start + 1 = length ts then Some 0
      else if (ts ! tz_start = 43 \<or> ts ! tz_start = 45) \<and> tz_start + 6 = length ts then
        (if ts ! (tz_start + 3) \<noteq> COLON then None
         else case parse_2digits_checked ts (tz_start + 1) of
           None \<Rightarrow> None
         | Some tz_h \<Rightarrow>
             (case parse_2digits_checked ts (tz_start + 4) of
                None \<Rightarrow> None
              | Some tz_m \<Rightarrow>
                  if 24 \<le> tz_h \<or> 60 \<le> tz_m then None
                  else Some ((if ts ! tz_start = 45 then -1 else 1) * (tz_h * 3600 + tz_m * 60))))
      else None)"

definition checked_u64 :: "int \<Rightarrow> int option" where
  [arith_defs]: "checked_u64 n = (if 0 \<le> n \<and> n < 2 ^ 64 then Some n else None)"

text \<open>The arithmetic at the end of \<^verbatim>\<open>parse_timestamp_nanos\<close>, each operation checked.\<close>

definition epoch_nanos :: "int \<Rightarrow> int \<Rightarrow> int \<Rightarrow> int \<Rightarrow> int \<Rightarrow> int \<Rightarrow> u64 option" where
  "epoch_nanos days hour minute sec tz_offset frac_nanos =
     Option.bind (checked_i64 (days * 86400)) (\<lambda>s.
     Option.bind (checked_i64 (s + hour * 3600)) (\<lambda>s.
     Option.bind (checked_i64 (s + minute * 60)) (\<lambda>s.
     Option.bind (checked_i64 (s + sec)) (\<lambda>s.
     Option.bind (checked_i64 (s - tz_offset)) (\<lambda>total_secs.
       if total_secs < 0 then None
       else Option.bind (checked_u64 (total_secs * 1000000000)) (\<lambda>n.
            Option.bind (checked_u64 (n + frac_nanos)) (\<lambda>n. Some (of_int n))))))))"

definition parse_timestamp_nanos :: "bytes \<Rightarrow> u64 option" where
  "parse_timestamp_nanos ts =
     (if length ts < 19 then None
      else if ts ! 4 \<noteq> MINUS \<or> ts ! 7 \<noteq> MINUS \<or> (ts ! 10 \<noteq> 84 \<and> ts ! 10 \<noteq> 116 \<and> ts ! 10 \<noteq> SP) \<or>
              ts ! 13 \<noteq> COLON \<or> ts ! 16 \<noteq> COLON then None
      else
        Option.bind (parse_4digits_checked ts 0) (\<lambda>year.
        Option.bind (parse_2digits_checked ts 5) (\<lambda>month.
        Option.bind (parse_2digits_checked ts 8) (\<lambda>day.
        Option.bind (parse_2digits_checked ts 11) (\<lambda>hour.
        Option.bind (parse_2digits_checked ts 14) (\<lambda>minute.
        Option.bind (parse_2digits_checked ts 17) (\<lambda>sec.
          if year = 0 \<or> month = 0 \<or> 12 < month \<or> day = 0 \<or> 31 < day then None
          else if days_in_month year month < day then None
          else if 23 < hour \<or> 59 < minute \<or> 60 < sec then None
          else if 2553 < year then None
          else let days = days_from_civil year month day
               in if days < 0 then None
                  else let (tz_start, frac_nanos) = parse_fraction ts
                       in Option.bind (parse_zone ts tz_start)
                            (\<lambda>tz_offset. epoch_nanos days hour minute sec tz_offset frac_nanos))))))))"

subsection \<open>Hexadecimal identifiers are exact\<close>

definition is_hex_digit :: "u8 \<Rightarrow> bool" where
  "is_hex_digit c \<longleftrightarrow> 48 \<le> c \<and> c \<le> 57 \<or> 97 \<le> c \<and> c \<le> 102 \<or> 65 \<le> c \<and> c \<le> 70"

lemma lut_eq: "lut b = hex_nibble b"
proof -
  have "unat b < 256" using unsigned_less [where 'a = nat, of b] by simp
  then show ?thesis by (simp add: HEX_NIBBLE_LUT_def)
qed

lemma high_nibble: "(b :: u8) AND 0xF0 = 0 \<longleftrightarrow> unat b < 16"
proof -
  have mask: "0xF0 = push_bit 4 (mask 4 :: u8)" by (simp add: mask_eq_exp_minus_1)
  have "b AND 0xF0 = 0 \<longleftrightarrow> (\<forall>n. 4 \<le> n \<and> n < 8 \<longrightarrow> \<not> bit b n)"
    unfolding mask by (auto simp: bit_eq_iff bit_simps)
  also have "\<dots> \<longleftrightarrow> take_bit 4 b = b" by (auto simp: bit_eq_iff [where 'a = "8 word"] bit_simps not_le) (meson not_less)
  also have "\<dots> \<longleftrightarrow> unat b < 16"
    by (simp add: word_unat_eq_iff unsigned_take_bit_eq take_bit_nat_eq_self_iff)
  finally show ?thesis .
qed

lemma nibble_valid: "hex_nibble b AND 0xF0 = 0 \<longleftrightarrow> is_hex_digit b"
proof -
  have "unat b < 256" using unsigned_less [where 'a = nat, of b] by simp
  then show ?thesis
    by (auto simp: high_nibble hex_nibble_def is_hex_digit_def word_le_nat_alt unat_sub unat_word_ariths)
qed

lemma any_invalid:
  "fold (\<lambda>b any_invalid. any_invalid OR lut b) hex acc AND 0xF0 = 0 \<longleftrightarrow>
     acc AND 0xF0 = 0 \<and> list_all is_hex_digit hex"
proof (induction hex arbitrary: acc)
  case (Cons b hex)
  have "(acc OR lut b) AND 0xF0 = 0 \<longleftrightarrow> acc AND 0xF0 = 0 \<and> is_hex_digit b"
    by (simp add: lut_eq bit.conj_disj_distrib2 or_eq_0_iff flip: nibble_valid)
  then show ?case using Cons.IH by simp
qed simp

lemma write_hex_append: "write_hex_to_buf out bs = out @ write_hex_to_buf [] bs"
proof (induction bs arbitrary: out)
  case (Cons b bs)
  show ?case
    using Cons [of "out @ [HEX_LOWER ! unat (drop_bit 4 b), HEX_LOWER ! unat (b AND 0x0F)]"]
      Cons [of "[HEX_LOWER ! unat (drop_bit 4 b), HEX_LOWER ! unat (b AND 0x0F)]"]
    by (simp add: write_hex_to_buf_def)
qed (simp add: write_hex_to_buf_def)

lemma write_hex_Cons:
  "write_hex_to_buf [] (b # bs) =
     HEX_LOWER ! unat (drop_bit 4 b) # HEX_LOWER ! unat (b AND 0x0F) # write_hex_to_buf [] bs"
  using write_hex_append [of "[HEX_LOWER ! unat (drop_bit 4 b), HEX_LOWER ! unat (b AND 0x0F)]" bs]
  by (simp add: write_hex_to_buf_def)

lemma length_write_hex [simp]: "length (write_hex_to_buf [] bs) = 2 * length bs"
  by (induction bs) (simp_all add: write_hex_Cons, simp add: write_hex_to_buf_def)

lemma hex_lower_nth:
  "n < 16 \<Longrightarrow> is_hex_digit (HEX_LOWER ! n) \<and> hex_nibble (HEX_LOWER ! n) = of_nat n"
proof -
  have "list_all (\<lambda>n. is_hex_digit (HEX_LOWER ! n) \<and> hex_nibble (HEX_LOWER ! n) = of_nat n) [0..<16]"
    by code_simp
  then show "n < 16 \<Longrightarrow> ?thesis" by (simp add: list_all_iff)
qed

lemma nibbles:
  "unat (drop_bit 4 b) < 16" "unat (b AND 0x0F) < 16" "push_bit 4 (drop_bit 4 b) OR (b AND 0x0F) = (b :: u8)"
proof -
  have low: "b AND 0x0F = take_bit 4 b" by (simp add: take_bit_eq_mask mask_eq_exp_minus_1)
  have "unat b < 256" using unsigned_less [where 'a = nat, of b] by simp
  then show "unat (drop_bit 4 b) < 16"
    by (simp add: unat_drop_bit_eq drop_bit_eq_div [where 'a = nat] div_less_iff_less_mult)
  show "unat (b AND 0x0F) < 16"
    by (simp add: low unsigned_take_bit_eq take_bit_eq_mod [where 'a = nat])
  show "push_bit 4 (drop_bit 4 b) OR (b AND 0x0F) = b"
    unfolding low by (rule bit_word_eqI) (auto simp: bit_simps)
qed

lemma hex_byte:
  "is_hex_digit (HEX_LOWER ! unat (drop_bit 4 b))" "is_hex_digit (HEX_LOWER ! unat (b AND 0x0F))"
  "push_bit 4 (hex_nibble (HEX_LOWER ! unat (drop_bit 4 b))) OR hex_nibble (HEX_LOWER ! unat (b AND 0x0F)) = b"
  using hex_lower_nth [OF nibbles(1) [of b]] hex_lower_nth [OF nibbles(2) [of b]] nibbles(3) [of b]
  by simp_all

lemma write_hex_nth:
  "i < length bs \<Longrightarrow>
     write_hex_to_buf [] bs ! (i * 2) = HEX_LOWER ! unat (drop_bit 4 (bs ! i)) \<and>
     write_hex_to_buf [] bs ! (i * 2 + 1) = HEX_LOWER ! unat (bs ! i AND 0x0F)"
proof (induction bs arbitrary: i)
  case (Cons b bs)
  then show ?case by (cases i) (auto simp: write_hex_Cons)
qed simp

lemma write_hex_digits: "list_all is_hex_digit (write_hex_to_buf [] bs)"
  by (induction bs) (simp_all add: write_hex_Cons hex_byte, simp add: write_hex_to_buf_def)

text \<open>The value of a hexadecimal digit of either case, as a table.\<close>

definition nibble_value :: "u8 \<Rightarrow> nat option" where
  "nibble_value c = map_of (zip (bstr ''0123456789abcdefABCDEF'') ([0..<16] @ [10..<16])) c"

lemma hex_table:
  "zip (bstr ''0123456789abcdefABCDEF'') ([0..<16] @ [10..<16]) =
     [(48, 0), (49, 1), (50, 2), (51, 3), (52, 4), (53, 5), (54, 6), (55, 7), (56, 8), (57, 9), (97, 10), (98, 11), (99, 12),
      (100, 13), (101, 14), (102, 15), (65, 10), (66, 11), (67, 12), (68, 13), (69, 14), (70, 15)]"
  by code_simp

lemma nibble_value_exact:
  "is_hex_digit c \<longleftrightarrow> nibble_value c \<noteq> None" "nibble_value c = Some v \<Longrightarrow> hex_nibble c = of_nat v \<and> v < 16"
proof -
  let ?ns = "[48..<58] @ [97..<103] @ [65..<71]"
  have "is_hex_digit c \<longleftrightarrow> unat c \<in> set ?ns"
    unfolding is_hex_digit_def word_le_nat_alt set_append set_upt by auto
  also have "\<dots> \<longleftrightarrow> c \<in> set (map of_nat ?ns)"
  proof
    assume "unat c \<in> set ?ns"
    then show "c \<in> set (map of_nat ?ns)" unfolding set_map by (rule rev_image_eqI) simp
  next
    assume "c \<in> set (map of_nat ?ns)"
    then obtain n where n: "n \<in> set ?ns" "c = of_nat n" unfolding set_map by blast
    then have "n < 256" unfolding set_append set_upt by auto
    then have "unat c = n" using n(2) by (simp add: unat_of_nat)
    then show "unat c \<in> set ?ns" using n(1) by simp
  qed
  also have "map of_nat ?ns =
    map fst (zip (bstr ''0123456789abcdefABCDEF'') ([0..<16] @ [10..<16]))" unfolding hex_table by code_simp
  finally show "is_hex_digit c \<longleftrightarrow> nibble_value c \<noteq> None" by (simp add: nibble_value_def map_of_eq_None_iff)
  have "list_all (\<lambda>(c, v). hex_nibble c = of_nat v \<and> v < 16) (zip (bstr ''0123456789abcdefABCDEF'') ([0..<16] @ [10..<16]))"
    unfolding hex_table by code_simp
  then show "nibble_value c = Some v \<Longrightarrow> hex_nibble c = of_nat v \<and> v < 16"
    by (auto simp: nibble_value_def list_all_iff dest!: map_of_SomeD)
qed

lemma nibble_pair: "a < 16 \<Longrightarrow> b < 16 \<Longrightarrow> push_bit 4 (of_nat a) OR of_nat b = (of_nat (16 * a + b) :: u8)"
proof -
  assume ab: "a < 16" "b < 16"
  have "push_bit 4 (of_nat a) AND (of_nat b :: u8) = 0"
  proof (rule bit_word_eqI)
    fix n
    assume "n < LENGTH(8)"
    have "\<not> bit b n" if "4 \<le> n"
    proof -
      have "b < 2 ^ n" using ab(2) power_increasing [OF that, of "2 :: nat"] by simp
      then show ?thesis by (simp add: bit_iff_odd)
    qed
    then show "bit (push_bit 4 (of_nat a) AND (of_nat b :: u8)) n = bit (0 :: u8) n"
      by (auto simp: bit_simps)
  qed
  then have "push_bit 4 (of_nat a) OR (of_nat b :: u8) = push_bit 4 (of_nat a) + of_nat b"
    by (rule disjunctive_add_eq_or [symmetric])
  then show ?thesis by (simp add: push_bit_eq_mult mult.commute)
qed

lemma encode_hex_eq: "encode_hex_lower_into out val (2 * length val) = out @ write_hex_to_buf [] val"
proof -
  have "fold (\<lambda>i out. out[n + i * 2 := HEX_LOWER ! unat (drop_bit 4 (val ! i)),
                          n + (i * 2 + 1) := HEX_LOWER ! unat (val ! i AND 0x0F)])
      [0..<k] (out @ replicate (2 * length val) 0) =
    out @ write_hex_to_buf [] (take k val) @ replicate (2 * length val - 2 * k) 0"
    if "k \<le> length val" "n = length out" for k n
    using that
  proof (induction k)
    case (Suc k)
    have "replicate (2 * length val - 2 * k) 0 = 0 # 0 # replicate (2 * length val - 2 * Suc k) (0 :: u8)"
      using Suc.prems by (simp flip: replicate_Suc) 
    moreover have "write_hex_to_buf [] (xs @ [b]) =
        write_hex_to_buf [] xs @ [HEX_LOWER ! unat (drop_bit 4 b), HEX_LOWER ! unat (b AND 0x0F)]" for xs b
      by (simp add: write_hex_to_buf_def)
    ultimately show ?case
      using Suc by (simp add: take_Suc_conv_app_nth list_update_append min_def mult.commute)
  qed (simp add: write_hex_to_buf_def)
  from this [of "length val" "length out"] show ?thesis by (simp add: encode_hex_lower_into_def Let_def)
qed

text \<open>
  Property C17. \<^verbatim>\<open>hex_decode\<close> succeeds exactly on twice as many hexadecimal digits, of either
  case, as the output has bytes, although it checks all table entries at once, and then the output is
  the bytes that the pairs of digits denote. When it fails it leaves the output alone. It reads
  what the two writers write back to the bytes they came from, and the writers agree.
\<close>

theorem hex_decode_exact:
  "hex_decode hex out =
     (if length hex = 2 * length out \<and> list_all (\<lambda>c. nibble_value c \<noteq> None) hex
      then (True, map (\<lambda>i. of_nat (16 * the (nibble_value (hex ! (2 * i))) + the (nibble_value (hex ! (2 * i + 1)))))
                    [0..<length out])
      else (False, out)) \<and>
   hex_decode (write_hex_to_buf [] bs) (replicate (length bs) 0) = (True, bs) \<and>
   encode_hex_lower_into pre bs (2 * length bs) = pre @ write_hex_to_buf [] bs"
proof (intro conjI)
  have pair: "push_bit 4 (lut (hex ! (i * 2))) OR lut (hex ! (i * 2 + 1)) =
      of_nat (16 * the (nibble_value (hex ! (2 * i))) + the (nibble_value (hex ! (2 * i + 1))))"
    if "list_all (\<lambda>c. nibble_value c \<noteq> None) hex" "length hex = 2 * length out" "i < length out" for i
  proof -
    have "nibble_value (hex ! (2 * i)) \<noteq> None" "nibble_value (hex ! (2 * i + 1)) \<noteq> None"
      using that by (simp_all add: list_all_length)
    then obtain a b where "nibble_value (hex ! (2 * i)) = Some a" "nibble_value (hex ! (2 * i + 1)) = Some b" by blast
    then show ?thesis
      using nibble_value_exact(2) by (simp add: lut_eq mult.commute nibble_pair)
  qed
  have digits: "list_all (\<lambda>c. nibble_value c \<noteq> None) hex = list_all is_hex_digit hex"
    by (rule list.pred_cong) (simp_all only: nibble_value_exact(1))
  show "hex_decode hex out =
     (if length hex = 2 * length out \<and> list_all (\<lambda>c. nibble_value c \<noteq> None) hex
      then (True, map (\<lambda>i. of_nat (16 * the (nibble_value (hex ! (2 * i))) + the (nibble_value (hex ! (2 * i + 1)))))
                    [0..<length out])
      else (False, out))"
    using any_invalid [of hex 0] pair unfolding digits by (auto simp: hex_decode_def mult.commute)
  have "map (\<lambda>i. push_bit 4 (lut (write_hex_to_buf [] bs ! (i * 2))) OR lut (write_hex_to_buf [] bs ! (i * 2 + 1)))
      [0..<length bs] = bs"
    by (rule nth_equalityI) (simp_all add: write_hex_nth lut_eq hex_byte del: One_nat_def)
  then show "hex_decode (write_hex_to_buf [] bs) (replicate (length bs) 0) = (True, bs)"
    using any_invalid [of "write_hex_to_buf [] bs" 0] write_hex_digits [of bs]
    by (simp add: hex_decode_def mult.commute)
qed (rule encode_hex_eq)

subsection \<open>Severity names match exactly\<close>

definition severity_names :: "(bytes \<times> Severity) list" where
  "severity_names =
     [(bstr ''ERR'', Error), (bstr ''INFO'', Info), (bstr ''WARN'', Warn), (bstr ''DEBUG'', Debug),
      (bstr ''TRACE'', Trace), (bstr ''ERROR'', Error), (bstr ''FATAL'', Fatal), (bstr ''NOTICE'', Info),
      (bstr ''WARNING'', Warn), (bstr ''CRITICAL'', Fatal)]"

lemma unat_or_case: "unat ((x :: u8) OR 0x20) = (if odd (unat x div 32) then unat x else unat x + 32)"
proof -
  have bit: "bit x 5 \<longleftrightarrow> odd (unat x div 32)"
    using bit_unsigned_iff [where 'a = nat, of x 5] by (simp add: bit_iff_odd [where 'a = nat])
  have five: "(0x20 :: u8) = push_bit 5 1" by simp
  have "unat x < 256" using unsigned_less [where 'a = nat, of x] by simp
  show ?thesis
  proof (cases "bit x 5")
    case True
    have "bit (x OR push_bit 5 1) n \<longleftrightarrow> bit x n" for n
      using True by (cases "n = 5") (auto simp only: bit_or_iff bit_push_bit_iff bit_1_iff diff_is_0_eq)
    then have "x OR push_bit 5 1 = x" by (intro bit_word_eqI) simp
    then have "x OR 0x20 = x" unfolding five .
    then show ?thesis using True bit by simp
  next
    case False
    then have "x AND 0x20 = 0" using and_exp_eq_0_iff_not_bit [of x 5] by simp
    then have plus: "x OR 0x20 = x + 0x20" by (rule disjunctive_add_eq_or [symmetric])
    have "even (unat x div 32)" using False bit by simp
    moreover have "unat x div 32 < 8" using \<open>unat x < 256\<close> by (simp add: div_less_iff_less_mult)
    ultimately have "unat x div 32 < 7" by (cases "unat x div 32 = 7") simp_all
    then have "unat x + 32 < 256" by (simp add: div_less_iff_less_mult)
    then show ?thesis using False bit plus by (simp add: unat_word_ariths)
  qed
qed

lemma case_fold_letter:
  assumes "65 \<le> c" and "c \<le> (90 :: u8)"
  shows "x OR 0x20 = c OR 0x20 \<longleftrightarrow> to_ascii_lowercase x = to_ascii_lowercase c"
proof -
  have c: "65 \<le> unat c" "unat c \<le> 90" using assms by (simp_all add: word_le_nat_alt)
  have x: "unat x < 256" using unsigned_less [where 'a = nat, of x] by simp
  have low: "unat (to_ascii_lowercase y) = (if 65 \<le> unat y \<and> unat y \<le> 90 then unat y + 32 else unat y)" for y
    by (simp add: to_ascii_lowercase_def word_le_nat_alt unat_word_ariths)
  have "unat c div 32 = 2" "(unat c + 32) div 32 = 3"
    using c by (simp_all add: div_nat_eqI)
  then show ?thesis
    using c x by (auto simp: word_unat_eq_iff unat_or_case low)
qed

lemma eq_ignore_case_exact:
  assumes "list_all (\<lambda>c. 65 \<le> c \<and> c \<le> (90 :: u8)) name" and "length name = n"
  shows "length s = n \<and> eq_ignore_case n s name \<longleftrightarrow> eq_ignore_ascii_case s name"
proof -
  have letter: "s ! i OR 0x20 = name ! i OR 0x20 \<longleftrightarrow> to_ascii_lowercase (s ! i) = to_ascii_lowercase (name ! i)"
    if "i < n" for i
    using assms that by (intro case_fold_letter) (simp_all add: list_all_length)
  have "eq_ignore_case n s name \<longleftrightarrow> (\<forall>i < n. to_ascii_lowercase (s ! i) = to_ascii_lowercase (name ! i))"
    unfolding eq_ignore_case_def list_all_iff using letter by (simp add: Ball_def)
  moreover have "eq_ignore_ascii_case s name \<longleftrightarrow>
      length s = n \<and> (\<forall>i < n. to_ascii_lowercase (s ! i) = to_ascii_lowercase (name ! i))"
    unfolding eq_ignore_ascii_case_def list_eq_iff_nth_eq using assms(2) by (auto simp: nth_map)
  ultimately show ?thesis by simp
qed

lemma severity_letters:
  "list_all (\<lambda>c. 65 \<le> c \<and> c \<le> (90 :: u8)) (bstr ''ERR'') \<and> length (bstr ''ERR'') = 3"
  "list_all (\<lambda>c. 65 \<le> c \<and> c \<le> (90 :: u8)) (bstr ''INFO'') \<and> length (bstr ''INFO'') = 4"
  "list_all (\<lambda>c. 65 \<le> c \<and> c \<le> (90 :: u8)) (bstr ''WARN'') \<and> length (bstr ''WARN'') = 4"
  "list_all (\<lambda>c. 65 \<le> c \<and> c \<le> (90 :: u8)) (bstr ''DEBUG'') \<and> length (bstr ''DEBUG'') = 5"
  "list_all (\<lambda>c. 65 \<le> c \<and> c \<le> (90 :: u8)) (bstr ''TRACE'') \<and> length (bstr ''TRACE'') = 5"
  "list_all (\<lambda>c. 65 \<le> c \<and> c \<le> (90 :: u8)) (bstr ''ERROR'') \<and> length (bstr ''ERROR'') = 5"
  "list_all (\<lambda>c. 65 \<le> c \<and> c \<le> (90 :: u8)) (bstr ''FATAL'') \<and> length (bstr ''FATAL'') = 5"
  "list_all (\<lambda>c. 65 \<le> c \<and> c \<le> (90 :: u8)) (bstr ''NOTICE'') \<and> length (bstr ''NOTICE'') = 6"
  "list_all (\<lambda>c. 65 \<le> c \<and> c \<le> (90 :: u8)) (bstr ''WARNING'') \<and> length (bstr ''WARNING'') = 7"
  "list_all (\<lambda>c. 65 \<le> c \<and> c \<le> (90 :: u8)) (bstr ''CRITICAL'') \<and> length (bstr ''CRITICAL'') = 8"
  by code_simp+

lemmas severity_name_exact =
  eq_ignore_case_exact [of "bstr ''ERR''" 3]
  eq_ignore_case_exact [of "bstr ''INFO''" 4]
  eq_ignore_case_exact [of "bstr ''WARN''" 4]
  eq_ignore_case_exact [of "bstr ''DEBUG''" 5]
  eq_ignore_case_exact [of "bstr ''TRACE''" 5]
  eq_ignore_case_exact [of "bstr ''ERROR''" 5]
  eq_ignore_case_exact [of "bstr ''FATAL''" 5]
  eq_ignore_case_exact [of "bstr ''NOTICE''" 6]
  eq_ignore_case_exact [of "bstr ''WARNING''" 7]
  eq_ignore_case_exact [of "bstr ''CRITICAL''" 8]

text \<open>
  Property C18. A severity text is recognised exactly when it equals one of the ten names up
  to ASCII case; the comparison by \<^verbatim>\<open>|0x20\<close> lets no other text through. The text itself is
  returned unchanged.
\<close>

theorem severity_exact:
  "parse_severity s =
     (case find (\<lambda>(name, _). eq_ignore_ascii_case s name) severity_names of
        Some (_, sev) \<Rightarrow> sev | None \<Rightarrow> Unspecified, s)"
  unfolding parse_severity_def severity_names_def
  by (simp add: severity_name_exact severity_letters Let_def)

subsection \<open>The calendar counts days\<close>

definition next_day :: "int \<times> int \<times> int \<Rightarrow> int \<times> int \<times> int" where
  "next_day = (\<lambda>(y, m, d).
     if d < days_in_month y m then (y, m, d + 1) else if m < 12 then (y, m + 1, 1) else (y + 1, 1, 1))"

definition year_days :: "int \<Rightarrow> int" where
  "year_days y = y div 400 * 146097 + (y mod 400 * 365 + y mod 400 div 4 - y mod 400 div 100)"

lemma year_days_closed: "year_days y = 365 * y + y div 4 - y div 100 + y div 400"
proof -
  define q r where "q = y div 400" and "r = y mod 400"
  have y: "y = r + 4 * (100 * q)" "y = r + 100 * (4 * q)" by (simp_all add: q_def r_def)
  have "y div 4 = 100 * q + r div 4" by (subst y(1)) simp
  moreover have "y div 100 = 4 * q + r div 100" by (subst y(2)) simp
  ultimately show ?thesis
    unfolding year_days_def q_def [symmetric] r_def [symmetric] using y by simp
qed

lemma div_step: "0 < k \<Longrightarrow> y div k = (y - 1) div k + (if y mod k = 0 then 1 else 0)" for y k :: int
proof -
  assume k: "0 < k"
  have y: "y = k * (y div k) + y mod k" "0 \<le> y mod k" "y mod k < k" using k by simp_all
  show ?thesis
  proof (cases "y mod k = 0")
    case True
    have "(y - 1) div k = y div k - 1"
      using y k True by (intro int_div_pos_eq [where r = "k - 1"]) (simp_all add: algebra_simps)
    then show ?thesis using True by simp
  next
    case False
    have "(y - 1) div k = y div k"
      using y False by (intro int_div_pos_eq [where r = "y mod k - 1"]) simp_all
    then show ?thesis using False by simp
  qed
qed

lemma year_days_step: "year_days y = year_days (y - 1) + (if is_leap_year y then 366 else 365)"
proof -
  have sum: "365 * z + p - q + r = 365 * (z - 1) + p' - q' + r' + (365 + a - b + c)"
    if "p = p' + a" "q = q' + b" "r = r' + c" for z p q r p' q' r' a b c :: int
    using that by simp
  have leap: "365 + (if P then 1 else 0) - (if Q then 1 else 0) + (if R then 1 else 0) =
      (if P \<and> (\<not> Q \<or> R) then 366 else 365 :: int)" if "R \<longrightarrow> Q" "Q \<longrightarrow> P" for P Q R
    using that by (cases P; cases Q; cases R) simp_all
  have "year_days y = year_days (y - 1) +
      (365 + (if y mod 4 = 0 then 1 else 0) - (if y mod 100 = 0 then 1 else 0) + (if y mod 400 = 0 then 1 else 0))"
    unfolding year_days_closed by (rule sum; rule div_step; simp)
  also have "365 + (if y mod 4 = 0 then 1 else 0) - (if y mod 100 = 0 then 1 else 0) +
      (if y mod 400 = 0 then 1 else 0) = (if is_leap_year y then 366 else 365 :: int)"
    unfolding is_leap_year_def
    using dvd_trans [of 100 400 y] dvd_trans [of 4 100 y] by (intro leap) (simp_all add: mod_eq_0_iff_dvd)
  finally show ?thesis .
qed

lemma days_from_civil_eq:
  "days_from_civil y m d =
     (if m \<le> 2 then year_days (y - 1) + (153 * (m + 9) + 2) div 5 else year_days y + (153 * (m - 3) + 2) div 5)
     + d - 1 - 719468"
  by (simp add: days_from_civil_def year_days_def Let_def)

lemma month_cases:
  assumes "1 \<le> m" and "m \<le> (12 :: int)"
  shows "m \<in> {1, 2, 3, 4, 5, 6, 7, 8, 9, 10, 11, 12}"
proof -
  have "[1..12 :: int] = [1, 2, 3, 4, 5, 6, 7, 8, 9, 10, 11, 12]" by code_simp
  moreover have "m \<in> set [1..12]" using assms by simp
  ultimately show ?thesis by (simp only: list.set)
qed

lemma month_end:
  assumes "1 \<le> m" and "m < 12"
  shows "days_from_civil y (m + 1) 1 = days_from_civil y m (days_in_month y m) + 1"
proof (cases "m = 2")
  case True
  then show ?thesis
    using year_days_step [of y] by (simp add: days_from_civil_eq days_in_month_def split: if_splits)
next
  case False
  have "m \<in> {1, 2, 3, 4, 5, 6, 7, 8, 9, 10, 11, 12}" using assms by (intro month_cases) simp_all
  then show ?thesis
    using assms(2) False
    by (elim insertE emptyE) (simp_all add: days_from_civil_eq days_in_month_def)
qed

text \<open>
  Property C19. \<^verbatim>\<open>days_from_civil\<close> counts the days since 1 January 1970: that day is day zero, and
  each valid date is one day before the date that follows it in the Gregorian calendar, across
  month ends, leap days and year ends.
\<close>

theorem civil_days_count:
  assumes "1 \<le> m" and "m \<le> 12" and "1 \<le> d" and "d \<le> days_in_month y m"
  shows "days_from_civil 1970 1 1 = 0 \<and>
    (case next_day (y, m, d) of (y', m', d') \<Rightarrow> days_from_civil y' m' d' = days_from_civil y m d + 1)"
proof -
  have "days_from_civil 1970 1 1 = 0" by code_simp
  moreover have "days_from_civil y m (d + 1) = days_from_civil y m d + 1" for d
    by (simp add: days_from_civil_eq)
  moreover have "days_from_civil (y + 1) 1 1 = days_from_civil y 12 31 + 1"
    by (simp add: days_from_civil_eq)
  moreover have "d < days_in_month y m \<or> d = days_in_month y m \<and> m < 12 \<or> d = 31 \<and> m = 12"
  proof -
    have "days_in_month y 12 = 31" by (simp add: days_in_month_def)
    then show ?thesis using assms(2,4) by (cases "m = 12") auto
  qed
  ultimately show ?thesis using month_end [OF assms(1), of y] by (auto simp: next_day_def)
qed

theorem civil_days_count_witness:
  "days_from_civil 2024 3 1 = days_from_civil 2024 2 29 + 1"
  using civil_days_count [of 2 29 2024]
  by (simp add: days_in_month_def is_leap_year_def next_day_def)

subsection \<open>Which instant a timestamp denotes\<close>

text \<open>The texts of RFC 3339, as data: fields, an optional fraction and a zone.\<close>

datatype zone = Zulu bool | Offset bool int int

record civil_time =
  ct_year :: int
  ct_month :: int
  ct_day :: int
  ct_hour :: int
  ct_minute :: int
  ct_second :: int
  ct_fraction :: "bytes option"
  ct_zone :: zone

definition digit :: "int \<Rightarrow> u8" where
  "digit n = of_int (48 + n)"

fun zone_bytes :: "zone \<Rightarrow> bytes" where
  "zone_bytes (Zulu lower) = [if lower then 122 else 90]"
| "zone_bytes (Offset neg h m) =
     [if neg then 45 else 43, digit (h div 10), digit (h mod 10), COLON, digit (m div 10), digit (m mod 10)]"

fun zone_secs :: "zone \<Rightarrow> int" where
  "zone_secs (Zulu _) = 0"
| "zone_secs (Offset neg h m) = (if neg then -1 else 1) * (h * 3600 + m * 60)"

fun zone_ok :: "zone \<Rightarrow> bool" where
  "zone_ok (Zulu _) \<longleftrightarrow> True"
| "zone_ok (Offset _ h m) \<longleftrightarrow> 0 \<le> h \<and> h < 24 \<and> 0 \<le> m \<and> m < 60"

definition time_suffix :: "civil_time \<Rightarrow> bytes" where
  "time_suffix t = (case ct_fraction t of None \<Rightarrow> [] | Some ds \<Rightarrow> DOT # ds) @ zone_bytes (ct_zone t)"

definition timestamp_text :: "u8 \<Rightarrow> civil_time \<Rightarrow> bytes" where
  "timestamp_text sep t =
     [digit (ct_year t div 1000), digit (ct_year t div 100 mod 10), digit (ct_year t div 10 mod 10),
      digit (ct_year t mod 10), MINUS, digit (ct_month t div 10), digit (ct_month t mod 10), MINUS,
      digit (ct_day t div 10), digit (ct_day t mod 10), sep,
      digit (ct_hour t div 10), digit (ct_hour t mod 10), COLON,
      digit (ct_minute t div 10), digit (ct_minute t mod 10), COLON,
      digit (ct_second t div 10), digit (ct_second t mod 10)] @ time_suffix t"

definition civil_ok :: "civil_time \<Rightarrow> bool" where
  "civil_ok t \<longleftrightarrow>
     1 \<le> ct_year t \<and> ct_year t \<le> 2553 \<and> 1 \<le> ct_month t \<and> ct_month t \<le> 12 \<and>
     1 \<le> ct_day t \<and> ct_day t \<le> days_in_month (ct_year t) (ct_month t) \<and>
     0 \<le> ct_hour t \<and> ct_hour t \<le> 23 \<and> 0 \<le> ct_minute t \<and> ct_minute t \<le> 59 \<and>
     0 \<le> ct_second t \<and> ct_second t \<le> 60 \<and> zone_ok (ct_zone t) \<and>
     (case ct_fraction t of None \<Rightarrow> True | Some ds \<Rightarrow> list_all is_ascii_digit ds)"

definition utc_seconds :: "civil_time \<Rightarrow> int" where
  "utc_seconds t = days_from_civil (ct_year t) (ct_month t) (ct_day t) * 86400 + ct_hour t * 3600 +
     ct_minute t * 60 + ct_second t - zone_secs (ct_zone t)"

lemma digit_value: "0 \<le> n \<Longrightarrow> n < 10 \<Longrightarrow> \<not> 9 < digit n - 48 \<and> uint (digit n - 48) = n"
proof -
  assume n: "0 \<le> n" "n < 10"
  have "digit n - 48 = of_int n" by (simp add: digit_def)
  then show ?thesis using n by (simp add: word_less_alt uint_word_of_int)
qed

lemma parse_2digits:
  assumes "s ! off = digit (n div 10)" and "s ! (off + 1) = digit (n mod 10)" and "0 \<le> n" and "n < 100"
  shows "parse_2digits_checked s off = Some n"
proof -
  have "0 \<le> n div 10" "n div 10 < 10" using assms(3,4) by (simp_all add: div_less_iff_less_mult pos_imp_zdiv_nonneg_iff)
  then show ?thesis
    using digit_value [of "n div 10"] digit_value [of "n mod 10"] assms(1,2)
    by (simp add: parse_2digits_checked_def Let_def)
qed

lemma parse_4digits:
  assumes "s ! off = digit (n div 1000)" and "s ! (off + 1) = digit (n div 100 mod 10)"
    and "s ! (off + 2) = digit (n div 10 mod 10)" and "s ! (off + 3) = digit (n mod 10)"
    and "0 \<le> n" and "n < 10000"
  shows "parse_4digits_checked s off = Some n"
proof -
  have top: "0 \<le> n div 1000" "n div 1000 < 10"
    using assms(5,6) by (simp_all add: div_less_iff_less_mult pos_imp_zdiv_nonneg_iff)
  have sum: "q3 * 1000 + b * 100 + c * 10 + d = m"
    if "q2 = q3 * 10 + b" "q1 = q2 * 10 + c" "m = q1 * 10 + d" for q1 q2 q3 b c d m :: int
    using that by simp
  have split: "a = a div 10 * 10 + a mod 10" for a :: int by (rule div_mult_mod_eq [symmetric])
  have "n div 10 div 10 = n div 100" "n div 100 div 10 = n div 1000"
    using zdiv_zmult2_eq [of 10 n 10] zdiv_zmult2_eq [of 10 n 100] by simp_all
  then have eq: "n div 1000 * 1000 + n div 100 mod 10 * 100 + n div 10 mod 10 * 10 + n mod 10 = n"
    using split [of n] split [of "n div 10"] split [of "n div 100"]
    by (intro sum [of "n div 100" _ _ "n div 10"]) (simp_all only:)
  note digits = digit_value [OF top] digit_value [of "n div 100 mod 10"]
    digit_value [of "n div 10 mod 10"] digit_value [of "n mod 10"]
  show ?thesis
    using digits unfolding parse_4digits_checked_def Let_def assms(1-4) by (simp add: eq)
qed

lemma parse_zone_text:
  assumes "zone_ok z"
  shows "parse_zone (pre @ zone_bytes z) (length pre) = Some (zone_secs z)"
proof (cases z)
  case (Offset neg h m)
  let ?ts = "pre @ zone_bytes z"
  have z: "0 \<le> h" "h < 24" "0 \<le> m" "m < 60" using assms Offset by simp_all
  have "parse_2digits_checked ?ts (length pre + 1) = Some h"
    by (rule parse_2digits) (use z in \<open>simp_all add: Offset nth_append\<close>)
  moreover have "parse_2digits_checked ?ts (length pre + 4) = Some m"
    by (rule parse_2digits) (use z in \<open>simp_all add: Offset nth_append\<close>)
  ultimately show ?thesis
    using z by (simp add: parse_zone_def Offset nth_append)
qed (simp add: parse_zone_def nth_append)

lemma zone_head:
  obtains b rest where "zone_bytes z = b # rest" and "b \<noteq> DOT" and "\<not> is_ascii_digit b"
  by (cases z) (auto simp: is_ascii_digit_def)

lemma ascii_digit_value: "is_ascii_digit b \<Longrightarrow> 0 \<le> uint (b - 48) \<and> uint (b - 48) \<le> 9"
proof -
  assume "is_ascii_digit b"
  then have b: "48 \<le> b" "unat b \<le> 57"
    by (simp_all add: is_ascii_digit_def word_le_nat_alt)
  then have "unat (b - 48) \<le> 9"
    by (simp add: unat_sub)
  then show ?thesis unfolding uint_nat by linarith
qed

lemma digits_value_bound:
  assumes "list_all is_ascii_digit ds"
  shows "0 \<le> foldl (\<lambda>v b. v * 10 + uint (b - 48)) 0 ds \<and> foldl (\<lambda>v b. v * 10 + uint (b - 48)) 0 ds < 10 ^ length ds"
  using assms
proof (induction ds rule: rev_induct)
  case (snoc b ds)
  have step: "0 \<le> v * 10 + k \<and> v * 10 + k < 10 ^ Suc n" if "0 \<le> v \<and> v < 10 ^ n" "0 \<le> k \<and> k \<le> 9" for v k :: int and n
    using that by simp
  have "list_all is_ascii_digit ds" "is_ascii_digit b"
    using snoc.prems by simp_all
  from step [OF snoc.IH [OF this(1)] ascii_digit_value [OF this(2)]]
  show ?case
    by (simp only: foldl_append foldl.simps length_append_singleton)
qed simp

lemma pad_loop: "foldl (\<lambda>v _. v * 10) (x :: int) [n..<m] = x * 10 ^ (m - n)"
proof (induction "m - n" arbitrary: n x)
  case (Suc k)
  then show ?case by (simp add: upt_conv_Cons Suc_diff_Suc [symmetric])
qed simp

lemma fraction_nanos_eq:
  "fraction_nanos ds = foldl (\<lambda>v b. v * 10 + uint (b - 48)) 0 (take 9 ds) * 10 ^ (9 - length ds)"
  by (simp add: fraction_nanos_def Let_def pad_loop)

lemma fraction_nanos_bound:
  assumes "list_all is_ascii_digit ds"
  shows "0 \<le> fraction_nanos ds \<and> fraction_nanos ds < 10 ^ 9"
proof -
  define v where "v = foldl (\<lambda>v b. v * 10 + uint (b - 48)) 0 (take 9 ds)"
  have "list_all is_ascii_digit (take 9 ds)" using assms by (auto simp: list_all_iff dest: in_set_takeD)
  from digits_value_bound [OF this] have v: "0 \<le> v" "v < 10 ^ length (take 9 ds)"
    by (simp_all add: v_def)
  have "v * 10 ^ (9 - length ds) < 10 ^ length (take 9 ds) * 10 ^ (9 - length ds)"
    using v(2) by (rule mult_strict_right_mono) simp
  also have "\<dots> = 10 ^ (length (take 9 ds) + (9 - length ds))" by (rule power_add [symmetric])
  also have "length (take 9 ds) + (9 - length ds) = 9" by simp
  finally show ?thesis using v(1) by (simp add: fraction_nanos_eq flip: v_def)
qed

text \<open>
  The nanoseconds that a fraction denotes: its digits as a decimal fraction of \<open>10\<^sup>9\<close>, rounded down.
\<close>

definition fraction_value :: "bytes \<Rightarrow> int" where
  "fraction_value ds = decimal ds * 10 ^ 9 div 10 ^ length ds"

lemma decimal_append: "decimal (xs @ ys) = decimal xs * 10 ^ length ys + decimal ys"
  by (induction ys rule: rev_induct) (simp_all add: decimal_snoc algebra_simps flip: append_assoc, simp add: decimal_def)

lemma decimal_below: "list_all is_ascii_digit ds \<Longrightarrow> decimal ds < 10 ^ length ds"
  using digits_value_bound [of ds] by (simp add: decimal_def digit_val_def)

lemma fraction_nanos_value:
  assumes "list_all is_ascii_digit ds"
  shows "fraction_nanos ds = fraction_value ds"
proof -
  have nanos: "fraction_nanos ds = decimal (take 9 ds) * 10 ^ (9 - length ds)"
    by (simp add: fraction_nanos_eq decimal_def digit_val_def)
  show ?thesis
  proof (cases "length ds \<le> 9")
    case True
    have "(10 :: int) ^ 9 = 10 ^ (9 - length ds) * 10 ^ length ds"
      using True power_add [of "10 :: int" "9 - length ds" "length ds"] by simp
    then have "fraction_value ds = decimal ds * 10 ^ (9 - length ds) * 10 ^ length ds div 10 ^ length ds"
      by (simp only: fraction_value_def mult.assoc)
    then show ?thesis using True nanos by simp
  next
    case False
    let ?r = "drop 9 ds"
    have r: "list_all is_ascii_digit ?r" using assms by (auto simp: list_all_iff dest: in_set_dropD)
    have "decimal ds = decimal (take 9 ds) * 10 ^ length ?r + decimal ?r"
      using decimal_append [of "take 9 ds" ?r] by simp
    moreover have "decimal ?r div 10 ^ length ?r = 0" using decimal_below [OF r] decimal_nonneg [of ?r] by simp
    ultimately have "decimal ds div 10 ^ length ?r = decimal (take 9 ds)" by simp
    moreover have "(10 :: int) ^ length ds = 10 ^ length ?r * 10 ^ 9"
      using False power_add [of "10 :: int" "length ?r" 9] by simp
    then have "fraction_value ds = decimal ds div 10 ^ length ?r"
      by (simp only: fraction_value_def) (rule div_mult_mult2, simp)
    ultimately show ?thesis using False nanos by simp
  qed
qed

lemma leap_sum_bound:
  fixes p q r a b c y :: int
  assumes "4 * p + a = y" "100 * q + b = y" "400 * r + c = y" "0 \<le> a" "b < 100" "0 \<le> c" "y \<le> 2553"
  shows "365 * y + p - q + r \<le> 932470"
proof -
  have "4 * p \<le> y" "y \<le> 100 * q + 99" "400 * r \<le> y" using assms by linarith+
  then show ?thesis using assms(7) by linarith
qed

lemma year_days_bound: "y \<le> 2553 \<Longrightarrow> year_days y \<le> 932470"
  unfolding year_days_closed
  by (rule leap_sum_bound [OF mult_div_mod_eq mult_div_mod_eq mult_div_mod_eq]) simp_all

lemma days_bound:
  assumes "y \<le> 2553" and "1 \<le> m" and "m \<le> 12" and "d \<le> 31"
  shows "days_from_civil y m d \<le> 213400"
proof -
  have "m \<in> {1, 2, 3, 4, 5, 6, 7, 8, 9, 10, 11, 12}" using assms by (intro month_cases) simp_all
  then have "(153 * (m + 9) + 2) div 5 \<le> 337 \<and> m \<le> 2 \<or> (153 * (m - 3) + 2) div 5 \<le> 275 \<and> 2 < m"
    by (elim insertE emptyE) simp_all
  then show ?thesis
    using year_days_bound [of y] year_days_bound [of "y - 1"] assms(1,4)
    unfolding days_from_civil_eq by auto
qed

lemma epoch_nanos_eq:
  assumes "0 \<le> days" and "days \<le> 213400" and "0 \<le> hour" and "hour \<le> 23" and "0 \<le> minute" and "minute \<le> 59"
    and "0 \<le> sec" and "sec \<le> 60" and "- 86400 < tz" and "tz < 86400" and "0 \<le> fr" and "fr < 10 ^ 9"
  shows "epoch_nanos days hour minute sec tz fr =
    (let total = days * 86400 + hour * 3600 + minute * 60 + sec - tz
     in if total < 0 then None else Some (of_int (total * 1000000000 + fr)))"
proof -
  have "i64_ok (days * 86400)" "i64_ok (days * 86400 + hour * 3600)"
    "i64_ok (days * 86400 + hour * 3600 + minute * 60)"
    "i64_ok (days * 86400 + hour * 3600 + minute * 60 + sec)"
    "i64_ok (days * 86400 + hour * 3600 + minute * 60 + sec - tz)"
    using assms unfolding i64_ok_def by simp_all
  moreover have "total * 1000000000 + fr < 2 ^ 64" "total * 1000000000 < 2 ^ 64"
    if "total = days * 86400 + hour * 3600 + minute * 60 + sec - tz" for total
    using assms that by simp_all
  ultimately show ?thesis
    using assms(11) by (simp add: epoch_nanos_def arith_defs Let_def)
qed

lemma zone_secs_bound: "zone_ok z \<Longrightarrow> - 86400 < zone_secs z \<and> zone_secs z < 86400"
  by (cases z) auto

lemma parse_fraction_text:
  assumes "ts = pre @ time_suffix t" and "length pre = 19" and "civil_ok t"
  shows "parse_fraction ts =
      (length ts - length (zone_bytes (ct_zone t)),
       case ct_fraction t of None \<Rightarrow> 0 | Some ds \<Rightarrow> fraction_nanos ds)"
    and "parse_zone ts (length ts - length (zone_bytes (ct_zone t))) = Some (zone_secs (ct_zone t))"
proof -
  obtain b rest where z: "zone_bytes (ct_zone t) = b # rest" "b \<noteq> DOT" "\<not> is_ascii_digit b"
    by (rule zone_head)
  have nth: "ts ! 19 = time_suffix t ! 0" using assms(1,2) by (simp add: nth_append)
  show "parse_fraction ts = (length ts - length (zone_bytes (ct_zone t)),
       case ct_fraction t of None \<Rightarrow> 0 | Some ds \<Rightarrow> fraction_nanos ds)"
  proof (cases "ct_fraction t")
    case None
    then show ?thesis using assms(1,2) nth z by (simp add: parse_fraction_def time_suffix_def)
  next
    case (Some ds)
    then have "list_all is_ascii_digit ds" using assms(3) by (simp add: civil_ok_def)
    moreover have "drop 20 ts = ds @ b # rest"
      using assms(1,2) Some z(1) by (simp add: time_suffix_def)
    ultimately have "fraction_digits ts = ds"
      using z(3) by (simp add: fraction_digits_def takeWhile_append list_all_iff)
    then show ?thesis
      using assms(1,2) nth Some z(1) by (simp add: parse_fraction_def time_suffix_def Let_def)
  qed
  define p where "p = pre @ (case ct_fraction t of None \<Rightarrow> [] | Some ds \<Rightarrow> DOT # ds)"
  have "ts = p @ zone_bytes (ct_zone t)"
    using assms(1) by (simp add: time_suffix_def p_def)
  then show "parse_zone ts (length ts - length (zone_bytes (ct_zone t))) = Some (zone_secs (ct_zone t))"
    using parse_zone_text [of "ct_zone t" p] assms(3) by (simp add: civil_ok_def)
qed

lemma timestamp_fields:
  assumes ts_def: "ts = timestamp_text sep t" and "civil_ok t"
  shows "parse_4digits_checked ts 0 = Some (ct_year t)" "parse_2digits_checked ts 5 = Some (ct_month t)"
    "parse_2digits_checked ts 8 = Some (ct_day t)" "parse_2digits_checked ts 11 = Some (ct_hour t)"
    "parse_2digits_checked ts 14 = Some (ct_minute t)" "parse_2digits_checked ts 17 = Some (ct_second t)"
proof -
  note ok = assms(2) [unfolded civil_ok_def]
  have d: "ct_day t \<le> 31" using ok by (auto simp: days_in_month_def split: if_splits)
  show "parse_4digits_checked ts 0 = Some (ct_year t)"
    by (rule parse_4digits) (use ok in \<open>simp_all add: ts_def timestamp_text_def\<close>)
  show "parse_2digits_checked ts 5 = Some (ct_month t)"
    by (rule parse_2digits) (use ok in \<open>simp_all add: ts_def timestamp_text_def\<close>)
  show "parse_2digits_checked ts 8 = Some (ct_day t)"
    by (rule parse_2digits) (use ok d in \<open>simp_all add: ts_def timestamp_text_def\<close>)
  show "parse_2digits_checked ts 11 = Some (ct_hour t)"
    by (rule parse_2digits) (use ok in \<open>simp_all add: ts_def timestamp_text_def\<close>)
  show "parse_2digits_checked ts 14 = Some (ct_minute t)"
    by (rule parse_2digits) (use ok in \<open>simp_all add: ts_def timestamp_text_def\<close>)
  show "parse_2digits_checked ts 17 = Some (ct_second t)"
    by (rule parse_2digits) (use ok in \<open>simp_all add: ts_def timestamp_text_def\<close>)
qed

text \<open>
  Property C11. Every RFC 3339 text for a valid civil time up to the year 2553, with any of the
  three separators, any number of fraction digits and any zone, parses to the nanoseconds since
  1970 of the instant it denotes, the fraction rounded down to a whole number of them. The only such
  texts rejected are those with a local date before 1970 and those whose instant is; no
  arithmetic overflows.
\<close>

theorem timestamp_denotes:
  assumes "civil_ok t" and "sep \<in> {84, 116, SP}"
  shows "parse_timestamp_nanos (timestamp_text sep t) =
    (if days_from_civil (ct_year t) (ct_month t) (ct_day t) < 0 \<or> utc_seconds t < 0 then None
     else Some (of_int (utc_seconds t * 1000000000 +
            (case ct_fraction t of None \<Rightarrow> 0 | Some ds \<Rightarrow> fraction_value ds))))"
proof -
  note ok = assms(1) [unfolded civil_ok_def]
  define fr where "fr = (case ct_fraction t of None \<Rightarrow> 0 | Some ds \<Rightarrow> fraction_value ds)"
  have nanos_eq: "(case ct_fraction t of None \<Rightarrow> 0 | Some ds \<Rightarrow> fraction_nanos ds) = fr"
    using ok fraction_nanos_value by (auto simp: fr_def split: option.splits)
  define days where "days = days_from_civil (ct_year t) (ct_month t) (ct_day t)"
  have d: "ct_day t \<le> 31" using ok by (auto simp: days_in_month_def split: if_splits)
  have fr: "0 \<le> fr" "fr < 10 ^ 9"
    using ok fraction_nanos_bound unfolding nanos_eq [symmetric] by (auto split: option.splits)
  have days: "days \<le> 213400" using ok d by (auto simp: days_def intro: days_bound)
  have zone: "- 86400 < zone_secs (ct_zone t)" "zone_secs (ct_zone t) < 86400"
    using ok zone_secs_bound by auto
  have shape: "\<not> length (timestamp_text sep t) < 19"
    "timestamp_text sep t ! 4 = MINUS" "timestamp_text sep t ! 7 = MINUS" "timestamp_text sep t ! 10 = sep"
    "timestamp_text sep t ! 13 = COLON" "timestamp_text sep t ! 16 = COLON"
    by (simp_all add: timestamp_text_def)
  note suffix = parse_fraction_text [OF timestamp_text_def _ assms(1), of sep, unfolded nanos_eq]
  have nanos: "epoch_nanos days (ct_hour t) (ct_minute t) (ct_second t) (zone_secs (ct_zone t)) fr =
      (if utc_seconds t < 0 then None else Some (of_int (utc_seconds t * 1000000000 + fr)))"
    if "0 \<le> days"
    using epoch_nanos_eq [OF that days _ _ _ _ _ _ zone fr, of "ct_hour t" "ct_minute t" "ct_second t"] ok
    by (simp add: utc_seconds_def days_def Let_def)
  show ?thesis
    unfolding parse_timestamp_nanos_def shape timestamp_fields [OF refl assms(1)] Option.bind.simps
      fr_def [symmetric] days_def [symmetric]
    using ok d assms(2) nanos suffix shape(1) by (auto simp: Let_def)
qed

definition sample_time :: civil_time where
  "sample_time =
     \<lparr>ct_year = 2024, ct_month = 1, ct_day = 15, ct_hour = 10, ct_minute = 30, ct_second = 0,
      ct_fraction = Some (bstr ''25''), ct_zone = Offset False 2 30\<rparr>"

theorem timestamp_denotes_witness:
  "parse_timestamp_nanos (bstr ''2024-01-15T10:30:00.25+02:30'') = Some 1705305600250000000"
proof -
  have "civil_ok sample_time" by code_simp
  moreover have "timestamp_text 84 sample_time = bstr ''2024-01-15T10:30:00.25+02:30''" by code_simp
  moreover have "utc_seconds sample_time = 1705305600" by code_simp
  moreover have "days_from_civil (ct_year sample_time) (ct_month sample_time) (ct_day sample_time) = 19737"
    by code_simp
  moreover have "(case ct_fraction sample_time of None \<Rightarrow> 0 | Some ds \<Rightarrow> fraction_value ds) = 250000000"
    by code_simp
  ultimately show ?thesis using timestamp_denotes [of sample_time 84] by simp
qed

end
