(* ===== verification/Otlp_Columns.thy ===== *)
theory Otlp_Columns
  imports Otlp_Wire
begin

text \<open>
  Column resolution of the OTLP sink, \<^verbatim>\<open>ffwd-output/src/otlp_sink/columns.rs\<close> and \<^verbatim>\<open>types.rs\<close>,
  with the names of \<^verbatim>\<open>ffwd-types/src/field_names.rs\<close>: which columns of a batch become the
  timestamp, severity, body and trace context of a log record, which become resource
  attributes and which become attributes, with the bytes and sizes precomputed for them.

  An Arrow array is its list of cells, \<open>None\<close> for a null; a struct array has its validity and its
  named children; array types the code has no case for are \<open>OtherArray\<close> with opaque cells.
  \<^verbatim>\<open>array_value_to_string\<close> of the Arrow crate is the parameter \<open>fmt\<close>, \<open>None\<close> for its errors. A
  \<^verbatim>\<open>f64\<close> is its bit pattern.
\<close>

type_synonym 'a cells = "'a option list"

datatype TimeUnit = Second | Millisecond | Microsecond | Nanosecond

datatype Array =
    Utf8 "bytes cells" | Utf8View "bytes cells" | LargeUtf8 "bytes cells"
  | Int64 "int cells" | UInt64 "u64 cells" | UInt32 "u32 cells" | Float64 "u64 cells"
  | Boolean "bool cells" | Binary "bytes cells" | LargeBinary "bytes cells"
  | Timestamp TimeUnit "int cells" | Struct "bool list" "(bytes \<times> Array) list" | OtherArray "nat cells"

text \<open>Which cells are null.\<close>

fun nulls :: "Array \<Rightarrow> bool list" where
  "nulls (Utf8 c) = map Option.is_none c"
| "nulls (Utf8View c) = map Option.is_none c"
| "nulls (LargeUtf8 c) = map Option.is_none c"
| "nulls (Int64 c) = map Option.is_none c"
| "nulls (UInt64 c) = map Option.is_none c"
| "nulls (UInt32 c) = map Option.is_none c"
| "nulls (Float64 c) = map Option.is_none c"
| "nulls (Boolean c) = map Option.is_none c"
| "nulls (Binary c) = map Option.is_none c"
| "nulls (LargeBinary c) = map Option.is_none c"
| "nulls (Timestamp _ c) = map Option.is_none c"
| "nulls (Struct valid _) = map Not valid"
| "nulls (OtherArray c) = map Option.is_none c"

definition is_null :: "Array \<Rightarrow> nat \<Rightarrow> bool" where
  "is_null arr row \<longleftrightarrow> nulls arr ! row"

definition null_count :: "Array \<Rightarrow> nat" where
  "null_count arr = count_list (nulls arr) True"

subsection \<open>Names\<close>

definition TIMESTAMP_VARIANTS :: "bytes list" where
  "TIMESTAMP_VARIANTS = [bstr ''time'', bstr ''ts'', bstr ''@timestamp'', bstr ''_timestamp'']"

definition SEVERITY_VARIANTS :: "bytes list" where
  "SEVERITY_VARIANTS = [bstr ''severity'', bstr ''log_level'', bstr ''loglevel'', bstr ''lvl'']"

definition BODY_VARIANTS :: "bytes list" where
  "BODY_VARIANTS = [bstr ''message'', bstr ''msg'', bstr ''_msg'']"

definition TRACE_FLAGS_VARIANTS :: "bytes list" where
  "TRACE_FLAGS_VARIANTS = [bstr ''flags'']"

definition DEFAULT_RESOURCE_PREFIX :: bytes where
  "DEFAULT_RESOURCE_PREFIX = bstr ''resource.attributes.''"

definition matches_any :: "bytes \<Rightarrow> bytes \<Rightarrow> bytes list \<Rightarrow> bool" where
  "matches_any name canonical variants \<longleftrightarrow> name = canonical \<or> name \<in> set variants"

definition is_internal_column :: "bytes \<Rightarrow> bool" where
  "is_internal_column name \<longleftrightarrow> name = bstr ''__source_id''"

definition strip_prefix :: "bytes \<Rightarrow> bytes \<Rightarrow> bytes option" where
  "strip_prefix p s = (if take (length p) s = p then Some (drop (length p) s) else None)"

subsection \<open>Resolved columns\<close>

text \<open>The three string arrays read alike, so an \<^verbatim>\<open>OtlpStrCol\<close> is its cells.\<close>

fun resolve_otlp_str_col :: "Array \<Rightarrow> bytes cells option" where
  "resolve_otlp_str_col (Utf8 c) = Some c"
| "resolve_otlp_str_col (Utf8View c) = Some c"
| "resolve_otlp_str_col (LargeUtf8 c) = Some c"
| "resolve_otlp_str_col _ = None"

datatype AttrArray =
    AttrStr "bytes cells" | OtherStr Array | PreformattedStr "bytes cells"
  | AttrBytes "bytes cells" | LargeBytes "bytes cells"
  | AttrInt "int cells" | AttrUInt "u64 cells" | AttrFloat "u64 cells" | AttrBool "bool cells"

datatype FlagsArray = FlagsInt64 "int cells" | FlagsUInt32 "u32 cells" | FlagsUInt64 "u64 cells"

record ColAttr =
  col_name :: bytes
  key_encoding :: bytes
  kv_key_cost :: nat
  short_kv_inner_base :: nat
  has_nulls :: bool
  col_array :: AttrArray

text \<open>The column indices that \<^verbatim>\<open>BatchColumns\<close> keeps beside the arrays are not read by the encoder.\<close>

record BatchColumns =
  timestamp_col :: "bytes cells option"
  timestamp_num_col :: "Array option"
  level_col :: "bytes cells option"
  body_col :: "bytes cells option"
  trace_id_col :: "bytes cells option"
  span_id_col :: "bytes cells option"
  flags_col :: "FlagsArray option"
  severity_num_col :: "int cells option"
  observed_ts_col :: "Array option"
  scope_name_col :: "bytes cells option"
  scope_version_col :: "bytes cells option"
  attribute_cols :: "ColAttr list"
  resource_cols :: "(bytes \<times> AttrArray) list"

definition no_columns :: BatchColumns where
  "no_columns =
     \<lparr>timestamp_col = None, timestamp_num_col = None, level_col = None, body_col = None,
      trace_id_col = None, span_id_col = None, flags_col = None, severity_num_col = None,
      observed_ts_col = None, scope_name_col = None, scope_version_col = None,
      attribute_cols = [], resource_cols = []\<rparr>"

fun is_time_array :: "Array \<Rightarrow> bool" where
  "is_time_array (Int64 _) = True"
| "is_time_array (UInt64 _) = True"
| "is_time_array (Timestamp _ _) = True"
| "is_time_array _ = False"

fun resolve_flags :: "Array \<Rightarrow> FlagsArray option" where
  "resolve_flags (Int64 c) = Some (FlagsInt64 c)"
| "resolve_flags (UInt32 c) = Some (FlagsUInt32 c)"
| "resolve_flags (UInt64 c) = Some (FlagsUInt64 c)"
| "resolve_flags _ = None"

subsection \<open>The first pass\<close>

text \<open>
  One column of the first pass. The state holds the columns found so far, the indices
  excluded from the attributes, and the index of the body column.
\<close>

type_synonym first_pass = "BatchColumns \<times> nat list \<times> nat option"

definition claim_column :: "bytes \<Rightarrow> nat \<times> bytes \<times> Array \<Rightarrow> first_pass \<Rightarrow> first_pass" where
  "claim_column message_field col st =
     (let (idx, name, arr) = col; (cols, excluded, body_idx) = st
      in if is_internal_column name then (cols, excluded @ [idx], body_idx)
         else if matches_any name (bstr ''timestamp'') TIMESTAMP_VARIANTS \<and>
                 timestamp_col cols = None \<and> timestamp_num_col cols = None then
           (case resolve_otlp_str_col arr of
              Some c \<Rightarrow> (cols\<lparr>timestamp_col := Some c\<rparr>, excluded @ [idx], body_idx)
            | None \<Rightarrow>
                if is_time_array arr
                then (cols\<lparr>timestamp_num_col := Some arr\<rparr>, excluded @ [idx], body_idx)
                else st)
         else if matches_any name (bstr ''level'') SEVERITY_VARIANTS then
           (case resolve_otlp_str_col arr of
              Some c \<Rightarrow>
                if level_col cols = None then (cols\<lparr>level_col := Some c\<rparr>, excluded @ [idx], body_idx) else st
            | None \<Rightarrow> st)
         else if name = bstr ''trace_id'' then
           (case resolve_otlp_str_col arr of
              Some c \<Rightarrow>
                if trace_id_col cols = None then (cols\<lparr>trace_id_col := Some c\<rparr>, excluded @ [idx], body_idx) else st
            | None \<Rightarrow> st)
         else if name = bstr ''span_id'' then
           (case resolve_otlp_str_col arr of
              Some c \<Rightarrow>
                if span_id_col cols = None then (cols\<lparr>span_id_col := Some c\<rparr>, excluded @ [idx], body_idx) else st
            | None \<Rightarrow> st)
         else if matches_any name (bstr ''trace_flags'') TRACE_FLAGS_VARIANTS \<and> flags_col cols = None then
           (case resolve_flags arr of
              Some f \<Rightarrow> (cols\<lparr>flags_col := Some f\<rparr>, excluded @ [idx], body_idx)
            | None \<Rightarrow> st)
         else if name = message_field \<or> matches_any name (bstr ''body'') BODY_VARIANTS then
           (case resolve_otlp_str_col arr of
              Some c \<Rightarrow>
                if body_col cols = None \<or> name = bstr ''body''
                then (cols\<lparr>body_col := Some c\<rparr>, excluded, Some idx) else st
            | None \<Rightarrow> st)
         else st)"

subsection \<open>The second pass\<close>

text \<open>\<^verbatim>\<open>format_non_string_attr_value\<close> and \<^verbatim>\<open>preformat_non_string_attr_column\<close>.\<close>

definition format_non_string_attr_value :: "(Array \<Rightarrow> nat \<Rightarrow> bytes option) \<Rightarrow> Array \<Rightarrow> nat \<Rightarrow> bytes option" where
  "format_non_string_attr_value fmt arr row = (if is_null arr row then None else fmt arr row)"

definition preformat_non_string_attr_column :: "(Array \<Rightarrow> nat \<Rightarrow> bytes option) \<Rightarrow> Array \<Rightarrow> bytes cells" where
  "preformat_non_string_attr_column fmt arr =
     map (format_non_string_attr_value fmt arr) [0..<length (nulls arr)]"

text \<open>
  The array of an attribute, where \<open>other\<close> says what becomes of an array that is neither a
  string nor one of the typed ones; \<open>None\<close> where the code skips the column.
\<close>

fun attr_array :: "(Array \<Rightarrow> AttrArray) \<Rightarrow> Array \<Rightarrow> AttrArray option" where
  "attr_array other (Int64 c) = Some (AttrInt c)"
| "attr_array other (UInt64 c) = Some (AttrUInt c)"
| "attr_array other (Float64 c) = Some (AttrFloat c)"
| "attr_array other (Boolean c) = Some (AttrBool c)"
| "attr_array other (Binary c) = Some (AttrBytes c)"
| "attr_array other (LargeBinary c) = Some (LargeBytes c)"
| "attr_array other (Struct _ _) = None"
| "attr_array other arr =
     Some (case resolve_otlp_str_col arr of Some c \<Rightarrow> AttrStr c | None \<Rightarrow> other arr)"

definition col_attr :: "bytes \<Rightarrow> Array \<Rightarrow> AttrArray \<Rightarrow> ColAttr" where
  "col_attr name arr a =
     (let cost = bytes_field_size 1 (length name)
      in \<lparr>col_name = name, key_encoding = encode_bytes_field [] 1 name, kv_key_cost = cost,
          short_kv_inner_base = cost + 4, has_nulls = 0 < null_count arr, col_array = a\<rparr>)"

fun is_int64 :: "Array \<Rightarrow> int cells option" where
  "is_int64 (Int64 c) = Some c"
| "is_int64 _ = None"

text \<open>The end of the second pass for a column: resource attribute, attribute, or dropped.\<close>

definition classify_attribute ::
  "(Array \<Rightarrow> nat \<Rightarrow> bytes option) \<Rightarrow> bytes \<Rightarrow> Array \<Rightarrow> BatchColumns \<Rightarrow> BatchColumns" where
  "classify_attribute fmt name arr cols =
     (case strip_prefix DEFAULT_RESOURCE_PREFIX name of
        Some key \<Rightarrow>
          if key = [] then cols
          else (case attr_array (\<lambda>a. PreformattedStr (preformat_non_string_attr_column fmt a)) arr of
                  None \<Rightarrow> cols
                | Some a \<Rightarrow> cols\<lparr>resource_cols := resource_cols cols @ [(key, a)]\<rparr>)
      | None \<Rightarrow>
          (case attr_array OtherStr arr of
             None \<Rightarrow> cols
           | Some a \<Rightarrow> cols\<lparr>attribute_cols := attribute_cols cols @ [col_attr name arr a]\<rparr>))"

definition classify_column ::
  "(Array \<Rightarrow> nat \<Rightarrow> bytes option) \<Rightarrow> nat list \<Rightarrow> nat \<times> bytes \<times> Array \<Rightarrow> BatchColumns \<Rightarrow> BatchColumns" where
  "classify_column fmt excluded col cols =
     (let (idx, name, arr) = col
      in if idx \<in> set excluded then cols
         else if name = bstr ''severity_number'' \<and> severity_num_col cols = None \<and> is_int64 arr \<noteq> None then
           cols\<lparr>severity_num_col := is_int64 arr\<rparr>
         else if name = bstr ''observed_timestamp'' \<and> observed_ts_col cols = None \<and> is_time_array arr then
           cols\<lparr>observed_ts_col := Some arr\<rparr>
         else if name = bstr ''scope.name'' \<and> scope_name_col cols = None \<and> resolve_otlp_str_col arr \<noteq> None then
           cols\<lparr>scope_name_col := resolve_otlp_str_col arr\<rparr>
         else if name = bstr ''scope.version'' \<and> scope_version_col cols = None \<and> resolve_otlp_str_col arr \<noteq> None then
           cols\<lparr>scope_version_col := resolve_otlp_str_col arr\<rparr>
         else classify_attribute fmt name arr cols)"

definition resolve_batch_columns ::
  "(Array \<Rightarrow> nat \<Rightarrow> bytes option) \<Rightarrow> (bytes \<times> Array) list \<Rightarrow> bytes \<Rightarrow> BatchColumns" where
  "resolve_batch_columns fmt batch message_field =
     (let indexed = zip [0..<length batch] batch;
          (cols, excluded, body_idx) = fold (claim_column message_field) indexed (no_columns, [], None);
          excluded = excluded @ (case body_idx of None \<Rightarrow> [] | Some i \<Rightarrow> [i])
      in fold (classify_column fmt excluded) indexed cols)"

subsection \<open>Reading a row\<close>

fun value_u32 :: "FlagsArray \<Rightarrow> nat \<Rightarrow> u32 option" where
  "value_u32 (FlagsInt64 c) row =
     (case c ! row of None \<Rightarrow> None | Some v \<Rightarrow> if 0 \<le> v \<and> v < 2 ^ 32 then Some (of_int v) else None)"
| "value_u32 (FlagsUInt32 c) row = c ! row"
| "value_u32 (FlagsUInt64 c) row =
     (case c ! row of None \<Rightarrow> None | Some v \<Rightarrow> if v < 2 ^ 32 then Some (ucast v) else None)"

fun time_unit_nanos :: "TimeUnit \<Rightarrow> int" where
  "time_unit_nanos Nanosecond = 1"
| "time_unit_nanos Microsecond = 1000"
| "time_unit_nanos Millisecond = 1000000"
| "time_unit_nanos Second = 1000000000"

text \<open>A negative value, and a product that leaves \<^verbatim>\<open>i64\<close>, give no timestamp.\<close>

fun numeric_timestamp_ns :: "Array \<Rightarrow> nat \<Rightarrow> u64 option" where
  "numeric_timestamp_ns (Int64 c) row =
     (case c ! row of None \<Rightarrow> None | Some v \<Rightarrow> if 0 \<le> v then Some (of_int v) else None)"
| "numeric_timestamp_ns (UInt64 c) row = c ! row"
| "numeric_timestamp_ns (Timestamp unit c) row =
     (case c ! row of
        None \<Rightarrow> None
      | Some v \<Rightarrow>
          (case checked_i64 (v * time_unit_nanos unit) of
             None \<Rightarrow> None
           | Some ns \<Rightarrow> if 0 \<le> ns then Some (of_int ns) else None))"
| "numeric_timestamp_ns _ row = None"

datatype ResourceValueRef = RStr bytes | RBytes bytes | RInt int | RFloat u64 | RBool bool

text \<open>\<^verbatim>\<open>i64::try_from\<close> of a \<^verbatim>\<open>u64\<close>.\<close>

definition i64_of_u64 :: "u64 \<Rightarrow> int option" where
  "i64_of_u64 v = (if uint v < 2 ^ 63 then Some (uint v) else None)"

fun value_ref :: "AttrArray \<Rightarrow> nat \<Rightarrow> ResourceValueRef option" where
  "value_ref (AttrStr c) row = map_option RStr (c ! row)"
| "value_ref (OtherStr _) row = None"
| "value_ref (PreformattedStr c) row = (if row < length c then map_option RStr (c ! row) else None)"
| "value_ref (AttrBytes c) row = map_option RBytes (c ! row)"
| "value_ref (LargeBytes c) row = map_option RBytes (c ! row)"
| "value_ref (AttrInt c) row = map_option RInt (c ! row)"
| "value_ref (AttrUInt c) row = Option.bind (c ! row) (\<lambda>v. map_option RInt (i64_of_u64 v))"
| "value_ref (AttrFloat c) row = map_option RFloat (c ! row)"
| "value_ref (AttrBool c) row = map_option RBool (c ! row)"

end
