(* ===== verification/Conflict_Schema.thy ===== *)
theory Conflict_Schema
  imports Otlp_Columns
begin

text \<open>
  \<^verbatim>\<open>ffwd-arrow/src/conflict_schema.rs\<close>: struct columns that hold a field seen with several types,
  with children named \<^verbatim>\<open>int\<close>, \<^verbatim>\<open>float\<close>, \<^verbatim>\<open>bool\<close> and \<^verbatim>\<open>str\<close>, become one string column before a batch is
  encoded. A batch is its named columns and its row count. The parameter \<open>cast\<close> is
  \<^verbatim>\<open>arrow::compute::cast\<close> to \<^verbatim>\<open>Utf8\<close>, \<open>None\<close> for its errors, on which the code panics.
\<close>

type_synonym utf8_cast = "Array \<Rightarrow> bytes cells option"

datatype ConflictValueSource = SourceInt | SourceFloat | SourceStr | SourceBool

definition pick_conflict_value_source :: "bool \<Rightarrow> bool \<Rightarrow> bool \<Rightarrow> bool \<Rightarrow> ConflictValueSource option" where
  "pick_conflict_value_source int_present float_present bool_present str_present =
     (if int_present then Some SourceInt
      else if float_present then Some SourceFloat
      else if bool_present then Some SourceBool
      else if str_present then Some SourceStr
      else None)"

definition conflict_child_kind :: "bytes \<Rightarrow> ConflictValueSource option" where
  "conflict_child_kind name =
     (if length name = 3 \<and> name ! 0 = 105 \<and> name ! 1 = 110 \<and> name ! 2 = 116 then Some SourceInt
      else if length name = 3 \<and> name ! 0 = 115 \<and> name ! 1 = 116 \<and> name ! 2 = 114 then Some SourceStr
      else if length name = 4 \<and> name ! 0 = 98 \<and> name ! 1 = 111 \<and> name ! 2 = 111 \<and> name ! 3 = 108 then Some SourceBool
      else if length name = 5 \<and> name ! 0 = 102 \<and> name ! 1 = 108 \<and> name ! 2 = 111 \<and> name ! 3 = 97 \<and> name ! 4 = 116
      then Some SourceFloat
      else None)"

definition is_conflict_child_name :: "bytes \<Rightarrow> bool" where
  "is_conflict_child_name name \<longleftrightarrow> conflict_child_kind name \<noteq> None"

definition is_conflict_struct :: "(bytes \<times> Array) list \<Rightarrow> bool" where
  "is_conflict_struct children \<longleftrightarrow> children \<noteq> [] \<and> list_all (\<lambda>(name, _). is_conflict_child_name name) children"

fun is_conflict_column :: "Array \<Rightarrow> bool" where
  "is_conflict_column (Struct _ children) \<longleftrightarrow> is_conflict_struct children"
| "is_conflict_column _ \<longleftrightarrow> False"

definition has_conflict_struct_columns :: "(bytes \<times> Array) list \<Rightarrow> bool" where
  "has_conflict_struct_columns batch \<longleftrightarrow> list_ex (\<lambda>(_, arr). is_conflict_column arr) batch"

subsection \<open>Merging the children\<close>

definition find_child :: "(bytes \<times> Array) list \<Rightarrow> bytes \<Rightarrow> Array option" where
  "find_child children name = map_option snd (find (\<lambda>(n, _). n = name) children)"

text \<open>The cast of an optional child; the outer \<open>None\<close> is the panic of \<^verbatim>\<open>expect\<close>.\<close>

definition cast_child :: "utf8_cast \<Rightarrow> Array option \<Rightarrow> bytes cells option option" where
  "cast_child cast col = (case col of None \<Rightarrow> Some None | Some arr \<Rightarrow> map_option Some (cast arr))"

text \<open>\<^verbatim>\<open>downcast_ref::<BooleanArray>\<close> of an optional child.\<close>

fun boolean_child :: "Array option \<Rightarrow> bool cells option" where
  "boolean_child (Some (Boolean c)) = Some c"
| "boolean_child _ = None"

definition child_cell :: "'a cells option \<Rightarrow> nat \<Rightarrow> 'a option" where
  "child_cell arr i = (case arr of None \<Rightarrow> None | Some c \<Rightarrow> c ! i)"

definition merge_cell ::
  "bytes cells option \<Rightarrow> bytes cells option \<Rightarrow> bool cells option \<Rightarrow> bytes cells option \<Rightarrow> nat \<Rightarrow> bytes option" where
  "merge_cell int_arr float_arr bool_arr str_arr i =
     (case pick_conflict_value_source (child_cell int_arr i \<noteq> None) (child_cell float_arr i \<noteq> None)
             (child_cell bool_arr i \<noteq> None) (child_cell str_arr i \<noteq> None) of
        Some SourceInt \<Rightarrow> child_cell int_arr i
      | Some SourceFloat \<Rightarrow> child_cell float_arr i
      | Some SourceBool \<Rightarrow> map_option (\<lambda>b. if b then bstr ''true'' else bstr ''false'') (child_cell bool_arr i)
      | Some SourceStr \<Rightarrow> child_cell str_arr i
      | None \<Rightarrow> None)"

definition merge_to_utf8 ::
  "utf8_cast \<Rightarrow> Array option \<Rightarrow> Array option \<Rightarrow> Array option \<Rightarrow> Array option \<Rightarrow> nat \<Rightarrow> Array option" where
  "merge_to_utf8 cast int_col float_col bool_col str_col num_rows =
     Option.bind (cast_child cast int_col) (\<lambda>int_arr.
     Option.bind (cast_child cast float_col) (\<lambda>float_arr.
     Option.bind (cast_child cast str_col) (\<lambda>str_arr.
       Some (Utf8 (map (merge_cell int_arr float_arr (boolean_child bool_col) str_arr) [0..<num_rows])))))"

fun normalize_column :: "utf8_cast \<Rightarrow> nat \<Rightarrow> Array \<Rightarrow> Array option" where
  "normalize_column cast num_rows (Struct valid children) =
     (if is_conflict_struct children then
        merge_to_utf8 cast (find_child children (bstr ''int'')) (find_child children (bstr ''float''))
          (find_child children (bstr ''bool'')) (find_child children (bstr ''str'')) num_rows
      else Some (Struct valid children))"
| "normalize_column cast num_rows arr = Some arr"

fun normalize_loop :: "utf8_cast \<Rightarrow> nat \<Rightarrow> (bytes \<times> Array) list \<Rightarrow> (bytes \<times> Array) list option" where
  "normalize_loop cast num_rows [] = Some []"
| "normalize_loop cast num_rows ((name, arr) # rest) =
     Option.bind (normalize_column cast num_rows arr) (\<lambda>arr'.
     Option.bind (normalize_loop cast num_rows rest) (\<lambda>rest'. Some ((name, arr') # rest')))"

text \<open>
  \<^verbatim>\<open>RecordBatch::try_new\<close> rejects columns of different lengths. A merged column has
  \<^verbatim>\<open>num_rows\<close> cells and is nullable, and the others keep their fields, so this is the one check left.
\<close>

definition normalize_conflict_columns ::
  "utf8_cast \<Rightarrow> nat \<Rightarrow> (bytes \<times> Array) list \<Rightarrow> (bytes \<times> Array) list option" where
  "normalize_conflict_columns cast num_rows batch =
     (if \<not> has_conflict_struct_columns batch then Some batch
      else Option.bind (normalize_loop cast num_rows batch) (\<lambda>out.
        if list_all (\<lambda>(_, arr). length (nulls arr) = num_rows) out then Some out else None))"

subsection \<open>Conflict columns become their coalesced text\<close>

text \<open>
  The specification. A conflict column that the builders emit has children of distinct names, each
  of the type its name says. \<open>coalesce\<close> takes the first value that is present.
\<close>

fun typed_child :: "ConflictValueSource \<Rightarrow> Array \<Rightarrow> bool" where
  "typed_child SourceInt (Int64 _) = True"
| "typed_child SourceFloat (Float64 _) = True"
| "typed_child SourceStr (Utf8 _) = True"
| "typed_child SourceStr (Utf8View _) = True"
| "typed_child SourceBool (Boolean _) = True"
| "typed_child _ _ = False"

definition child_ok :: "nat \<Rightarrow> bytes \<times> Array \<Rightarrow> bool" where
  "child_ok n child \<longleftrightarrow> length (nulls (snd child)) = n \<and>
     (case conflict_child_kind (fst child) of None \<Rightarrow> False | Some k \<Rightarrow> typed_child k (snd child))"

fun conflict_column_ok :: "nat \<Rightarrow> Array \<Rightarrow> bool" where
  "conflict_column_ok n (Struct valid children) \<longleftrightarrow> length valid = n \<and>
     (is_conflict_struct children \<longrightarrow> distinct (map fst children) \<and> list_all (child_ok n) children)"
| "conflict_column_ok n arr \<longleftrightarrow> length (nulls arr) = n"

fun coalesce :: "'a option list \<Rightarrow> 'a option" where
  "coalesce [] = None"
| "coalesce (Some x # xs) = Some x"
| "coalesce (None # xs) = coalesce xs"

text \<open>The text of the child \<open>name\<close> in a row: its cast, or \<^verbatim>\<open>true\<close> and \<^verbatim>\<open>false\<close> for booleans.\<close>

definition child_text :: "utf8_cast \<Rightarrow> (bytes \<times> Array) list \<Rightarrow> nat \<Rightarrow> bytes \<Rightarrow> bytes option" where
  "child_text cast children row name =
     (case find_child children name of
        None \<Rightarrow> None
      | Some (Boolean c) \<Rightarrow> map_option (\<lambda>b. if b then bstr ''true'' else bstr ''false'') (c ! row)
      | Some arr \<Rightarrow> the (cast arr) ! row)"

definition conflict_child_names :: "bytes list" where
  "conflict_child_names = [bstr ''int'', bstr ''float'', bstr ''bool'', bstr ''str'']"

fun flattens :: "utf8_cast \<Rightarrow> nat \<Rightarrow> Array \<Rightarrow> Array \<Rightarrow> bool" where
  "flattens cast n (Struct valid children) arr' \<longleftrightarrow>
     (if is_conflict_struct children then
        (\<exists>c. arr' = Utf8 c \<and> length c = n \<and>
          (\<forall>row < n. c ! row = coalesce (map (child_text cast children row) conflict_child_names) \<and>
                     (c ! row = None \<longleftrightarrow> (\<forall>child \<in> set children. is_null (snd child) row))))
      else arr' = Struct valid children)"
| "flattens cast n arr arr' \<longleftrightarrow> arr' = arr"

text \<open>
  What the code relies on: the casts of integers, floats and strings to \<^verbatim>\<open>Utf8\<close> are supported and
  keep the nulls.
\<close>

definition casts_to_utf8 :: "utf8_cast \<Rightarrow> bool" where
  "casts_to_utf8 cast \<longleftrightarrow>
     (\<forall>k arr. typed_child k arr \<longrightarrow> k \<noteq> SourceBool \<longrightarrow> (\<exists>c. cast arr = Some c \<and> map Option.is_none c = nulls arr))"

lemma conflict_names:
  "conflict_child_kind (bstr ''int'') = Some SourceInt" "conflict_child_kind (bstr ''float'') = Some SourceFloat"
  "conflict_child_kind (bstr ''bool'') = Some SourceBool" "conflict_child_kind (bstr ''str'') = Some SourceStr"
  by code_simp+

lemma conflict_child_kind_name:
  "conflict_child_kind name = Some k \<Longrightarrow>
     name = (case k of SourceInt \<Rightarrow> bstr ''int'' | SourceFloat \<Rightarrow> bstr ''float'' | SourceBool \<Rightarrow> bstr ''bool''
             | SourceStr \<Rightarrow> bstr ''str'')"
proof -
  have "bstr ''int'' = [105, 110, 116]" "bstr ''float'' = [102, 108, 111, 97, 116]" "bstr ''bool'' = [98, 111, 111, 108]"
    "bstr ''str'' = [115, 116, 114]" by code_simp+
  then show "conflict_child_kind name = Some k \<Longrightarrow> ?thesis"
    by (auto simp: conflict_child_kind_def list_eq_iff_nth_eq less_Suc_eq numeral_eq_Suc split: if_splits)
qed

lemma find_child_in:
  "find_child children name = Some arr \<Longrightarrow> (name, arr) \<in> set children"
  by (auto simp: find_child_def find_Some_iff in_set_conv_nth)

lemma find_child_distinct:
  "distinct (map fst children) \<Longrightarrow> (name, arr) \<in> set children \<Longrightarrow> find_child children name = Some arr"
  by (induction children) (auto simp: find_child_def image_iff split: if_splits)

lemma merge_cell_coalesce:
  "merge_cell int_arr float_arr bool_arr str_arr i =
     coalesce [child_cell int_arr i, child_cell float_arr i,
       map_option (\<lambda>b. if b then bstr ''true'' else bstr ''false'') (child_cell bool_arr i), child_cell str_arr i]"
  by (cases "child_cell int_arr i"; cases "child_cell float_arr i"; cases "child_cell bool_arr i"; cases "child_cell str_arr i")
    (simp_all add: merge_cell_def pick_conflict_value_source_def)

lemma coalesce_None: "coalesce xs = None \<longleftrightarrow> (\<forall>x\<in>set xs. x = None)"
  by (induction xs rule: coalesce.induct) simp_all

lemma child_typed:
  assumes "list_all (child_ok n) children" and "find_child children name = Some arr"
    and "conflict_child_kind name = Some k"
  shows "typed_child k arr" and "length (nulls arr) = n"
  using assms find_child_in [OF assms(2)] by (auto simp: list_all_iff child_ok_def)

text \<open>A child other than \<^verbatim>\<open>bool\<close> casts, and its cells are its texts.\<close>

lemma cast_child_text:
  assumes "casts_to_utf8 cast" and "list_all (child_ok n) children"
    and "conflict_child_kind name = Some k" and "k \<noteq> SourceBool"
  obtains arr where "cast_child cast (find_child children name) = Some arr"
    and "\<And>row. child_cell arr row = child_text cast children row name"
proof (cases "find_child children name")
  case None
  then show thesis using that [of None] by (simp add: cast_child_def child_cell_def child_text_def)
next
  case (Some arr)
  have typed: "typed_child k arr" using child_typed(1) [OF assms(2) Some assms(3)] .
  then obtain c where c: "cast arr = Some c" using assms(1,4) unfolding casts_to_utf8_def by blast
  have "\<not> (\<exists>b. arr = Boolean b)" using typed assms(4) by (cases k) auto
  then have "child_text cast children row name = c ! row" for row
    using Some c by (cases arr) (simp_all add: child_text_def)
  then show thesis using that [of "Some c"] Some c by (simp add: cast_child_def child_cell_def)
qed

lemma bool_child_text:
  assumes "list_all (child_ok n) children"
  shows "map_option (\<lambda>b. if b then bstr ''true'' else bstr ''false'')
      (child_cell (boolean_child (find_child children (bstr ''bool''))) row) = child_text cast children row (bstr ''bool'')"
proof (cases "find_child children (bstr ''bool'')")
  case None
  then show ?thesis by (simp add: child_cell_def child_text_def)
next
  case (Some arr)
  then obtain c where "arr = Boolean c"
    using child_typed(1) [OF assms Some conflict_names(3)] by (cases arr) auto
  then show ?thesis using Some by (simp add: child_cell_def child_text_def)
qed

text \<open>A text is missing exactly where the child is null.\<close>

lemma child_text_null:
  assumes "casts_to_utf8 cast" and "list_all (child_ok n) children" and "find_child children name = Some arr"
    and "conflict_child_kind name = Some k" and "row < n"
  shows "child_text cast children row name = None \<longleftrightarrow> is_null arr row"
proof (cases "k = SourceBool")
  case True
  then obtain c where c: "arr = Boolean c" using child_typed(1) [OF assms(2-4)] by (cases arr) auto
  then show ?thesis
    using assms(3,5) child_typed(2) [OF assms(2-4)] by (simp add: child_text_def is_null_def Option.is_none_def)
next
  case False
  have typed: "typed_child k arr" using child_typed(1) [OF assms(2-4)] .
  then obtain c where c: "cast arr = Some c" "map Option.is_none c = nulls arr"
    using False assms(1) unfolding casts_to_utf8_def by blast
  have "length c = n" using child_typed(2) [OF assms(2-4)] arg_cong [OF c(2), of length] by simp
  have "\<not> (\<exists>b. arr = Boolean b)" using typed False by (cases k) auto
  then have "child_text cast children row name = c ! row"
    using assms(3) c(1) by (cases arr) (simp_all add: child_text_def)
  then show ?thesis
    using assms(5) \<open>length c = n\<close> by (simp add: is_null_def flip: c(2)) (simp add: Option.is_none_def)
qed

lemma conflict_child_names_iff: "name \<in> set conflict_child_names \<longleftrightarrow> is_conflict_child_name name"
  using conflict_child_kind_name [of name]
  by (auto simp: conflict_child_names_def is_conflict_child_name_def conflict_names split: ConflictValueSource.splits)

lemma coalesced_null:
  assumes "casts_to_utf8 cast" and "list_all (child_ok n) children" and "distinct (map fst children)"
    and "is_conflict_struct children" and "row < n"
  shows "coalesce (map (child_text cast children row) conflict_child_names) = None \<longleftrightarrow>
    (\<forall>child \<in> set children. is_null (snd child) row)"
proof
  assume none: "coalesce (map (child_text cast children row) conflict_child_names) = None"
  show "\<forall>child \<in> set children. is_null (snd child) row"
  proof
    fix child
    assume "child \<in> set children"
    then have child: "(fst child, snd child) \<in> set children" by simp
    then obtain k where k: "conflict_child_kind (fst child) = Some k"
      using assms(2) by (auto simp: list_all_iff child_ok_def split: option.splits)
    then have "fst child \<in> set conflict_child_names" by (simp add: conflict_child_names_iff is_conflict_child_name_def)
    then show "is_null (snd child) row"
      using none child_text_null [OF assms(1,2) find_child_distinct [OF assms(3) child] k assms(5)]
      by (simp add: coalesce_None)
  qed
next
  assume null: "\<forall>child \<in> set children. is_null (snd child) row"
  have "child_text cast children row name = None" if name: "name \<in> set conflict_child_names" for name
  proof (cases "find_child children name")
    case (Some arr)
    obtain k where "conflict_child_kind name = Some k"
      using name by (auto simp: conflict_child_names_iff is_conflict_child_name_def)
    then show ?thesis using child_text_null [OF assms(1,2) Some _ assms(5)] null find_child_in [OF Some] by fastforce
  qed (simp add: child_text_def)
  then show "coalesce (map (child_text cast children row) conflict_child_names) = None"
    by (simp add: coalesce_None)
qed

lemma conflict_column_merges:
  assumes "casts_to_utf8 cast" and "conflict_column_ok n (Struct valid children)" and "is_conflict_struct children"
  obtains c where "normalize_column cast n (Struct valid children) = Some (Utf8 c)" and "length c = n"
    and "\<And>row. row < n \<Longrightarrow> c ! row = coalesce (map (child_text cast children row) conflict_child_names)"
proof -
  have ok: "list_all (child_ok n) children" using assms(2,3) by simp
  obtain i where i: "cast_child cast (find_child children (bstr ''int'')) = Some i"
    "\<And>row. child_cell i row = child_text cast children row (bstr ''int'')"
    using cast_child_text [OF assms(1) ok conflict_names(1)] by blast
  obtain f where f: "cast_child cast (find_child children (bstr ''float'')) = Some f"
    "\<And>row. child_cell f row = child_text cast children row (bstr ''float'')"
    using cast_child_text [OF assms(1) ok conflict_names(2)] by blast
  obtain s where s: "cast_child cast (find_child children (bstr ''str'')) = Some s"
    "\<And>row. child_cell s row = child_text cast children row (bstr ''str'')"
    using cast_child_text [OF assms(1) ok conflict_names(4)] by blast
  let ?c = "map (merge_cell i f (boolean_child (find_child children (bstr ''bool''))) s) [0..<n]"
  have "normalize_column cast n (Struct valid children) = Some (Utf8 ?c)"
    using assms(3) i(1) f(1) s(1) by (simp add: merge_to_utf8_def)
  moreover have "?c ! row = coalesce (map (child_text cast children row) conflict_child_names)" if "row < n" for row
    using that by (simp add: merge_cell_coalesce i(2) f(2) s(2) bool_child_text [OF ok, where cast = cast] conflict_child_names_def)
  ultimately show thesis using that by simp
qed

lemma normalize_column_flattens:
  assumes "casts_to_utf8 cast" and "conflict_column_ok n arr"
  obtains arr' where "normalize_column cast n arr = Some arr'" and "flattens cast n arr arr'"
    and "length (nulls arr') = n" and "\<not> is_conflict_column arr'"
proof (cases "is_conflict_column arr")
  case True
  then obtain valid children where arr: "arr = Struct valid children" "is_conflict_struct children" by (cases arr) auto
  obtain c where c: "normalize_column cast n arr = Some (Utf8 c)" "length c = n"
    "\<And>row. row < n \<Longrightarrow> c ! row = coalesce (map (child_text cast children row) conflict_child_names)"
    using conflict_column_merges [OF assms(1) assms(2) [unfolded arr(1)] arr(2)] unfolding arr(1) by blast
  have "flattens cast n arr (Utf8 c)"
    using assms(2) arr c coalesced_null [OF assms(1), of n children] by simp
  then show thesis using that c(1,2) by simp
next
  case False
  then show thesis using that [of arr] assms(2) by (cases arr) simp_all
qed

lemma normalize_loop_flattens:
  assumes "casts_to_utf8 cast" and "list_all (\<lambda>(_, arr). conflict_column_ok n arr) batch"
  shows "\<exists>out. normalize_loop cast n batch = Some out \<and>
    list_all2 (\<lambda>(name, arr) (name', arr'). name' = name \<and> flattens cast n arr arr') batch out \<and>
    list_all (\<lambda>(_, arr). length (nulls arr) = n \<and> \<not> is_conflict_column arr) out"
  using assms(2)
proof (induction batch)
  case (Cons col batch)
  obtain name arr where col: "col = (name, arr)" by (cases col)
  with Cons.prems have "conflict_column_ok n arr" by simp
  then obtain arr' where arr': "normalize_column cast n arr = Some arr'" "flattens cast n arr arr'"
    "length (nulls arr') = n" "\<not> is_conflict_column arr'" using normalize_column_flattens [OF assms(1)] by blast
  obtain out where out: "normalize_loop cast n batch = Some out"
    "list_all2 (\<lambda>(name, arr) (name', arr'). name' = name \<and> flattens cast n arr arr') batch out"
    "list_all (\<lambda>(_, arr). length (nulls arr) = n \<and> \<not> is_conflict_column arr) out"
    using Cons by auto
  then show ?case using col arr' by (intro exI [of _ "(name, arr') # out"]) simp
qed simp

lemma no_conflict_flattens: "\<not> is_conflict_column arr \<Longrightarrow> flattens cast n arr arr"
  by (cases arr) simp_all

text \<open>
  Property C12. Normalizing a batch whose conflict columns have children of the types their names
  say never panics. Every conflict column becomes one string column of the same name, in the same
  place, whose cell is the text of the first child present in the order int, float, bool, str, and is
  null exactly where all children are null, so no value is lost; every other column is
  kept. No conflict column is left, and normalizing again changes nothing.
\<close>

theorem normalize_flattens:
  assumes "casts_to_utf8 cast" and "list_all (\<lambda>(_, arr). conflict_column_ok n arr) batch"
  shows "\<exists>out. normalize_conflict_columns cast n batch = Some out \<and>
    list_all2 (\<lambda>(name, arr) (name', arr'). name' = name \<and> flattens cast n arr arr') batch out \<and>
    \<not> has_conflict_struct_columns out \<and> normalize_conflict_columns cast n out = Some out"
proof (cases "has_conflict_struct_columns batch")
  case True
  obtain out where out: "normalize_loop cast n batch = Some out"
    "list_all2 (\<lambda>(name, arr) (name', arr'). name' = name \<and> flattens cast n arr arr') batch out"
    "list_all (\<lambda>(_, arr). length (nulls arr) = n \<and> \<not> is_conflict_column arr) out"
    using normalize_loop_flattens [OF assms] by blast
  then have "list_all (\<lambda>(_, arr). length (nulls arr) = n) out" "\<not> has_conflict_struct_columns out"
    by (auto simp: list_all_iff list_ex_iff has_conflict_struct_columns_def)
  then show ?thesis using True out by (intro exI [of _ out]) (simp add: normalize_conflict_columns_def)
next
  case False
  then have "list_all2 (\<lambda>(name, arr) (name', arr'). name' = name \<and> flattens cast n arr arr') batch batch"
    by (auto simp: list.rel_refl_strong has_conflict_struct_columns_def list_ex_iff no_conflict_flattens
        intro!: list.rel_refl_strong)
  then show ?thesis using False by (intro exI [of _ batch]) (simp add: normalize_conflict_columns_def)
qed

text \<open>A cast that writes integers in unary and floats as one byte, and copies strings.\<close>

fun unary_cast :: utf8_cast where
  "unary_cast (Int64 c) = Some (map (map_option (\<lambda>v. replicate (nat v) 73)) c)"
| "unary_cast (Float64 c) = Some (map (map_option (\<lambda>_. [70])) c)"
| "unary_cast (Utf8 c) = Some c"
| "unary_cast (Utf8View c) = Some c"
| "unary_cast _ = None"

definition conflict_batch :: "(bytes \<times> Array) list" where
  "conflict_batch =
     [(bstr ''status'', Struct [True, True, True, False]
        [(bstr ''str'', Utf8View [Some (bstr ''up''), None, None, None]),
         (bstr ''int'', Int64 [None, Some 2, None, None]),
         (bstr ''bool'', Boolean [None, None, Some True, None])]),
      (bstr ''host'', Utf8 [None, None, None, Some (bstr ''a'')])]"

theorem normalize_flattens_witness:
  "casts_to_utf8 unary_cast \<and> list_all (\<lambda>(_, arr). conflict_column_ok 4 arr) conflict_batch \<and>
   normalize_conflict_columns unary_cast 4 conflict_batch =
     Some [(bstr ''status'', Utf8 [Some (bstr ''up''), Some [73, 73], Some (bstr ''true''), None]),
           (bstr ''host'', Utf8 [None, None, None, Some (bstr ''a'')])] \<and>
   \<not> has_conflict_struct_columns (the (normalize_conflict_columns unary_cast 4 conflict_batch))"
proof -
  have cast: "casts_to_utf8 unary_cast"
  proof -
    have "\<exists>c. unary_cast arr = Some c \<and> map Option.is_none c = nulls arr"
      if "typed_child k arr" "k \<noteq> SourceBool" for k arr
      using that by (cases k; cases arr) (auto simp: Option.is_none_def)
    then show ?thesis by (simp add: casts_to_utf8_def)
  qed
  have ok: "list_all (\<lambda>(_, arr). conflict_column_ok 4 arr) conflict_batch" by code_simp
  have out: "normalize_conflict_columns unary_cast 4 conflict_batch =
     Some [(bstr ''status'', Utf8 [Some (bstr ''up''), Some [73, 73], Some (bstr ''true''), None]),
           (bstr ''host'', Utf8 [None, None, None, Some (bstr ''a'')])]" by code_simp
  show ?thesis using normalize_flattens [OF cast ok] cast ok out by auto
qed

end
