(* ===== verification/Otlp_Encode.thy ===== *)
theory Otlp_Encode
  imports Otlp_Fields Conflict_Schema
begin

text \<open>
  The encoder of the OTLP sink, \<^verbatim>\<open>ffwd-output/src/otlp_sink/encode.rs\<close>: key-value pairs, log
  records from resolved columns, and the request with one \<^verbatim>\<open>ResourceLogs\<close> per group of rows.
  The nested lengths are computed before the bytes are written, as in the code. The parameter
  \<open>fmt\<close> is the Arrow formatter of \<open>Otlp_Columns\<close>.
\<close>

record BatchMetadata =
  resource_attrs :: "(bytes \<times> bytes) list"
  observed_time_ns :: u64

subsection \<open>Key-value pairs\<close>

text \<open>The start common to all: the pair's tag and length, the key, the value's tag and length.\<close>

definition open_key_value :: "bytes \<Rightarrow> u32 \<Rightarrow> nat \<Rightarrow> bytes \<Rightarrow> nat \<Rightarrow> bytes" where
  "open_key_value buf field_number kv_inner key_bytes anyvalue_inner =
     (let buf = encode_tag buf field_number 2;
          buf = encode_varint buf (of_nat kv_inner);
          buf = buf @ key_bytes;
          buf = encode_tag buf 2 2
      in encode_varint buf (of_nat anyvalue_inner))"

definition open_named_value :: "bytes \<Rightarrow> u32 \<Rightarrow> bytes \<Rightarrow> nat \<Rightarrow> bytes" where
  "open_named_value buf field_number key anyvalue_inner =
     open_key_value buf field_number
       (bytes_field_size 1 (length key) + bytes_field_size 2 anyvalue_inner)
       (encode_bytes_field [] 1 key) anyvalue_inner"

definition encode_key_value_string :: "bytes \<Rightarrow> u32 \<Rightarrow> bytes \<Rightarrow> bytes \<Rightarrow> bytes" where
  "encode_key_value_string buf field_number key v =
     encode_bytes_field (open_named_value buf field_number key (bytes_field_size 1 (length v))) 1 v"

definition encode_key_value_bytes :: "bytes \<Rightarrow> u32 \<Rightarrow> bytes \<Rightarrow> bytes \<Rightarrow> bytes" where
  "encode_key_value_bytes buf field_number key v =
     encode_bytes_field (open_named_value buf field_number key (bytes_field_size 7 (length v))) 7 v"

definition encode_key_value_int :: "bytes \<Rightarrow> u32 \<Rightarrow> bytes \<Rightarrow> int \<Rightarrow> bytes" where
  "encode_key_value_int buf field_number key v =
     encode_varint_field (open_named_value buf field_number key (1 + varint_len (of_int v))) 3 (of_int v)"

definition encode_key_value_double :: "bytes \<Rightarrow> u32 \<Rightarrow> bytes \<Rightarrow> u64 \<Rightarrow> bytes" where
  "encode_key_value_double buf field_number key v =
     encode_fixed64 (open_named_value buf field_number key (1 + 8)) 4 v"

definition encode_key_value_bool :: "bytes \<Rightarrow> u32 \<Rightarrow> bytes \<Rightarrow> bool \<Rightarrow> bytes" where
  "encode_key_value_bool buf field_number key v =
     encode_varint_field (open_named_value buf field_number key (1 + 1)) 2 (if v then 1 else 0)"

subsection \<open>Attributes\<close>

definition encode_str_value :: "bytes \<Rightarrow> u32 \<Rightarrow> ColAttr \<Rightarrow> bytes \<Rightarrow> bytes" where
  "encode_str_value buf field_number col v =
     (if length v \<le> 125 then
        encode_bytes_field
          (open_key_value buf field_number (short_kv_inner_base col + length v) (key_encoding col) (2 + length v)) 1 v
      else
        (let anyvalue_inner = bytes_field_size 1 (length v)
         in encode_bytes_field
              (open_key_value buf field_number (kv_key_cost col + bytes_field_size 2 anyvalue_inner)
                 (key_encoding col) anyvalue_inner) 1 v))"

definition open_col :: "bytes \<Rightarrow> u32 \<Rightarrow> ColAttr \<Rightarrow> nat \<Rightarrow> bytes" where
  "open_col buf field_number col anyvalue_inner =
     open_key_value buf field_number (kv_key_cost col + bytes_field_size 2 anyvalue_inner)
       (key_encoding col) anyvalue_inner"

text \<open>
  The null check is skipped for a column without nulls; \<open>the\<close> is then the cell's value.
\<close>

abbreviation skip_null :: "ColAttr \<Rightarrow> 'a cells \<Rightarrow> nat \<Rightarrow> bool" where
  "skip_null col c row \<equiv> has_nulls col \<and> c ! row = None"

definition encode_int_attr :: "bytes \<Rightarrow> u32 \<Rightarrow> ColAttr \<Rightarrow> int \<Rightarrow> bytes" where
  "encode_int_attr buf field_number col v =
     encode_varint_field (open_col buf field_number col (1 + varint_len (of_int v))) 3 (of_int v)"

definition encode_bytes_attr :: "bytes \<Rightarrow> u32 \<Rightarrow> ColAttr \<Rightarrow> bytes \<Rightarrow> bytes" where
  "encode_bytes_attr buf field_number col v =
     encode_bytes_field (open_col buf field_number col (bytes_field_size 7 (length v))) 7 v"

definition encode_col_attr ::
  "(Array \<Rightarrow> nat \<Rightarrow> bytes option) \<Rightarrow> bytes \<Rightarrow> u32 \<Rightarrow> ColAttr \<Rightarrow> nat \<Rightarrow> bytes" where
  "encode_col_attr fmt buf field_number col row =
     (case col_array col of
        AttrInt c \<Rightarrow> if skip_null col c row then buf else encode_int_attr buf field_number col (the (c ! row))
      | AttrUInt c \<Rightarrow>
          if skip_null col c row then buf
          else (case i64_of_u64 (the (c ! row)) of
                  None \<Rightarrow> buf
                | Some v \<Rightarrow> encode_int_attr buf field_number col v)
      | AttrFloat c \<Rightarrow>
          if skip_null col c row then buf
          else encode_fixed64 (open_col buf field_number col (1 + 8)) 4 (the (c ! row))
      | AttrBool c \<Rightarrow>
          if skip_null col c row then buf
          else encode_varint_field (open_col buf field_number col (1 + 1)) 2 (if the (c ! row) then 1 else 0)
      | AttrStr c \<Rightarrow>
          if skip_null col c row then buf else encode_str_value buf field_number col (the (c ! row))
      | PreformattedStr c \<Rightarrow>
          (case (if row < length c then c ! row else None) of
             None \<Rightarrow> buf | Some v \<Rightarrow> encode_str_value buf field_number col v)
      | AttrBytes c \<Rightarrow> if skip_null col c row then buf else encode_bytes_attr buf field_number col (the (c ! row))
      | LargeBytes c \<Rightarrow> if skip_null col c row then buf else encode_bytes_attr buf field_number col (the (c ! row))
      | OtherStr arr \<Rightarrow>
          (case format_non_string_attr_value fmt arr row of
             None \<Rightarrow> buf | Some v \<Rightarrow> encode_str_value buf field_number col v))"

subsection \<open>Log records\<close>

definition row_timestamp :: "BatchColumns \<Rightarrow> nat \<Rightarrow> u64 option" where
  "row_timestamp columns row =
     (case timestamp_num_col columns of
        Some arr \<Rightarrow> numeric_timestamp_ns arr row
      | None \<Rightarrow>
          (case timestamp_col columns of
             Some c \<Rightarrow> Option.bind (c ! row) parse_timestamp_nanos
           | None \<Rightarrow> None))"

definition row_severity :: "BatchColumns \<Rightarrow> nat \<Rightarrow> Severity \<times> bytes" where
  "row_severity columns row =
     (case level_col columns of
        Some c \<Rightarrow> (case c ! row of None \<Rightarrow> (Unspecified, []) | Some s \<Rightarrow> parse_severity s)
      | None \<Rightarrow> (Unspecified, []))"

text \<open>\<^verbatim>\<open>u64::try_from(arr.value(row)).unwrap_or(0)\<close> for a severity column.\<close>

definition row_severity_number :: "BatchColumns \<Rightarrow> nat \<Rightarrow> u64" where
  "row_severity_number columns row =
     (let code = severity_code (fst (row_severity columns row))
      in case severity_num_col columns of
           Some c \<Rightarrow> (case c ! row of None \<Rightarrow> code | Some v \<Rightarrow> if 0 \<le> v then of_int v else 0)
         | None \<Rightarrow> code)"

definition row_body :: "BatchColumns \<Rightarrow> nat \<Rightarrow> bytes" where
  "row_body columns row =
     (case body_col columns of Some c \<Rightarrow> (case c ! row of None \<Rightarrow> [] | Some s \<Rightarrow> s) | None \<Rightarrow> [])"

text \<open>A hexadecimal identifier, decoded into a buffer of \<open>n\<close> zero bytes, when it is valid.\<close>

definition row_id :: "bytes cells option \<Rightarrow> nat \<Rightarrow> nat \<Rightarrow> bytes option" where
  "row_id col n row =
     (case col of
        None \<Rightarrow> None
      | Some c \<Rightarrow>
          (case c ! row of
             None \<Rightarrow> None
           | Some hex \<Rightarrow> (case hex_decode hex (replicate n 0) of (ok, out) \<Rightarrow> if ok then Some out else None)))"

definition row_observed :: "BatchColumns \<Rightarrow> BatchMetadata \<Rightarrow> nat \<Rightarrow> u64" where
  "row_observed columns metadata row =
     (case Option.bind (observed_ts_col columns) (\<lambda>arr. numeric_timestamp_ns arr row) of
        None \<Rightarrow> observed_time_ns metadata | Some v \<Rightarrow> v)"

definition encode_body :: "bytes \<Rightarrow> bytes \<Rightarrow> bytes" where
  "encode_body buf body =
     (let inner = bytes_field_size 1 (length body);
          buf = encode_tag buf 5 2;
          buf = encode_varint buf (of_nat inner)
      in encode_bytes_field buf 1 body)"

definition encode_row_as_log_record ::
  "(Array \<Rightarrow> nat \<Rightarrow> bytes option) \<Rightarrow> BatchColumns \<Rightarrow> nat \<Rightarrow> BatchMetadata \<Rightarrow> bytes \<Rightarrow> bytes" where
  "encode_row_as_log_record fmt columns row metadata buf =
     (let text = snd (row_severity columns row);
          number = row_severity_number columns row;
          body = row_body columns row;
          buf = (case row_timestamp columns row of None \<Rightarrow> buf | Some ts \<Rightarrow> encode_fixed64 buf 1 ts);
          buf = (if 0 < number then encode_varint_field buf 2 number else buf);
          buf = (if text \<noteq> [] then encode_bytes_field buf 3 text else buf);
          buf = (if body \<noteq> [] then encode_body buf body else buf);
          buf = fold (\<lambda>col buf. encode_col_attr fmt buf 6 col row) (attribute_cols columns) buf;
          buf = (case Option.bind (flags_col columns) (\<lambda>arr. value_u32 arr row) of
                   None \<Rightarrow> buf | Some flags \<Rightarrow> encode_fixed32 buf 8 flags);
          buf = (case row_id (trace_id_col columns) 16 row of None \<Rightarrow> buf | Some i \<Rightarrow> encode_bytes_field buf 9 i);
          buf = (case row_id (span_id_col columns) 8 row of None \<Rightarrow> buf | Some i \<Rightarrow> encode_bytes_field buf 10 i)
      in encode_fixed64 buf 11 (row_observed columns metadata row))"

subsection \<open>The request\<close>

type_synonym scope_key = "bytes option \<times> bytes option"
type_synonym group_key = "ResourceValueRef option list \<times> scope_key"
type_synonym group = "group_key \<times> (nat \<times> nat) list"

definition row_key :: "BatchColumns \<Rightarrow> nat \<Rightarrow> group_key" where
  "row_key columns row =
     (map (\<lambda>(_, a). value_ref a row) (resource_cols columns),
      Option.bind (scope_name_col columns) (\<lambda>c. c ! row), Option.bind (scope_version_col columns) (\<lambda>c. c ! row))"

text \<open>
  \<^verbatim>\<open>group_index_by_key\<close> maps a key to the place of its group, which is where the key stands in
  \<^verbatim>\<open>grouped_ranges\<close>; a new key opens a group at the end.
\<close>

fun add_range :: "group_key \<Rightarrow> nat \<times> nat \<Rightarrow> group list \<Rightarrow> group list" where
  "add_range key r [] = [(key, [r])]"
| "add_range key r ((k, rs) # gs) = (if k = key then (k, rs @ [r]) # gs else (k, rs) # add_range key r gs)"

definition group_row ::
  "(Array \<Rightarrow> nat \<Rightarrow> bytes option) \<Rightarrow> BatchColumns \<Rightarrow> BatchMetadata \<Rightarrow> nat \<Rightarrow> bytes \<times> group list \<Rightarrow> bytes \<times> group list" where
  "group_row fmt columns metadata row st =
     (let (records_buf, groups) = st;
          records_buf' = encode_row_as_log_record fmt columns row metadata records_buf
      in (records_buf', add_range (row_key columns row) (length records_buf, length records_buf') groups))"

text \<open>Without resource and scope columns all rows go to one group, and no key is computed.\<close>

definition append_row ::
  "(Array \<Rightarrow> nat \<Rightarrow> bytes option) \<Rightarrow> BatchColumns \<Rightarrow> BatchMetadata \<Rightarrow> nat \<Rightarrow>
     bytes \<times> (nat \<times> nat) list \<Rightarrow> bytes \<times> (nat \<times> nat) list" where
  "append_row fmt columns metadata row st =
     (let (records_buf, ranges) = st;
          records_buf' = encode_row_as_log_record fmt columns row metadata records_buf
      in (records_buf', ranges @ [(length records_buf, length records_buf')]))"

definition group_rows ::
  "(Array \<Rightarrow> nat \<Rightarrow> bytes option) \<Rightarrow> BatchColumns \<Rightarrow> BatchMetadata \<Rightarrow> nat \<Rightarrow> bytes \<times> group list" where
  "group_rows fmt columns metadata num_rows =
     (if resource_cols columns = [] \<and> scope_name_col columns = None \<and> scope_version_col columns = None then
        (let (records_buf, ranges) = fold (append_row fmt columns metadata) [0..<num_rows] ([], [])
         in (records_buf, [(([], None, None), ranges)]))
      else fold (group_row fmt columns metadata) [0..<num_rows] ([], []))"

definition encode_resource_value :: "bytes \<Rightarrow> bytes \<Rightarrow> ResourceValueRef \<Rightarrow> bytes" where
  "encode_resource_value buf key v =
     (case v of
        RStr s \<Rightarrow> encode_key_value_string buf 1 key s
      | RBytes b \<Rightarrow> encode_key_value_bytes buf 1 key b
      | RInt i \<Rightarrow> encode_key_value_int buf 1 key i
      | RFloat f \<Rightarrow> encode_key_value_double buf 1 key f
      | RBool b \<Rightarrow> encode_key_value_bool buf 1 key b)"

definition resource_message :: "BatchColumns \<Rightarrow> BatchMetadata \<Rightarrow> ResourceValueRef option list \<Rightarrow> bytes" where
  "resource_message columns metadata key =
     fold (\<lambda>((name, _), v) buf. case v of None \<Rightarrow> buf | Some v \<Rightarrow> encode_resource_value buf name v)
       (zip (resource_cols columns) key)
       (fold (\<lambda>(k, v) buf. encode_key_value_string buf 1 k v) (resource_attrs metadata) [])"

definition SCOPE_NAME :: bytes where
  "SCOPE_NAME = bstr ''ff''"

text \<open>The scope of a group; \<^verbatim>\<open>SCOPE_VERSION\<close>, fixed by the build, is \<open>version\<close>.\<close>

definition scope_values :: "bytes \<Rightarrow> scope_key \<Rightarrow> bytes \<times> bytes" where
  "scope_values version sk =
     (case fst sk of Some n \<Rightarrow> n | None \<Rightarrow> SCOPE_NAME, case snd sk of Some v \<Rightarrow> v | None \<Rightarrow> version)"

definition scope_inner_size :: "bytes \<times> bytes \<Rightarrow> nat" where
  "scope_inner_size sv = bytes_field_size 1 (length (fst sv)) + bytes_field_size 2 (length (snd sv))"

definition scope_logs_inner_size :: "bytes \<times> bytes \<Rightarrow> (nat \<times> nat) list \<Rightarrow> nat" where
  "scope_logs_inner_size sv ranges =
     fold (\<lambda>(start, end_pos) n. n + bytes_field_size 2 (end_pos - start)) ranges
       (bytes_field_size 1 (scope_inner_size sv))"

definition resource_inner_size :: "bytes \<Rightarrow> nat \<Rightarrow> nat" where
  "resource_inner_size resource_msg scope_logs_size =
     bytes_field_size 2 scope_logs_size +
     (if resource_msg \<noteq> [] then bytes_field_size 1 (length resource_msg) else 0)"

text \<open>The third phase for one group, with the sizes of the second.\<close>

definition write_group ::
  "bytes \<Rightarrow> BatchColumns \<Rightarrow> BatchMetadata \<Rightarrow> bytes \<Rightarrow> group \<Rightarrow> bytes \<Rightarrow> bytes" where
  "write_group version columns metadata records_buf g buf =
     (let ((key, sk), ranges) = g;
          sv = scope_values version sk;
          resource_msg = resource_message columns metadata key;
          scope_logs_size = scope_logs_inner_size sv ranges;
          buf = encode_tag buf 1 2;
          buf = encode_varint buf (of_nat (resource_inner_size resource_msg scope_logs_size));
          buf = (if resource_msg \<noteq> [] then encode_bytes_field buf 1 resource_msg else buf);
          buf = encode_tag buf 2 2;
          buf = encode_varint buf (of_nat scope_logs_size);
          buf = encode_tag buf 1 2;
          buf = encode_varint buf (of_nat (scope_inner_size sv));
          buf = encode_bytes_field buf 1 (fst sv);
          buf = encode_bytes_field buf 2 (snd sv)
      in fold (\<lambda>(start, end_pos) buf. encode_bytes_field buf 2 (subslice records_buf start end_pos)) ranges buf)"

text \<open>
  \<^verbatim>\<open>encode_batch\<close>. A batch is its named columns and its row count; a batch with a struct column
  is normalized first. \<open>None\<close> is the panic of \<^verbatim>\<open>normalize_conflict_columns\<close>.
\<close>

fun is_struct_array :: "Array \<Rightarrow> bool" where
  "is_struct_array (Struct _ _) = True"
| "is_struct_array _ = False"

definition encode_batch ::
  "(Array \<Rightarrow> nat \<Rightarrow> bytes option) \<Rightarrow> utf8_cast \<Rightarrow> bytes \<Rightarrow> bytes \<Rightarrow>
     (bytes \<times> Array) list \<Rightarrow> nat \<Rightarrow> BatchMetadata \<Rightarrow> bytes option" where
  "encode_batch fmt cast version message_field batch num_rows metadata =
     (if num_rows = 0 then Some []
      else Option.bind
        (if list_ex (\<lambda>(_, arr). is_struct_array arr) batch then normalize_conflict_columns cast num_rows batch
         else Some batch)
        (\<lambda>batch. let columns = resolve_batch_columns fmt batch message_field;
                     (records_buf, groups) = group_rows fmt columns metadata num_rows
                 in Some (fold (write_group version columns metadata records_buf) groups [])))"

end
