(* ===== verification/Otlp_Row_Fields.thy ===== *)
theory Otlp_Row_Fields
  imports Otlp_Encode Otlp_Projection
begin

text \<open>
  The wire fields a row denotes, and that the encoder of the OTLP sink writes exactly their
  message: the lengths it computes before writing, the short-string shortcut and the keys
  encoded once per batch are all right, and the null check it skips is never needed. The
  columns that \<^verbatim>\<open>resolve_batch_columns\<close> prepares satisfy what this takes.
\<close>

subsection \<open>Fields appended to a buffer\<close>

lemma field_bytes_simps:
  "field_bytes (f, Varint v) = varint (tag_value f 0) @ varint (unat v)"
  "field_bytes (f, Fixed64 u) = varint (tag_value f 1) @ to_le_bytes64 u"
  "field_bytes (f, Len off bs) = varint (tag_value f 2) @ varint (unat (of_nat (length bs) :: u64)) @ bs"
  "field_bytes (f, Fixed32 w) = varint (tag_value f 5) @ to_le_bytes32 w"
  by (simp_all add: field_bytes_def encode_varint_field_def encode_fixed64_def encode_fixed32_def
      encode_bytes_field_def encode_tag_eq encode_varint_eq)

lemma encode_append:
  "encode_varint_field buf f v = buf @ field_bytes (f, Varint v)"
  "encode_fixed64 buf f u = buf @ field_bytes (f, Fixed64 u)"
  "encode_bytes_field buf f bs = buf @ field_bytes (f, Len 0 bs)"
  "encode_fixed32 buf f w = buf @ field_bytes (f, Fixed32 w)"
  by (simp_all add: field_bytes_simps encode_varint_field_def encode_fixed64_def encode_fixed32_def
      encode_bytes_field_def encode_tag_eq encode_varint_eq)

lemma length_len_field:
  "length bs < 2 ^ 64 \<Longrightarrow> length (field_bytes (f, Len off bs)) = bytes_field_size f (length bs)"
  using length_encode_bytes_field [of bs "[]" f] by (simp add: encode_append field_bytes_simps)

lemma payload_le: "payload_len w \<le> length (field_bytes (f, w))"
  by (cases w) (simp_all add: field_bytes_simps)

lemma message_simps [simp]:
  "message [] = []" "message (fw # fs) = field_bytes fw @ message fs" "message (fs @ gs) = message fs @ message gs"
  by (simp_all add: message_def)

lemma placed_append: "placed off (fs @ gs) = placed off fs @ placed (off + length (message fs)) gs"
  by (induction off fs rule: placed.induct) (simp_all add: Let_def add.assoc)

lemma visit_all_append:
  "visit_all visit st (fs @ gs) = bindE (visit_all visit st fs) (\<lambda>st'. visit_all visit st' gs)"
proof (induction fs arbitrary: st)
  case (Cons fw fs)
  then show ?case by (cases fw) (simp add: bindE_assoc)
qed simp

subsection \<open>Key-value pairs\<close>

definition kv_bytes :: "bytes \<Rightarrow> u32 \<times> WireField \<Rightarrow> bytes" where
  "kv_bytes key v = message [(1, Len 0 key), (2, Len 0 (field_bytes v))]"

lemma kv_bytes_bounds: "length key \<le> length (kv_bytes key v)" "length (field_bytes v) \<le> length (kv_bytes key v)"
  by (simp_all add: kv_bytes_def field_bytes_simps(3) [of 1] field_bytes_simps(3) [of 2])

lemma open_key_value_eq:
  assumes "key_bytes = field_bytes (1, Len 0 key)" and "length (kv_bytes key v) < 2 ^ 63"
    and "a = length (field_bytes v)" and "n = bytes_field_size 1 (length key) + bytes_field_size 2 a"
  shows "open_key_value buf f n key_bytes a @ field_bytes v = buf @ field_bytes (f, Len 0 (kv_bytes key v))"
proof -
  have small: "length key < 2 ^ 64" "length (field_bytes v) < 2 ^ 64"
    using assms(2) kv_bytes_bounds(1) [of key v] kv_bytes_bounds(2) [of v key] by simp_all
  have "length (kv_bytes key v) = n"
    using small assms(3,4) by (simp add: kv_bytes_def length_len_field)
  then show ?thesis
    using assms(1,3) by (simp add: open_key_value_def Let_def encode_tag_eq encode_varint_eq
        field_bytes_simps(3) [of f] field_bytes_simps(3) [of 2] kv_bytes_def)
qed

lemma small_varint: "n < 128 \<Longrightarrow> length (varint n) = 1"
  by (simp add: varint.simps)

lemma value_sizes:
  "length (field_bytes (3, Varint v)) = 1 + varint_len v"
  "length (field_bytes (4, Fixed64 u)) = 1 + 8"
  "length (field_bytes (2, Varint (if b then 1 else 0))) = 1 + 1"
  by (simp_all add: field_bytes_simps varint_len_eq small_varint tag_value_def)

lemma small_len_size: "0 < f \<Longrightarrow> f < 16 \<Longrightarrow> n < 128 \<Longrightarrow> bytes_field_size f n = 2 + n"
proof -
  assume f: "0 < f" "f < 16" and n: "n < 128"
  have "unat f < 16" using f(2) by (simp add: word_less_nat_alt)
  then have "tag_value f 2 < 128" by (simp add: tag_value_def)
  then have "length (field_bytes (f, Len 0 (replicate n 0))) = 2 + n"
    using n by (simp add: field_bytes_simps small_varint unat_of_nat)
  then show ?thesis using n length_len_field [of "replicate n 0" f 0] by simp
qed

text \<open>The attribute a cell denotes, as the field of its \<^verbatim>\<open>AnyValue\<close>.\<close>

fun attr_value :: "(Array \<Rightarrow> nat \<Rightarrow> bytes option) \<Rightarrow> AttrArray \<Rightarrow> nat \<Rightarrow> (u32 \<times> WireField) option" where
  "attr_value fmt (AttrInt c) row = map_option (\<lambda>v. (3, Varint (of_int v))) (c ! row)"
| "attr_value fmt (AttrUInt c) row =
     Option.bind (c ! row) (\<lambda>v. map_option (\<lambda>i. (3, Varint (of_int i))) (i64_of_u64 v))"
| "attr_value fmt (AttrFloat c) row = map_option (\<lambda>v. (4, Fixed64 v)) (c ! row)"
| "attr_value fmt (AttrBool c) row = map_option (\<lambda>v. (2, Varint (if v then 1 else 0))) (c ! row)"
| "attr_value fmt (AttrStr c) row = map_option (\<lambda>v. (1, Len 0 v)) (c ! row)"
| "attr_value fmt (PreformattedStr c) row =
     (if row < length c then map_option (\<lambda>v. (1, Len 0 v)) (c ! row) else None)"
| "attr_value fmt (AttrBytes c) row = map_option (\<lambda>v. (7, Len 0 v)) (c ! row)"
| "attr_value fmt (LargeBytes c) row = map_option (\<lambda>v. (7, Len 0 v)) (c ! row)"
| "attr_value fmt (OtherStr arr) row = map_option (\<lambda>v. (1, Len 0 v)) (format_non_string_attr_value fmt arr row)"

fun has_cell :: "AttrArray \<Rightarrow> nat \<Rightarrow> bool" where
  "has_cell (AttrInt c) row \<longleftrightarrow> c ! row \<noteq> None"
| "has_cell (AttrUInt c) row \<longleftrightarrow> c ! row \<noteq> None"
| "has_cell (AttrFloat c) row \<longleftrightarrow> c ! row \<noteq> None"
| "has_cell (AttrBool c) row \<longleftrightarrow> c ! row \<noteq> None"
| "has_cell (AttrStr c) row \<longleftrightarrow> c ! row \<noteq> None"
| "has_cell (PreformattedStr c) row \<longleftrightarrow> True"
| "has_cell (AttrBytes c) row \<longleftrightarrow> c ! row \<noteq> None"
| "has_cell (LargeBytes c) row \<longleftrightarrow> c ! row \<noteq> None"
| "has_cell (OtherStr arr) row \<longleftrightarrow> True"

definition col_ready :: "nat \<Rightarrow> ColAttr \<Rightarrow> bool" where
  "col_ready row col \<longleftrightarrow>
     key_encoding col = field_bytes (1, Len 0 (col_name col)) \<and>
     kv_key_cost col = bytes_field_size 1 (length (col_name col)) \<and>
     short_kv_inner_base col = kv_key_cost col + 4 \<and>
     (has_nulls col \<or> has_cell (col_array col) row)"

definition attr_bytes :: "(Array \<Rightarrow> nat \<Rightarrow> bytes option) \<Rightarrow> nat \<Rightarrow> ColAttr \<Rightarrow> bytes option" where
  "attr_bytes fmt row col = map_option (kv_bytes (col_name col)) (attr_value fmt (col_array col) row)"

lemma open_col_eq:
  assumes "col_ready row col" and "length (kv_bytes (col_name col) v) < 2 ^ 63" and "a = length (field_bytes v)"
  shows "open_col buf f col a @ field_bytes v = buf @ field_bytes (f, Len 0 (kv_bytes (col_name col) v))"
  using assms unfolding open_col_def by (intro open_key_value_eq) (simp_all add: col_ready_def)

lemma encode_str_value_eq:
  assumes "col_ready row col" and "length (kv_bytes (col_name col) (1, Len 0 v)) < 2 ^ 63"
  shows "encode_str_value buf f col v = buf @ field_bytes (f, Len 0 (kv_bytes (col_name col) (1, Len 0 v)))"
proof -
  have v: "length v < 2 ^ 64"
    using assms(2) payload_le [of "Len 0 v" 1] kv_bytes_bounds(2) [of "(1, Len 0 v)" "col_name col"] by simp
  note pair = open_key_value_eq [of _ "col_name col" "(1, Len 0 v)"]
  show ?thesis
  proof (cases "length v \<le> 125")
    case True
    have "open_key_value buf f (short_kv_inner_base col + length v) (key_encoding col) (2 + length v) @
        field_bytes (1, Len 0 v) = buf @ field_bytes (f, Len 0 (kv_bytes (col_name col) (1, Len 0 v)))"
      using True assms v by (intro pair) (simp_all add: col_ready_def length_len_field small_len_size)
    then show ?thesis using True by (simp add: encode_str_value_def encode_append)
  next
    case False
    have "open_key_value buf f (kv_key_cost col + bytes_field_size 2 (bytes_field_size 1 (length v)))
        (key_encoding col) (bytes_field_size 1 (length v)) @ field_bytes (1, Len 0 v) =
        buf @ field_bytes (f, Len 0 (kv_bytes (col_name col) (1, Len 0 v)))"
      using assms v by (intro pair) (simp_all add: col_ready_def length_len_field)
    then show ?thesis using False by (simp add: encode_str_value_def encode_append Let_def)
  qed
qed

lemma encode_typed_attr_eq:
  assumes "col_ready row col"
  shows "length (kv_bytes (col_name col) (3, Varint (of_int i))) < 2 ^ 63 \<Longrightarrow>
      encode_int_attr buf f col i = buf @ field_bytes (f, Len 0 (kv_bytes (col_name col) (3, Varint (of_int i))))"
    and "length (kv_bytes (col_name col) (7, Len 0 bs)) < 2 ^ 63 \<Longrightarrow>
      encode_bytes_attr buf f col bs = buf @ field_bytes (f, Len 0 (kv_bytes (col_name col) (7, Len 0 bs)))"
    and "length (kv_bytes (col_name col) (4, Fixed64 u)) < 2 ^ 63 \<Longrightarrow>
      encode_fixed64 (open_col buf f col (1 + 8)) 4 u =
        buf @ field_bytes (f, Len 0 (kv_bytes (col_name col) (4, Fixed64 u)))"
    and "length (kv_bytes (col_name col) (2, Varint (if b then 1 else 0))) < 2 ^ 63 \<Longrightarrow>
      encode_varint_field (open_col buf f col (1 + 1)) 2 (if b then 1 else 0) =
        buf @ field_bytes (f, Len 0 (kv_bytes (col_name col) (2, Varint (if b then 1 else 0))))"
proof -
  note pair = open_col_eq [OF assms]
  show "length (kv_bytes (col_name col) (3, Varint (of_int i))) < 2 ^ 63 \<Longrightarrow>
      encode_int_attr buf f col i = buf @ field_bytes (f, Len 0 (kv_bytes (col_name col) (3, Varint (of_int i))))"
    unfolding encode_int_attr_def encode_append by (rule pair) (simp_all only: value_sizes)
  show "length (kv_bytes (col_name col) (7, Len 0 bs)) < 2 ^ 63 \<Longrightarrow>
      encode_bytes_attr buf f col bs = buf @ field_bytes (f, Len 0 (kv_bytes (col_name col) (7, Len 0 bs)))"
    using payload_le [of "Len 0 bs" 7] kv_bytes_bounds(2) [of "(7, Len 0 bs)" "col_name col"]
    unfolding encode_bytes_attr_def encode_append by (intro pair) (simp_all add: length_len_field)
  show "length (kv_bytes (col_name col) (4, Fixed64 u)) < 2 ^ 63 \<Longrightarrow>
      encode_fixed64 (open_col buf f col (1 + 8)) 4 u =
        buf @ field_bytes (f, Len 0 (kv_bytes (col_name col) (4, Fixed64 u)))"
    unfolding encode_append by (rule pair) (simp_all only: value_sizes)
  show "length (kv_bytes (col_name col) (2, Varint (if b then 1 else 0))) < 2 ^ 63 \<Longrightarrow>
      encode_varint_field (open_col buf f col (1 + 1)) 2 (if b then 1 else 0) =
        buf @ field_bytes (f, Len 0 (kv_bytes (col_name col) (2, Varint (if b then 1 else 0))))"
    unfolding encode_append by (rule pair) (simp_all only: value_sizes)
qed

lemma encode_col_attr_eq:
  assumes ready: "col_ready row col" and fits: "\<And>kv. attr_bytes fmt row col = Some kv \<Longrightarrow> length kv < 2 ^ 63"
  shows "encode_col_attr fmt buf f col row =
    buf @ (case attr_bytes fmt row col of None \<Rightarrow> [] | Some kv \<Rightarrow> field_bytes (f, Len 0 kv))"
proof -
  note eqs = encode_typed_attr_eq [OF ready] encode_str_value_eq [OF ready]
  have nulls: "has_nulls col \<or> has_cell (col_array col) row" using ready by (simp add: col_ready_def)
  show ?thesis
  proof (cases "col_array col")
    case (AttrInt c)
    then show ?thesis using nulls fits by (cases "c ! row") (simp_all add: encode_col_attr_def attr_bytes_def eqs)
  next
    case (AttrUInt c)
    then show ?thesis
      using nulls fits
      by (cases "c ! row"; cases "i64_of_u64 (the (c ! row))") (simp_all add: encode_col_attr_def attr_bytes_def eqs)
  next
    case (AttrFloat c)
    then show ?thesis using nulls fits eqs(3) by (cases "c ! row") (simp_all add: encode_col_attr_def attr_bytes_def)
  next
    case (AttrBool c)
    then show ?thesis using nulls fits eqs(4) [of "the (c ! row)"] by (cases "c ! row") (simp_all add: encode_col_attr_def attr_bytes_def)
  next
    case (AttrStr c)
    then show ?thesis using nulls fits by (cases "c ! row") (simp_all add: encode_col_attr_def attr_bytes_def eqs)
  next
    case (PreformattedStr c)
    then show ?thesis
      using fits by (cases "if row < length c then c ! row else None") (auto simp: encode_col_attr_def attr_bytes_def eqs)
  next
    case (AttrBytes c)
    then show ?thesis using nulls fits by (cases "c ! row") (simp_all add: encode_col_attr_def attr_bytes_def eqs)
  next
    case (LargeBytes c)
    then show ?thesis using nulls fits by (cases "c ! row") (simp_all add: encode_col_attr_def attr_bytes_def eqs)
  next
    case (OtherStr arr)
    then show ?thesis
      using fits by (cases "format_non_string_attr_value fmt arr row") (simp_all add: encode_col_attr_def attr_bytes_def eqs)
  qed
qed

subsection \<open>The fields of a row\<close>

definition opt_field :: "'a option \<Rightarrow> ('a \<Rightarrow> u32 \<times> WireField) \<Rightarrow> (u32 \<times> WireField) list" where
  "opt_field x f = (case x of None \<Rightarrow> [] | Some v \<Rightarrow> [f v])"

definition nonempty :: "bytes \<Rightarrow> bytes option" where
  "nonempty s = (if s = [] then None else Some s)"

definition attr_fields :: "(Array \<Rightarrow> nat \<Rightarrow> bytes option) \<Rightarrow> BatchColumns \<Rightarrow> nat \<Rightarrow> (u32 \<times> WireField) list" where
  "attr_fields fmt columns row =
     map (\<lambda>kv. (6, Len 0 kv)) (List.map_filter (attr_bytes fmt row) (attribute_cols columns))"

definition head_fields :: "BatchColumns \<Rightarrow> nat \<Rightarrow> (u32 \<times> WireField) list" where
  "head_fields columns row =
     opt_field (row_timestamp columns row) (\<lambda>ts. (1, Fixed64 ts)) @
     opt_field (if 0 < row_severity_number columns row then Some (row_severity_number columns row) else None)
       (\<lambda>n. (2, Varint n)) @
     opt_field (nonempty (snd (row_severity columns row))) (\<lambda>s. (3, Len 0 s)) @
     opt_field (nonempty (row_body columns row)) (\<lambda>s. (5, Len 0 (field_bytes (1, Len 0 s))))"

definition tail_fields :: "BatchColumns \<Rightarrow> nat \<Rightarrow> BatchMetadata \<Rightarrow> (u32 \<times> WireField) list" where
  "tail_fields columns row metadata =
     opt_field (Option.bind (flags_col columns) (\<lambda>arr. value_u32 arr row)) (\<lambda>w. (8, Fixed32 w)) @
     opt_field (row_id (trace_id_col columns) 16 row) (\<lambda>i. (9, Len 0 i)) @
     opt_field (row_id (span_id_col columns) 8 row) (\<lambda>i. (10, Len 0 i)) @
     [(11, Fixed64 (row_observed columns metadata row))]"

definition row_fields ::
  "(Array \<Rightarrow> nat \<Rightarrow> bytes option) \<Rightarrow> BatchColumns \<Rightarrow> nat \<Rightarrow> BatchMetadata \<Rightarrow> (u32 \<times> WireField) list" where
  "row_fields fmt columns row metadata =
     head_fields columns row @ attr_fields fmt columns row @ tail_fields columns row metadata"

lemma payload_in_message: "(f, w) \<in> set fs \<Longrightarrow> payload_len w \<le> length (message fs)"
  using payload_le [of w f] by (induction fs) auto

lemma encode_attrs_eq:
  assumes "\<And>col. col \<in> set cols \<Longrightarrow> col_ready row col"
    and "\<And>kv. kv \<in> set (List.map_filter (attr_bytes fmt row) cols) \<Longrightarrow> length kv < 2 ^ 63"
  shows "fold (\<lambda>col buf. encode_col_attr fmt buf 6 col row) cols buf =
    buf @ message (map (\<lambda>kv. (6, Len 0 kv)) (List.map_filter (attr_bytes fmt row) cols))"
  using assms
proof (induction cols arbitrary: buf)
  case (Cons col cols)
  have "encode_col_attr fmt buf 6 col row =
      buf @ (case attr_bytes fmt row col of None \<Rightarrow> [] | Some kv \<Rightarrow> field_bytes (6, Len 0 kv))"
    using Cons.prems by (intro encode_col_attr_eq) (simp_all add: List.map_filter_simps)
  then show ?case
    using Cons by (cases "attr_bytes fmt row col") (simp_all add: List.map_filter_simps)
qed (simp add: List.map_filter_simps)

lemma encode_body_eq:
  assumes "length body < 2 ^ 64"
  shows "encode_body buf body = buf @ field_bytes (5, Len 0 (field_bytes (1, Len 0 body)))"
  using length_len_field [OF assms, of 1 0]
  by (simp add: encode_body_def Let_def encode_append encode_tag_eq encode_varint_eq
      field_bytes_simps(3) [of 5])

lemma encode_row_eq:
  assumes ready: "\<And>col. col \<in> set (attribute_cols columns) \<Longrightarrow> col_ready row col"
    and fits: "length (message (row_fields fmt columns row metadata)) < 2 ^ 63"
  shows "encode_row_as_log_record fmt columns row metadata buf = buf @ message (row_fields fmt columns row metadata)"
proof -
  have small: "payload_len w < 2 ^ 63" if "(f, w) \<in> set (row_fields fmt columns row metadata)" for f w
    using payload_in_message [OF that] fits by linarith
  have kv: "length kv < 2 ^ 63" if "kv \<in> set (List.map_filter (attr_bytes fmt row) (attribute_cols columns))" for kv
    using small [of 6 "Len 0 kv"] that by (auto simp: row_fields_def attr_fields_def)
  have body: "length (row_body columns row) < 2 ^ 64" if "row_body columns row \<noteq> []"
  proof -
    have "(5, Len 0 (field_bytes (1, Len 0 (row_body columns row)))) \<in> set (row_fields fmt columns row metadata)"
      using that by (simp add: row_fields_def head_fields_def opt_field_def nonempty_def)
    from small [OF this] show ?thesis using payload_le [of "Len 0 (row_body columns row)" 1] by simp
  qed
  show ?thesis
    unfolding encode_row_as_log_record_def Let_def
    using encode_attrs_eq [OF ready kv] encode_body_eq [OF body]
    by (simp add: row_fields_def head_fields_def attr_fields_def tail_fields_def opt_field_def nonempty_def encode_append
        split: option.split)
qed

subsection \<open>Resolved columns are ready\<close>

lemma attr_array_has_cell:
  assumes "attr_array OtherStr arr = Some a" and "null_count arr = 0" and "row < length (nulls arr)"
  shows "has_cell a row"
proof -
  have "\<not> nulls arr ! row"
    using assms(2) nth_mem [OF assms(3)]
    by (cases "nulls arr ! row") (simp_all add: null_count_def count_list_0_iff)
  then show ?thesis using assms(1,3) by (cases arr) (auto simp: Option.is_none_def)
qed

definition attrs_from :: "(bytes \<times> Array) set \<Rightarrow> BatchColumns \<Rightarrow> bool" where
  "attrs_from batch cols \<longleftrightarrow>
     (\<forall>col \<in> set (attribute_cols cols).
        \<exists>name arr a. (name, arr) \<in> batch \<and> attr_array OtherStr arr = Some a \<and> col = col_attr name arr a)"

lemma claim_column_attrs: "attribute_cols (fst (claim_column mf col st)) = attribute_cols (fst st)"
  by (cases col; cases st)
    (auto simp: claim_column_def Let_def split: option.splits if_splits)

lemma classify_column_attrs:
  "attrs_from batch cols \<Longrightarrow> snd col \<in> batch \<Longrightarrow> attrs_from batch (classify_column fmt ex col cols)"
  by (cases col)
    (auto simp: classify_column_def classify_attribute_def attrs_from_def split: option.splits if_splits)

lemma resolve_attrs_from: "attrs_from (set batch) (resolve_batch_columns fmt batch mf)"
proof -
  have claim: "attribute_cols (fst (fold (claim_column mf) cs st)) = attribute_cols (fst st)" for cs st
    by (induction cs arbitrary: st) (simp_all add: claim_column_attrs)
  have classify: "attrs_from (set batch) (fold (classify_column fmt ex) cs cols)"
    if "attrs_from (set batch) cols" "\<forall>c \<in> set cs. snd c \<in> set batch" for ex cs cols
    using that by (induction cs arbitrary: cols) (simp_all add: classify_column_attrs)
  have "\<forall>c \<in> set (zip [0..<length batch] batch). snd c \<in> set batch"
    by (auto dest: set_zip_rightD)
  moreover have "attrs_from (set batch) (fst (fold (claim_column mf) (zip [0..<length batch] batch) (no_columns, [], None)))"
    using claim [of "zip [0..<length batch] batch" "(no_columns, [], None)"] by (simp add: attrs_from_def no_columns_def)
  ultimately show ?thesis
    unfolding resolve_batch_columns_def Let_def by (auto simp: split_def intro: classify)
qed

definition batch_ok :: "(bytes \<times> Array) list \<Rightarrow> nat \<Rightarrow> bool" where
  "batch_ok batch n \<longleftrightarrow> list_all (\<lambda>(_, arr). length (nulls arr) = n) batch"

lemma resolved_ready:
  assumes "batch_ok batch n" and "row < n" and "col \<in> set (attribute_cols (resolve_batch_columns fmt batch mf))"
  shows "col_ready row col"
proof -
  obtain name arr a where col: "(name, arr) \<in> set batch" "attr_array OtherStr arr = Some a" "col = col_attr name arr a"
    using resolve_attrs_from assms(3) unfolding attrs_from_def by blast
  have "length (nulls arr) = n" using assms(1) col(1) by (auto simp: batch_ok_def list_all_iff)
  then show ?thesis
    using attr_array_has_cell [OF col(2)] assms(2) col(3)
    by (auto simp: col_ready_def col_attr_def Let_def encode_append)
qed

end
