(* ===== verification/Otlp_Roundtrip.thy ===== *)
theory Otlp_Roundtrip
  imports Otlp_Row_Fields
begin

text \<open>
  The OTLP sink and the OTLP receiver composed: the decoders of the receiver give back the
  fields and attributes of the row that the sink encoded. How the encoded records are nested in the groups
  of the request is not covered.
\<close>

subsection \<open>Reading attributes back\<close>

fun any_of :: "u32 \<times> WireField \<Rightarrow> WireAny" where
  "any_of (_, Fixed64 u) = AnyDouble u"
| "any_of (_, Fixed32 w) = AnyBytes []"
| "any_of (f, Varint v) = (if f = 2 then AnyBool (v \<noteq> 0) else AnyInt (sint v))"
| "any_of (f, Len _ s) = (if f = 7 then AnyBytes s else AnyString s)"

fun value_field_ok :: "u32 \<times> WireField \<Rightarrow> bool" where
  "value_field_ok (f, Varint _) \<longleftrightarrow> f = 2 \<or> f = 3"
| "value_field_ok (f, Fixed64 _) \<longleftrightarrow> f = 4"
| "value_field_ok (f, Len _ s) \<longleftrightarrow> (f = 1 \<and> valid_utf8 s \<or> f = 7) \<and> length s < 2 ^ 64"
| "value_field_ok (f, Fixed32 _) \<longleftrightarrow> False"

lemma key_parts:
  assumes "0 < f" and "f \<le> 0x1FFFFFFF" and "wt < 8"
  shows "ucast (drop_bit 3 (of_nat (tag_value f wt) :: u64)) = f"
    and "ucast ((of_nat (tag_value f wt) :: u64) AND 0x07) = wt"
    and "read_varint (varint (tag_value f wt) @ rest) = Inr (of_nat (tag_value f wt), rest)"
proof -
  show "ucast (drop_bit 3 (of_nat (tag_value f wt) :: u64)) = f"
    using agrees_field_number [of "of_nat (tag_value f wt)"] decode_key(1) [OF assms] by simp
  show "ucast ((of_nat (tag_value f wt) :: u64) AND 0x07) = wt" by (rule decode_key(2) [OF assms])
  show "read_varint (varint (tag_value f wt) @ rest) = Inr (of_nat (tag_value f wt), rest)"
    using tag_value_bound [OF assms(3), of f] by (intro read_varint_varint) simp
qed

lemma read_varint_word: "read_varint (varint (unat v) @ rest) = Inr (v, rest)" for v :: u64
  using read_varint_varint [OF u64_bound, of v rest] by simp

lemma take_len_word:
  "length bs < 2 ^ 64 \<Longrightarrow> take_len err (varint (unat (of_nat (length bs) :: u64)) @ bs @ rest) = Inr (bs, rest)"
  using take_len_append [of bs err rest] by (simp add: unat_of_nat)

context simdutf8_crate begin

lemma any_inline_step_value:
  assumes "value_field_ok v"
  shows "any_inline_step simd out (field_bytes v) = Inr (Some (any_of v), [])"
proof -
  obtain f w where v: "v = (f, w)" by (cases v)
  note nil = read_varint_word [of _ "[]", simplified] take_bytes_append [of _ _ _ "[]", simplified]
    take_len_word [of _ _ "[]", simplified]
  note defs = field_bytes_simps any_inline_step_def key_parts Let_def nil
  show ?thesis
  proof (cases w)
    case (Varint x)
    then have "f = 2 \<or> f = 3" using assms v by simp
    then show ?thesis by (elim disjE) (simp_all add: v Varint defs)
  next
    case (Fixed64 u)
    then have "f = 4" using assms v by simp
    then show ?thesis by (simp add: v Fixed64 defs)
  next
    case (Len off s)
    then have "length s < 18446744073709551616" "f = 1 \<and> valid_utf8 s \<or> f = 7" using assms v by simp_all
    then show ?thesis by (elim disjE conjE) (simp_all add: v Len defs require_utf8_valid)
  next
    case (Fixed32 w)
    then show ?thesis using assms v by simp
  qed
qed

lemma any_inline_value:
  assumes "value_field_ok v"
  shows "decode_any_value_inline simd (field_bytes v) = Inr (Some (any_of v))"
proof -
  have "field_bytes v \<noteq> []" by (cases v; cases "snd v") (auto simp: field_bytes_simps)
  then show ?thesis
    using any_inline_step_value [OF assms, of None]
    by (simp add: decode_any_value_inline_def any_inline_loop.simps)
qed

lemma kv_inline_pair:
  assumes "value_field_ok v" and "length (kv_bytes key v) < 2 ^ 64"
  shows "decode_kv_inline simd (kv_bytes key v) = Inr (Some (key, any_of v))"
proof -
  have small: "length key < 2 ^ 64" "length (field_bytes v) < 2 ^ 64"
    using assms(2) kv_bytes_bounds(1) [of key v] kv_bytes_bounds(2) [of v key] by simp_all
  let ?rest = "field_bytes (2, Len 0 (field_bytes v))"
  have key: "kv_inline_step simd ([], None) (field_bytes (1, Len 0 key) @ ?rest) = Inr ((key, None), ?rest)"
    using key_parts [of 1 2] take_len_word [OF small(1), of _ ?rest]
    by (simp add: kv_inline_step_def Let_def field_bytes_simps(3) [of 1])
  have val: "kv_inline_step simd (key, None) ?rest = Inr ((key, Some (any_of v)), [])"
    using key_parts [of 2 2] take_len_word [OF small(2), of _ "[]"] any_inline_value [OF assms(1)]
    by (simp add: kv_inline_step_def Let_def field_bytes_simps(3) [of 2])
  have "?rest \<noteq> []" by (simp add: field_bytes_simps)
  then show ?thesis
    using key val
    by (simp add: decode_kv_inline_def kv_bytes_def kv_inline_loop.simps [of simd "([], None)"]
        kv_inline_loop.simps [of simd "(key, None)"] kv_inline_loop.simps [of simd _ "[]"])
qed

end

subsection \<open>Reading a record back\<close>

definition expected_record :: "BatchColumns \<Rightarrow> nat \<Rightarrow> BatchMetadata \<Rightarrow> LogRecordFields" where
  "expected_record columns row metadata =
     \<lparr>time_unix_nano = (case row_timestamp columns row of None \<Rightarrow> 0 | Some ts \<Rightarrow> ts),
      observed_time_unix_nano = row_observed columns metadata row,
      severity_number = sint (ucast (row_severity_number columns row) :: u32),
      severity_text = nonempty (snd (row_severity columns row)),
      lr_body = map_option AnyString (nonempty (row_body columns row)),
      trace_id = row_id (trace_id_col columns) 16 row,
      span_id = row_id (span_id_col columns) 8 row,
      lr_flags = (case Option.bind (flags_col columns) (\<lambda>arr. value_u32 arr row) of None \<Rightarrow> 0 | Some w \<Rightarrow> uint w)\<rparr>"

lemma row_id_length: "row_id col n row = Some i \<Longrightarrow> length i = n"
  by (auto simp: row_id_def hex_decode_def split: option.splits prod.splits if_splits)

definition range_of :: "u32 \<times> WireField \<Rightarrow> nat \<times> nat" where
  "range_of fw = (case snd fw of Len p bs \<Rightarrow> (p, length bs) | _ \<Rightarrow> (0, 0))"

lemma placed_opt_field:
  "placed off (opt_field x f) =
     (case x of None \<Rightarrow> [] | Some v \<Rightarrow>
        [(fst (f v), place (off + length (field_bytes (f v)) - payload_len (snd (f v))) (snd (f v)))])"
  by (cases x; cases "f (the x)") (simp_all add: opt_field_def Let_def)

lemma visit_attrs:
  assumes "\<And>p bs. (6, Len p bs) \<in> set fs \<Longrightarrow> p + length bs \<le> length rec"
    and "length rec \<le> usize_max" and "\<And>fw. fw \<in> set fs \<Longrightarrow> \<exists>p bs. fw = (6, Len p bs)"
  shows "visit_all (log_record_visit simd rec) (out, rs) fs = Inr (out, rs @ map range_of fs)"
  using assms
proof (induction fs arbitrary: rs)
  case (Cons fw fs)
  obtain p bs where fw: "fw = (6, Len p bs)" using Cons.prems(3) by fastforce
  have "p + length bs \<le> length rec" using Cons.prems(1) fw by simp
  then have "subslice_range (0, length rec) (p, length bs) = Inr (p, length bs)"
    using Cons.prems(2) by (simp add: subslice_range_def checked_add_usize_def)
  then show ?case using Cons by (simp add: fw log_record_visit_def range_of_def)
qed simp

lemma placed_attr_fields:
  assumes "fw \<in> set (placed off (attr_fields fmt columns row))"
  shows "\<exists>p bs. fw = (6, Len p bs)"
proof -
  have "fw \<in> set (placed off (map (\<lambda>kv. (6, Len 0 kv)) kvs)) \<Longrightarrow> \<exists>p bs. fw = (6, Len p bs)" for kvs
    by (induction kvs arbitrary: off) (auto simp: Let_def)
  then show ?thesis using assms by (simp add: attr_fields_def)
qed

context simdutf8_crate begin

lemma decode_string_value:
  assumes "valid_utf8 s" and "length s < 2 ^ 64"
  shows "decode_any_value_wire simd (field_bytes (1, Len 0 s)) = Inr (Some (AnyString s))"
proof -
  have "list_all field_ok [(1, Len 0 s)]" using assms(2) by simp
  from walk_message [OF this, of "any_value_visit simd" None]
  show ?thesis
    using assms(1) by (simp add: decode_any_value_wire_def Let_def any_value_visit_def require_utf8_valid)
qed

lemma visit_head:
  assumes "valid_utf8 (snd (row_severity columns row))" and "valid_utf8 (row_body columns row)"
    and "length (row_body columns row) < 2 ^ 64"
  shows "visit_all (log_record_visit simd rec) (LogRecordFields_default, rs) (placed off (head_fields columns row)) =
    Inr (LogRecordFields_default\<lparr>
           time_unix_nano := (case row_timestamp columns row of None \<Rightarrow> 0 | Some ts \<Rightarrow> ts),
           severity_number := sint (ucast (row_severity_number columns row) :: u32),
           severity_text := nonempty (snd (row_severity columns row)),
           lr_body := map_option AnyString (nonempty (row_body columns row))\<rparr>, rs)"
proof -
  note visit = log_record_visit_def LogRecordFields_default_def nonempty_def require_utf8_valid decode_string_value
  show ?thesis
    unfolding head_fields_def placed_append visit_all_append placed_opt_field
    using assms
    by (cases "row_timestamp columns row"; cases "row_severity_number columns row = 0";
        cases "snd (row_severity columns row) = []"; cases "row_body columns row = []")
      (simp_all add: visit word_greater_zero_iff)
qed

lemma visit_tail:
  "visit_all (log_record_visit simd rec) (out\<lparr>trace_id := None, span_id := None, lr_flags := 0\<rparr>, rs)
     (placed off (tail_fields columns row metadata)) =
   Inr (out\<lparr>trace_id := row_id (trace_id_col columns) 16 row, span_id := row_id (span_id_col columns) 8 row,
     lr_flags := (case Option.bind (flags_col columns) (\<lambda>arr. value_u32 arr row) of None \<Rightarrow> 0 | Some w \<Rightarrow> uint w),
     observed_time_unix_nano := row_observed columns metadata row\<rparr>, rs)"
proof -
  have nonempty_id: "i \<noteq> []" if "row_id col n row = Some i" "0 < n" for col n i
    using row_id_length [OF that(1)] that(2) by auto
  show ?thesis
    unfolding tail_fields_def placed_append visit_all_append placed_opt_field
    using nonempty_id [of "trace_id_col columns" 16] nonempty_id [of "span_id_col columns" 8]
    by (cases "Option.bind (flags_col columns) (\<lambda>arr. value_u32 arr row)";
        cases "row_id (trace_id_col columns) 16 row"; cases "row_id (span_id_col columns) 8 row")
      (simp_all add: log_record_visit_def Let_def)
qed

end

subsection \<open>A row through the sink and the receiver\<close>

text \<open>The value of an attribute cell, and what Arrow and Rust guarantee of it.\<close>

fun attr_any :: "(Array \<Rightarrow> nat \<Rightarrow> bytes option) \<Rightarrow> AttrArray \<Rightarrow> nat \<Rightarrow> WireAny option" where
  "attr_any fmt (AttrInt c) row = map_option AnyInt (c ! row)"
| "attr_any fmt (AttrUInt c) row = Option.bind (c ! row) (\<lambda>v. map_option AnyInt (i64_of_u64 v))"
| "attr_any fmt (AttrFloat c) row = map_option AnyDouble (c ! row)"
| "attr_any fmt (AttrBool c) row = map_option AnyBool (c ! row)"
| "attr_any fmt (AttrStr c) row = map_option AnyString (c ! row)"
| "attr_any fmt (PreformattedStr c) row = (if row < length c then map_option AnyString (c ! row) else None)"
| "attr_any fmt (AttrBytes c) row = map_option AnyBytes (c ! row)"
| "attr_any fmt (LargeBytes c) row = map_option AnyBytes (c ! row)"
| "attr_any fmt (OtherStr arr) row = map_option AnyString (format_non_string_attr_value fmt arr row)"

fun any_ok :: "WireAny \<Rightarrow> bool" where
  "any_ok (AnyString s) \<longleftrightarrow> valid_utf8 s"
| "any_ok (AnyInt i) \<longleftrightarrow> i64_ok i"
| "any_ok _ \<longleftrightarrow> True"

definition row_attributes :: "(Array \<Rightarrow> nat \<Rightarrow> bytes option) \<Rightarrow> BatchColumns \<Rightarrow> nat \<Rightarrow> (bytes \<times> WireAny) list" where
  "row_attributes fmt columns row =
     List.map_filter (\<lambda>col. map_option (Pair (col_name col)) (attr_any fmt (col_array col) row)) (attribute_cols columns)"

definition row_ok :: "(Array \<Rightarrow> nat \<Rightarrow> bytes option) \<Rightarrow> BatchColumns \<Rightarrow> nat \<Rightarrow> bool" where
  "row_ok fmt columns row \<longleftrightarrow>
     valid_utf8 (snd (row_severity columns row)) \<and> valid_utf8 (row_body columns row) \<and>
     list_all (\<lambda>(_, v). any_ok v) (row_attributes fmt columns row)"

lemma sint_of_i64: "i64_ok i \<Longrightarrow> sint (of_int i :: u64) = i"
  unfolding i64_ok_def by (simp add: sint_sbintrunc' signed_take_bit_int_eq_self)

lemma i64_of_u64_ok: "i64_of_u64 v = Some i \<Longrightarrow> i64_ok i"
proof -
  have "- (2 ^ 63) \<le> uint v" by (rule order_trans [of _ 0]) simp_all
  then show "i64_of_u64 v = Some i \<Longrightarrow> i64_ok i"
    unfolding i64_of_u64_def i64_ok_def by (simp split: if_splits)
qed

lemma attr_value_any:
  assumes "\<And>v. attr_any fmt a row = Some v \<Longrightarrow> any_ok v"
  shows "map_option any_of (attr_value fmt a row) = attr_any fmt a row \<and>
    (\<forall>v. attr_value fmt a row = Some v \<longrightarrow> payload_len (snd v) < 2 ^ 64 \<longrightarrow> value_field_ok v)"
proof (cases a)
  case (AttrInt c)
  then show ?thesis using assms by (cases "c ! row") (simp_all add: sint_of_i64)
next
  case (AttrUInt c)
  then show ?thesis
    by (cases "c ! row"; cases "i64_of_u64 (the (c ! row))") (simp_all add: sint_of_i64 i64_of_u64_ok)
next
  case (AttrBool c)
  then show ?thesis by (cases "c ! row"; cases "the (c ! row)") simp_all
next
  case (PreformattedStr c)
  then show ?thesis using assms by (cases "c ! row") auto
next
  case (AttrStr c)
  then show ?thesis using assms by (cases "c ! row") auto
next
  case (OtherStr arr)
  then show ?thesis using assms by (cases "format_non_string_attr_value fmt arr row") auto
qed (auto simp: option.map_comp comp_def)

lemma row_fields_ok:
  assumes "length (message (row_fields fmt columns row metadata)) < 2 ^ 63"
  shows "list_all field_ok (row_fields fmt columns row metadata)"
proof -
  have "0 < f \<and> f \<le> 0x1FFFFFFF" if "(f, w) \<in> set (row_fields fmt columns row metadata)" for f w
    using that by (auto simp: row_fields_def head_fields_def attr_fields_def tail_fields_def opt_field_def
        split: option.splits)
  moreover have "payload_len w < 2 ^ 64" if "(f, w) \<in> set (row_fields fmt columns row metadata)" for f w
    using payload_in_message [OF that] assms by simp
  ultimately show ?thesis by (auto simp: list_all_iff)
qed

lemma range_slices:
  "map (\<lambda>(p, n). subslice (pre @ message (map (\<lambda>kv. (6, Len 0 kv)) kvs) @ post) p (p + n))
     (map range_of (placed (length pre) (map (\<lambda>kv. (6, Len 0 kv)) kvs))) = kvs"
proof (induction kvs arbitrary: pre)
  case (Cons kv kvs)
  show ?case
    using Cons [of "pre @ field_bytes (6, Len 0 kv)"]
    by (simp add: Let_def range_of_def field_bytes_simps(3) [of 6] subslice_def)
qed simp

context simdutf8_crate begin

lemma record_decodes:
  assumes ok: "row_ok fmt columns row" and rec: "rec = message (row_fields fmt columns row metadata)"
    and fits: "length rec < 2 ^ 63"
  defines "attrs \<equiv> placed (length (message (head_fields columns row))) (attr_fields fmt columns row)"
  shows "decode_log_record_fields simd rec [] = Inr (expected_record columns row metadata, map range_of attrs)"
proof -
  have all: "list_all field_ok (row_fields fmt columns row metadata)"
    using row_fields_ok fits rec by simp
  have body: "length (row_body columns row) < 2 ^ 64"
  proof (cases "row_body columns row = []")
    case False
    then have "(5, Len 0 (field_bytes (1, Len 0 (row_body columns row)))) \<in> set (row_fields fmt columns row metadata)"
      by (simp add: row_fields_def head_fields_def opt_field_def nonempty_def)
    from payload_in_message [OF this] show ?thesis
      using payload_le [of "Len 0 (row_body columns row)" 1] fits rec by simp
  qed simp
  have "list_all field_ok (attr_fields fmt columns row)" using all by (simp add: row_fields_def)
  note placed = placed_payload [OF this, of _ _ _ "message (head_fields columns row)", folded attrs_def]
  have attr: "visit_all (log_record_visit simd rec) (out, rs) attrs = Inr (out, rs @ map range_of attrs)" for out rs
  proof (rule visit_attrs)
    show "p + length bs \<le> length rec" if "(6, Len p bs) \<in> set attrs" for p bs
      using placed [OF that] rec by (simp add: row_fields_def)
    show "length rec \<le> usize_max" using fits by (simp add: usize_max_def)
    show "\<exists>p bs. fw = (6, Len p bs)" if "fw \<in> set attrs" for fw
      using placed_attr_fields that by (simp add: attrs_def)
  qed
  let ?out = "LogRecordFields_default\<lparr>
      time_unix_nano := (case row_timestamp columns row of None \<Rightarrow> 0 | Some ts \<Rightarrow> ts),
      severity_number := sint (ucast (row_severity_number columns row) :: u32),
      severity_text := nonempty (snd (row_severity columns row)),
      lr_body := map_option AnyString (nonempty (row_body columns row))\<rparr>"
  have out: "?out = ?out\<lparr>trace_id := None, span_id := None, lr_flags := 0\<rparr>"
    by (simp add: LogRecordFields_default_def)
  have "decode_log_record_fields simd rec [] =
      visit_all (log_record_visit simd rec) (LogRecordFields_default, []) (placed 0 (row_fields fmt columns row metadata))"
    using walk_message [OF all] by (simp add: decode_log_record_fields_def rec)
  also have "\<dots> = Inr (expected_record columns row metadata, map range_of attrs)"
    using ok body visit_tail [of rec ?out, folded out]
    by (simp add: row_fields_def placed_append visit_all_append visit_head attr row_ok_def flip: attrs_def)
      (simp add: expected_record_def LogRecordFields_default_def)
  finally show ?thesis .
qed

lemma cols_decode:
  assumes "\<And>kv. kv \<in> set (List.map_filter (attr_bytes fmt row) cols) \<Longrightarrow> length kv < 2 ^ 63"
    and "list_all (\<lambda>(_, v). any_ok v)
      (List.map_filter (\<lambda>col. map_option (Pair (col_name col)) (attr_any fmt (col_array col) row)) cols)"
  shows "map (decode_kv_inline simd) (List.map_filter (attr_bytes fmt row) cols) =
    map (\<lambda>kv. Inr (Some kv))
      (List.map_filter (\<lambda>col. map_option (Pair (col_name col)) (attr_any fmt (col_array col) row)) cols)"
  using assms
proof (induction cols)
  case (Cons col cols)
  have cell: "any_ok v" if "attr_any fmt (col_array col) row = Some v" for v
    using Cons.prems(2) that by (simp add: List.map_filter_simps)
  have here: "map_option any_of (attr_value fmt (col_array col) row) = attr_any fmt (col_array col) row"
    "\<And>v. attr_value fmt (col_array col) row = Some v \<Longrightarrow> payload_len (snd v) < 2 ^ 64 \<Longrightarrow> value_field_ok v"
    using attr_value_any [OF cell] by blast+
  show ?case
  proof (cases "attr_value fmt (col_array col) row")
    case None
    then show ?thesis using Cons here(1) by (simp add: List.map_filter_simps attr_bytes_def)
  next
    case (Some v)
    then have small: "length (kv_bytes (col_name col) v) < 2 ^ 63"
      using Cons.prems(1) by (simp add: List.map_filter_simps attr_bytes_def)
    then have "payload_len (snd v) < 2 ^ 64"
      using payload_le [of "snd v" "fst v"] kv_bytes_bounds(2) [of v "col_name col"] by simp
    with Some here(2) small have "decode_kv_inline simd (kv_bytes (col_name col) v) = Inr (Some (col_name col, any_of v))"
      by (intro kv_inline_pair) simp_all
    then show ?thesis using Some Cons here(1) [symmetric] by (simp add: List.map_filter_simps attr_bytes_def)
  qed
qed (simp add: List.map_filter_simps)

lemma attributes_decode:
  assumes ok: "row_ok fmt columns row" and rec: "rec = message (row_fields fmt columns row metadata)"
    and fits: "length rec < 2 ^ 63"
  defines "attrs \<equiv> placed (length (message (head_fields columns row))) (attr_fields fmt columns row)"
  shows "map (\<lambda>(p, n). decode_kv_inline simd (subslice rec p (p + n))) (map range_of attrs) =
    map (\<lambda>kv. Inr (Some kv)) (row_attributes fmt columns row)"
proof -
  define kvs where "kvs = List.map_filter (attr_bytes fmt row) (attribute_cols columns)"
  have slices: "map (\<lambda>(p, n). subslice rec p (p + n)) (map range_of attrs) = kvs"
    using range_slices [of "message (head_fields columns row)" kvs "message (tail_fields columns row metadata)"]
    by (simp add: rec row_fields_def attr_fields_def attrs_def kvs_def)
  have "length kv < 2 ^ 63" if "kv \<in> set kvs" for kv
    using payload_in_message [of 6 "Len 0 kv" "row_fields fmt columns row metadata"] that fits rec
    by (auto simp: row_fields_def attr_fields_def kvs_def)
  then have "map (decode_kv_inline simd) kvs = map (\<lambda>kv. Inr (Some kv)) (row_attributes fmt columns row)"
    using cols_decode ok by (simp add: kvs_def row_attributes_def row_ok_def)
  then show ?thesis unfolding slices [symmetric] by (simp add: split_def comp_def)
qed

end

text \<open>
  Property C6. A row encoded by the OTLP sink and decoded by the OTLP receiver: the record the
  receiver decodes has the timestamp, severity, body, trace context and flags of the row, and
  the attribute ranges it reports hold, in column order, exactly the attributes of the row, each
  with its name and typed value. The row belongs to a batch whose columns were resolved
  by the sink; its strings are valid UTF-8 and the record fits a buffer.
\<close>

theorem otlp_row_roundtrip:
  assumes "simdutf8_crate simd" and "batch_ok batch n" and "row < n"
    and "columns = resolve_batch_columns fmt batch message_field" and "row_ok fmt columns row"
    and "length (message (row_fields fmt columns row metadata)) < 2 ^ 63"
    and "rec = encode_row_as_log_record fmt columns row metadata []"
  shows "\<exists>ranges. decode_log_record_fields simd rec [] = Inr (expected_record columns row metadata, ranges) \<and>
    map (\<lambda>(p, n). decode_kv_inline simd (subslice rec p (p + n))) ranges =
      map (\<lambda>kv. Inr (Some kv)) (row_attributes fmt columns row)"
proof -
  have "rec = message (row_fields fmt columns row metadata)"
    using encode_row_eq [OF resolved_ready [OF assms(2,3)]] assms(4,6,7) by simp
  then show ?thesis
    using simdutf8_crate.record_decodes [OF assms(1,5)] simdutf8_crate.attributes_decode [OF assms(1,5)] assms(6)
    by blast
qed

definition example_batch :: "(bytes \<times> Array) list" where
  "example_batch =
     [(bstr ''level'', Utf8 [Some (bstr ''warn'')]), (bstr ''body'', Utf8 [Some (bstr ''hi'')]),
      (bstr ''n'', Int64 [Some 7]), (bstr ''ok'', Boolean [Some True])]"

definition example_columns :: BatchColumns where
  "example_columns = no_columns\<lparr>level_col := Some [Some (bstr ''warn'')], body_col := Some [Some (bstr ''hi'')],
     attribute_cols := [col_attr (bstr ''n'') (Int64 [Some 7]) (AttrInt [Some 7]),
                        col_attr (bstr ''ok'') (Boolean [Some True]) (AttrBool [Some True])]\<rparr>"

definition example_metadata :: BatchMetadata where
  "example_metadata = \<lparr>resource_attrs = [], observed_time_ns = 5\<rparr>"

lemma example_resolved: "resolve_batch_columns fmt example_batch (bstr ''body'') = example_columns"
  by (simp add: resolve_batch_columns_def example_batch_def example_columns_def claim_column_def classify_column_def
      classify_attribute_def strip_prefix_def DEFAULT_RESOURCE_PREFIX_def Let_def upt_rec bstr_def
      is_internal_column_def matches_any_def TIMESTAMP_VARIANTS_def SEVERITY_VARIANTS_def BODY_VARIANTS_def
      TRACE_FLAGS_VARIANTS_def no_columns_def)

lemma example_attributes:
  "row_attributes fmt example_columns 0 = [(bstr ''n'', AnyInt 7), (bstr ''ok'', AnyBool True)]"
  by (simp add: row_attributes_def example_columns_def no_columns_def col_attr_def Let_def List.map_filter_simps)

lemma example_row_ok: "row_ok fmt example_columns 0"
  by (simp add: row_ok_def row_severity_def row_body_def example_attributes)
    (simp add: example_columns_def no_columns_def, code_simp)

lemma example_fits: "length (message (row_fields (\<lambda>_ _. None) example_columns 0 example_metadata)) < 2 ^ 63"
proof -
  have "length (message (row_fields (\<lambda>_ _. None) example_columns 0 example_metadata)) < 100" by code_simp
  then show ?thesis by simp
qed

lemma otlp_row_roundtrip_witness:
  "let columns = resolve_batch_columns (\<lambda>_ _. None) example_batch (bstr ''body'');
       rec = encode_row_as_log_record (\<lambda>_ _. None) columns 0 example_metadata []
   in \<exists>ranges. decode_log_record_fields valid_utf8 rec [] =
       Inr (expected_record columns 0 example_metadata, ranges) \<and>
     map (\<lambda>(p, n). decode_kv_inline valid_utf8 (subslice rec p (p + n))) ranges =
       [Inr (Some (bstr ''n'', AnyInt 7)), Inr (Some (bstr ''ok'', AnyBool True))]"
proof -
  have "batch_ok example_batch 1" by (simp add: batch_ok_def example_batch_def)
  from otlp_row_roundtrip [OF std_utf8.simdutf8_crate_axioms this _ example_resolved [symmetric] example_row_ok example_fits refl]
  show ?thesis by (simp add: example_resolved example_attributes)
qed

end
