(* ===== verification/Spec2Isabelle.thy ===== *)
theory Spec2Isabelle
  imports Checkpoint_Tracker Newline_Framer Cri Structural_Iter Scan_Predicate Record_Batch Pipeline_Steps Source_Registry Otlp_Preflight Otlp_Roundtrip
begin

text \<open>
  A verification development for FastForward (\<^verbatim>\<open>strawgate/fastforward\<close>), a log-forwarding agent
  in Rust. Source paths below are relative to \<^verbatim>\<open>src/crates\<close>.

  \<^bold>\<open>The program.\<close> Inputs read bytes; the framer and the CRI walker cut them into lines and messages;
  the JSON scanner turns lines into rows of a columnar builder, whose batch is an Arrow record
  batch; sinks encode batches, the OTLP sink as protobuf, which the OTLP receiver of another
  agent decodes. The checkpoint tracker and the pipeline lifecycle machine decide which input
  may be forgotten.

  \<^bold>\<open>Representation.\<close> Machine integers are words of their width where they wrap, shift or overflow;
  positions and lengths are naturals, compared with \<open>usize_max\<close> where the code checks for
  overflow; \<^verbatim>\<open>i64\<close> is \<open>int\<close> with \<open>i64_ok\<close>. A buffer is a list of bytes and a slice a sublist, with its
  offset where the code uses the address. \<^verbatim>\<open>&mut self\<close> is state passing on a record with
  the fields of the struct. A panic is \<open>None\<close>, an \<^verbatim>\<open>Err\<close> is \<open>Inl\<close>. \<^verbatim>\<open>f64\<close> is its exact rational value
  with NaN, the infinities and a negative zero in the scanner, and its bit pattern in OTLP. Loops are recursive
  functions with termination proofs, so no result rests on fuel; the receiver's preflight is a
  partial function whose termination is a theorem.

  \<^bold>\<open>Code outside the repository\<close> is a parameter: the memchr and memmem searches (locales
  \<open>memchr_crate\<close>, \<open>memmem_finds\<close>), the SIMD comparison of the wide crate (\<open>wide_crate\<close>), simdutf8
  (\<open>simdutf8_crate\<close>), the Arrow value formatter (\<open>fmt\<close>), and which string arrays Arrow accepts
  (\<open>string_columns\<close>). The laws assumed are the documented behaviour; each locale is
  interpreted on a definition of this development that satisfies it.

  \<^bold>\<open>Core\<close> (\<^verbatim>\<open>ffwd-core/src\<close>).
  \<^item> \<open>Prelude\<close>, \<open>Rust_Std\<close>, \<open>Line_Split\<close>, \<open>Btree_Map\<close>: shared vocabulary, the parts of the Rust
    standard library the sources use (UTF-8, number parsing, ordering, \<^verbatim>\<open>BTreeMap\<close>), and the reference
    notion of a line.
  \<^item> \<open>Byte_Search\<close>: \<^verbatim>\<open>byte_search.rs\<close>, equal to the memchr functions it replaces.
  \<^item> \<open>Checkpoint_Tracker\<close>: \<^verbatim>\<open>checkpoint_tracker.rs\<close>. In every run over a file the checkpoint is a line
    boundary not past the processed bytes, so a restart loses no line.
  \<^item> \<open>Newline_Framer\<close>: \<^verbatim>\<open>framer.rs\<close>. The ranges of a frame are the non-empty complete lines.
  \<^item> \<open>Cri_Reassembler\<close>, \<open>Cri\<close>: \<^verbatim>\<open>reassembler.rs\<close>, \<^verbatim>\<open>cri.rs\<close>. Messages are joined and truncated as
    specified, memory is bounded, the parser accepts exactly the CRI grammar, cutting the input
    into chunks does not change the output, and the output is one JSON line per message.
  \<^item> \<open>Structural\<close>, \<open>Structural_Iter\<close>: \<^verbatim>\<open>structural.rs\<close>, \<^verbatim>\<open>structural_iter.rs\<close>. The bit-parallel block
    classifier agrees with a byte-by-byte reference across block borders, the SIMD path with
    the scalar one, and the iterator yields exactly the structural positions.
  \<^item> \<open>Scan_Config\<close>, \<open>Scan_Predicate\<close>, \<open>Json_Escape\<close>: \<^verbatim>\<open>scan_config.rs\<close>, \<^verbatim>\<open>scan_predicate.rs\<close> and the escape
    decoder of \<^verbatim>\<open>json_scanner.rs\<close>. Integer parsing is exact at the limits of \<^verbatim>\<open>i64\<close>; a predicate
    without negation keeps every row for which SQL evaluates it to true, and where negation drops one is stated.
  \<^item> \<open>Json_Scanner\<close>, \<open>Scan_Phases\<close>, \<open>Scan_Rows\<close>, \<open>Utf8_Scan\<close>: the two phases of \<^verbatim>\<open>json_scanner.rs\<close>. The line
    ranges, quote positions and ends of nested values are those of the reference, and a line's
    fields are delivered to any builder obeying the protocol of locale \<open>scan_builder\<close>.

  \<^bold>\<open>Arrow\<close> (\<^verbatim>\<open>ffwd-arrow/src\<close>).
  \<^item> \<open>Streaming_Builder\<close>, \<open>Streaming_Rows\<close>: \<^verbatim>\<open>streaming_builder/mod.rs\<close>, \<^verbatim>\<open>columnar/row_protocol.rs\<close>,
    \<^verbatim>\<open>lib.rs\<close>. The builder implements the protocol; after a scan its cells are those of the rows.
  \<^item> \<open>Record_Batch\<close>: \<^verbatim>\<open>streaming_builder/finish.rs\<close>, \<^verbatim>\<open>scanner.rs\<close>. The batch has exactly the columns and cells
    of the input's rows, by both finalisers.
  \<^item> \<open>Conflict_Schema\<close>: \<^verbatim>\<open>conflict_schema.rs\<close>. Columns seen with several types become one string column that loses no
    value; the OTLP encoder calls it.

  \<^bold>\<open>Pipeline\<close> (\<^verbatim>\<open>ffwd-types/src/pipeline\<close>).
  \<^item> \<open>Pipeline_Lifecycle\<close>, \<open>Pipeline_Steps\<close>: \<^verbatim>\<open>batch.rs\<close>, \<^verbatim>\<open>lifecycle.rs\<close>. A step relation runs the machine with the
    tickets of its clients. The committed checkpoint is that of the acknowledged prefix, never goes
    back while batches are sent in order, and a draining pipeline can stop exactly when all is acknowledged. What
    a batch sent out of order does to the checkpoint is stated too.
  \<^item> \<open>Source_Registry\<close>: \<^verbatim>\<open>registry.rs\<close>, the lifecycle of sources and pruning.

  \<^bold>\<open>OTLP\<close> (\<^verbatim>\<open>ffwd-core/src/otlp.rs\<close>, \<^verbatim>\<open>ffwd-output/src/otlp_sink\<close>, \<^verbatim>\<open>ffwd-io/src/otlp_receiver/projection\<close>).
  \<^item> \<open>Otlp_Wire\<close>, \<open>Otlp_Fields\<close>: \<^verbatim>\<open>otlp.rs\<close>. Encoders write the precomputed sizes; the values the core varint
    decoder reads back are characterised; hexadecimal, severity and timestamp parsing are exact.
    The writer of identifiers, \<^verbatim>\<open>encode_hex_lower_into\<close> of \<^verbatim>\<open>ffwd-arrow/src/columnar/builder.rs\<close>, is here.
  \<^item> \<open>Otlp_Reader\<close>, \<open>Otlp_Projection\<close>: \<^verbatim>\<open>wire.rs\<close> and the decoders of \<^verbatim>\<open>generated.rs\<close>. The field walk reads back encoded
    messages; the inlined attribute decoder agrees with the reference one up to stated errors.
  \<^item> \<open>Otlp_Preflight\<close>: the tables and \<^verbatim>\<open>scan_message\<close> of \<^verbatim>\<open>generated.rs\<close>. The scan returns on every input, within the
    nesting of its tables; a record it accepts fails to decode only for invalid UTF-8.
  \<^item> \<open>Otlp_Columns\<close>, \<open>Otlp_Encode\<close>, \<open>Otlp_Row_Fields\<close>, \<open>Otlp_Roundtrip\<close>: \<^verbatim>\<open>columns.rs\<close>, \<^verbatim>\<open>types.rs\<close>, \<^verbatim>\<open>encode.rs\<close>.
    What the sink writes for a row, the receiver reads back with every field and attribute. The groups of the
    request are modelled, without a theorem on them.

  \<^bold>\<open>Bounds.\<close> Theorems on offsets assume that buffers fit the \<^verbatim>\<open>u32\<close> views of the builder or the \<^verbatim>\<open>usize\<close>
  range, as the code's own checks do; messages are below \<open>2 ^ 63\<close> bytes, the largest allocation of Rust.

  \<^bold>\<open>Not modelled.\<close> Sockets, files, HTTP, compression, timers, tasks and channels (\<^verbatim>\<open>ffwd-runtime\<close>, most of
  \<^verbatim>\<open>ffwd-io\<close>, the sending side of \<^verbatim>\<open>ffwd-output\<close>): I/O and scheduling with no state of their own that the
  theorems could speak about. The SQL transforms, enrichment and star schema: glue over DataFusion, Arrow kernels
  and regular-expression crates that are not in the repository. The prost fallback of the receiver:
  its object graph is generated from the protocol files at build time. Configuration, command line,
  diagnostics and proof harnesses. Within modelled files, capacity hints, logging and metrics are left out.
\<close>

end
